(* ===== verification/Prelude.thy ===== *)
theory Prelude
  imports Main "HOL-Library.Word" "HOL-Library.Multiset"
begin

text \<open>
  Shared vocabulary of the development: the ways in which a C++ program of the test suite can
  stop (\<^emph>\<open>fault\<close>), fallible computations as sums, checked array access, counted loops,
  reachable states of a step relation, and four interfaces (an inductive invariant of a step
  relation, an effort bounded by a potential, work that every step reduces, a round trip between
  two representations) that the components instantiate.
\<close>

section \<open>Collections of facts\<close>

named_theorems result_simps \<open>rewrite rules for fallible computations\<close>

named_theorems array_simps \<open>rewrite rules for checked array access\<close>

section \<open>Fallible computations\<close>

text \<open>
  What a program of the suite can run into: a failing \<^verbatim>\<open>assert\<close> or \<^verbatim>\<open>ASSERT\<close>, an array or
  vector access outside its bounds (undefined behaviour in C++), a division by zero, an
  exception of the program itself, a \<^verbatim>\<open>DoutFatal\<close>.
\<close>

datatype fault =
    Assertion_failed
  | Out_of_range
  | Null_pointer
  | Division_by_zero
  | Arithmetic_overflow
  | Exception
  | Fatal

type_synonym 'a result = "fault + 'a"

fun bindE :: "'e + 'a \<Rightarrow> ('a \<Rightarrow> 'e + 'b) \<Rightarrow> 'e + 'b" where
  "bindE (Inl e) f = Inl e"
| "bindE (Inr x) f = f x"

definition assertE :: "bool \<Rightarrow> unit result" where
  "assertE b = (if b then Inr () else Inl Assertion_failed)"

definition succeeds :: "'e + 'a \<Rightarrow> bool" where
  "succeeds r = (case r of Inl _ \<Rightarrow> False | Inr _ \<Rightarrow> True)"

lemma bindE_eq_Inr [result_simps]: "(bindE m f = Inr y) = (\<exists>x. m = Inr x \<and> f x = Inr y)"
  by (cases m) auto

lemma bindE_eq_Inl: "(bindE m f = Inl e) = (m = Inl e \<or> (\<exists>x. m = Inr x \<and> f x = Inl e))"
  by (cases m) auto

lemma assertE_eq [result_simps]: "(assertE b = Inr u) = b" "(assertE b = Inl e) = (\<not> b \<and> e = Assertion_failed)"
  by (auto simp: assertE_def)

lemma assertE_True [simp]: "assertE True = Inr ()"
  by (simp add: assertE_def)

lemma assertE_False [simp]: "assertE False = Inl Assertion_failed"
  by (simp add: assertE_def)

lemma succeeds_simps [simp]: "succeeds (Inr x)" "\<not> succeeds (Inl e)"
  by (simp_all add: succeeds_def)

lemma succeeds_iff: "succeeds r = (\<exists>x. r = Inr x)"
  by (cases r) auto

lemma bindE_assoc: "bindE (bindE m f) g = bindE m (\<lambda>x. bindE (f x) g)"
  by (cases m) auto

lemma bindE_cong [fundef_cong]:
  assumes "m = m'" and "\<And>x. m' = Inr x \<Longrightarrow> f x = f' x"
  shows "bindE m f = bindE m' f'"
  using assms by (cases m') auto

section \<open>Checked array access\<close>

text \<open>
  \<^verbatim>\<open>std::array\<close> and \<^verbatim>\<open>std::vector\<close> elements are read and written with \<^verbatim>\<open>operator[]\<close>; outside
  the bounds that is undefined behaviour, here the fault \<^const>\<open>Out_of_range\<close>.
\<close>

definition get_at :: "'a list \<Rightarrow> int \<Rightarrow> 'a result" where
  "get_at xs i = (if 0 \<le> i \<and> i < int (length xs) then Inr (xs ! nat i) else Inl Out_of_range)"

definition set_at :: "'a list \<Rightarrow> int \<Rightarrow> 'a \<Rightarrow> 'a list result" where
  "set_at xs i v = (if 0 \<le> i \<and> i < int (length xs) then Inr (xs[nat i := v]) else Inl Out_of_range)"

lemma get_at_in_range [array_simps]:
  "0 \<le> i \<Longrightarrow> i < int (length xs) \<Longrightarrow> get_at xs i = Inr (xs ! nat i)"
  by (simp add: get_at_def)

lemma set_at_in_range [array_simps]:
  "0 \<le> i \<Longrightarrow> i < int (length xs) \<Longrightarrow> set_at xs i v = Inr (xs[nat i := v])"
  by (simp add: set_at_def)

lemma get_at_eq_Inr: "(get_at xs i = Inr x) = (0 \<le> i \<and> i < int (length xs) \<and> x = xs ! nat i)"
  by (auto simp: get_at_def)

lemma set_at_eq_Inr:
  "(set_at xs i v = Inr ys) = (0 \<le> i \<and> i < int (length xs) \<and> ys = xs[nat i := v])"
  by (auto simp: set_at_def)

lemma set_at_length: "set_at xs i v = Inr ys \<Longrightarrow> length ys = length xs"
  by (auto simp: set_at_eq_Inr)

lemma list_length5E:
  assumes "length xs = 5"
  obtains a b c d e where "xs = [a, b, c, d, e]"
  using assms by (auto simp: length_Suc_conv eval_nat_numeral)

section \<open>Counted loops\<close>

text \<open>
  The values a loop \<^verbatim>\<open>for (int i = a; i <= b; i += d)\<close> gives to its variable. Every such loop of
  the sources has a positive step, which the guard asks for.
\<close>

function for_values :: "int \<Rightarrow> int \<Rightarrow> int \<Rightarrow> int list" where
  "for_values a b d = (if a \<le> b \<and> 0 < d then a # for_values (a + d) b d else [])"
  by pat_completeness auto
termination
  by (relation "measure (\<lambda>(a, b, d). nat (b + 1 - a))") auto

declare for_values.simps [simp del]

lemma for_values_empty [simp]: "b < a \<Longrightarrow> for_values a b d = []"
  by (simp add: for_values.simps)

lemma for_values_Cons: "a \<le> b \<Longrightarrow> 0 < d \<Longrightarrow> for_values a b d = a # for_values (a + d) b d"
  by (simp add: for_values.simps [of a b d])

lemma for_values_two: "a < b \<Longrightarrow> for_values a b (b - a) = [a, b]"
  by (simp add: for_values_Cons)

lemma for_values_upto: "for_values a b 1 = [a..b]"
proof (induction a b "1 :: int" rule: for_values.induct)
  case (1 a b)
  then show ?case by (simp add: for_values.simps [of a b] upto.simps [of a b])
qed

lemma set_for_values_subset: "x \<in> set (for_values a b d) \<Longrightarrow> a \<le> x \<and> x \<le> b"
proof (induction a b d rule: for_values.induct)
  case (1 a b d)
  then show ?case
    by (auto simp: for_values.simps [of a b d] split: if_splits)
qed

text \<open>
  A loop whose body can end the program early: the body yields a fault, an early
  \<^verbatim>\<open>return\<close> (\<^term>\<open>Some r\<close>) or falls through (\<^term>\<open>None\<close>).
\<close>

fun loop_returning :: "('a \<Rightarrow> 'r option result) \<Rightarrow> 'a list \<Rightarrow> 'r option result" where
  "loop_returning body [] = Inr None"
| "loop_returning body (x # xs) =
     bindE (body x) (\<lambda>r. case r of None \<Rightarrow> loop_returning body xs | Some v \<Rightarrow> Inr (Some v))"

lemma loop_returning_falls_through:
  assumes "\<And>x. x \<in> set xs \<Longrightarrow> body x = Inr None"
  shows "loop_returning body xs = Inr None"
  using assms by (induction xs) auto

lemma loop_returning_cong [fundef_cong]:
  "xs = ys \<Longrightarrow> (\<And>x. x \<in> set ys \<Longrightarrow> f x = g x) \<Longrightarrow> loop_returning f xs = loop_returning g ys"
  by (induction xs arbitrary: ys) (auto split: option.splits intro!: bindE_cong)

section \<open>Integers\<close>

text \<open>C++ integer division truncates towards zero; for a non-negative dividend and a positive
  divisor it is \<^term>\<open>(div)\<close>.\<close>

definition c_div :: "int \<Rightarrow> int \<Rightarrow> int" where
  "c_div a b = sgn a * sgn b * (\<bar>a\<bar> div \<bar>b\<bar>)"

definition c_mod :: "int \<Rightarrow> int \<Rightarrow> int" where
  "c_mod a b = a - c_div a b * b"

lemma c_div_nonneg [simp]: "0 \<le> a \<Longrightarrow> 0 < b \<Longrightarrow> c_div a b = a div b"
  by (cases "a = 0") (simp_all add: c_div_def)

lemma c_mod_nonneg [simp]: "0 \<le> a \<Longrightarrow> 0 < b \<Longrightarrow> c_mod a b = a mod b"
  by (simp add: c_mod_def minus_div_mult_eq_mod)

text \<open>
  A value of type \<^verbatim>\<open>int\<close> has 32 bits; arithmetic that leaves the range is undefined behaviour, the
  fault \<^const>\<open>Arithmetic_overflow\<close>.
\<close>

definition to_int :: "int \<Rightarrow> int result" where
  "to_int i = (if - 2147483648 \<le> i \<and> i \<le> 2147483647 then Inr i else Inl Arithmetic_overflow)"

lemma to_int_in_range [simp]: "- 2147483648 \<le> i \<Longrightarrow> i \<le> 2147483647 \<Longrightarrow> to_int i = Inr i"
  by (simp add: to_int_def)

lemma to_int_eq_Inr: "to_int i = Inr j \<longleftrightarrow> - 2147483648 \<le> i \<and> i \<le> 2147483647 \<and> j = i"
  by (auto simp: to_int_def)

text \<open>The decimal digits an output stream prints for an integer.\<close>

fun show_nat :: "nat \<Rightarrow> string" where
  "show_nat n = (if n < 10 then [char_of (48 + n)] else show_nat (n div 10) @ [char_of (48 + n mod 10)])"

declare show_nat.simps [simp del]

definition show_int :: "int \<Rightarrow> string" where
  "show_int i = (if i < 0 then CHR ''-'' # show_nat (nat (- i)) else show_nat (nat i))"

section \<open>Updating one of many\<close>

text \<open>What the update of one element of a list, or of one of \<^verbatim>\<open>n\<close> threads, does to counts and sums.\<close>

lemma filter_update:
  assumes "i < length xs"
  shows "length (filter P (xs[i := y])) + (if P (xs ! i) then 1 else 0) = length (filter P xs) + (if P y then 1 else 0)"
  using assms
proof (induction xs arbitrary: i)
  case (Cons x xs)
  then show ?case
  proof (cases i)
    case (Suc j)
    with Cons.IH [of j] Cons.prems show ?thesis by (cases "P x") simp_all
  qed simp
qed simp

lemma sum_update:
  fixes g :: "'b \<Rightarrow> 'a :: comm_monoid_add"
  assumes "i < (n :: nat)"
  shows "(\<Sum>j < n. g ((f(i := x)) j)) + g (f i) = (\<Sum>j < n. g (f j)) + g x"
proof -
  have "(\<Sum>j < n. g ((f(i := x)) j)) = g x + (\<Sum>j \<in> {..<n} - {i}. g (f j))"
    using assms by (subst sum.remove [of _ i]) (auto intro!: sum.cong)
  moreover have "(\<Sum>j < n. g (f j)) = g (f i) + (\<Sum>j \<in> {..<n} - {i}. g (f j))"
    using assms by (intro sum.remove) auto
  ultimately show ?thesis by (simp add: add.assoc add.commute add.left_commute)
qed

lemma count_list_snoc [simp]: "count_list (ks @ [k]) j = count_list ks j + (if k = j then 1 else 0)"
  by (induction ks) auto

text \<open>How many of \<^verbatim>\<open>n\<close> threads are at points with a property.\<close>

definition number_at :: "('p \<Rightarrow> bool) \<Rightarrow> nat \<Rightarrow> (nat \<Rightarrow> 'p) \<Rightarrow> int" where
  "number_at P n f = (\<Sum>i < n. of_bool (P (f i)))"

lemma number_at_update: "i < n \<Longrightarrow> number_at P n (f(i := p)) = number_at P n f - of_bool (P (f i)) + of_bool (P p)"
  using sum_update [of i n "\<lambda>p. of_bool (P p) :: int" f p] by (simp add: number_at_def)

lemma number_at_nonneg: "0 \<le> number_at P n f"
  unfolding number_at_def by (intro sum_nonneg) simp

lemma none_at: "number_at P n f = 0 \<longleftrightarrow> (\<forall>i < n. \<not> P (f i))"
  by (auto simp: number_at_def sum_nonneg_eq_0_iff)

lemma all_at: "number_at P n f = int n \<longleftrightarrow> (\<forall>i < n. P (f i))"
proof -
  have "number_at P n f = int n - number_at (\<lambda>p. \<not> P p) n f" by (induction n) (auto simp: number_at_def)
  then show ?thesis using none_at [of "\<lambda>p. \<not> P p" n f] by auto
qed

lemma number_at_le: "number_at P n f \<le> int n"
  by (induction n) (auto simp: number_at_def)

lemma not_all_at: "number_at P n f < int n \<Longrightarrow> \<exists>i < n. \<not> P (f i)"
  using all_at [of P n f] by auto

section \<open>Step relations\<close>

text \<open>
  The states that a program, or a set of threads under any scheduler, can reach.
\<close>

inductive reach :: "('s \<Rightarrow> bool) \<Rightarrow> ('s \<Rightarrow> 's \<Rightarrow> bool) \<Rightarrow> 's \<Rightarrow> bool"
  for init :: "'s \<Rightarrow> bool" and step :: "'s \<Rightarrow> 's \<Rightarrow> bool" where
  reach_init: "init s \<Longrightarrow> reach init step s"
| reach_step: "reach init step s \<Longrightarrow> step s t \<Longrightarrow> reach init step t"

text \<open>
  Interface of a component with state: a predicate that holds initially and that every step
  keeps holds in all states that can be reached.
\<close>

locale inductive_invariant =
  fixes init :: "'s \<Rightarrow> bool"
    and step :: "'s \<Rightarrow> 's \<Rightarrow> bool"
    and inv :: "'s \<Rightarrow> bool"
  assumes inv_init: "init s \<Longrightarrow> inv s"
    and inv_step: "inv s \<Longrightarrow> step s t \<Longrightarrow> inv t"
begin

lemma inv_reach: "reach init step s \<Longrightarrow> inv s"
  by (induction rule: reach.induct) (auto intro: inv_init inv_step)

lemma inv_steps: "step\<^sup>*\<^sup>* s t \<Longrightarrow> inv s \<Longrightarrow> inv t"
  by (induction rule: rtranclp_induct) (auto intro: inv_step)

end

text \<open>
  Interface of a component whose work is bounded by a potential: no step lets the effort spent so
  far and the potential grow together. The client's fact: the effort never exceeds the bound.
\<close>

locale bounded_effort = inductive_invariant init step inv
  for init :: "'s \<Rightarrow> bool" and step :: "'s \<Rightarrow> 's \<Rightarrow> bool" and inv :: "'s \<Rightarrow> bool" +
  fixes effort :: "'s \<Rightarrow> nat"
    and potential :: "'s \<Rightarrow> nat"
    and bound :: nat
  assumes effort_init: "init s \<Longrightarrow> effort s + potential s \<le> bound"
    and effort_step: "inv s \<Longrightarrow> step s t \<Longrightarrow> effort t + potential t \<le> effort s + potential s"
begin

lemma effort_potential: "reach init step s \<Longrightarrow> effort s + potential s \<le> bound"
proof (induction rule: reach.induct)
  case (reach_init s)
  then show ?case by (rule effort_init)
next
  case (reach_step s t)
  then show ?case using effort_step [OF inv_reach [OF reach_step(1)] reach_step(2)] by simp
qed

lemma effort_bounded: "reach init step s \<Longrightarrow> effort s \<le> bound"
  using effort_potential by fastforce

end

text \<open>
  Interface of a component that comes to an end: every step leaves less work. The client's fact: a
  run has no more steps than there was work at its start, and keeps the invariant.
\<close>

locale terminating = inductive_invariant init step inv
  for init :: "'s \<Rightarrow> bool" and step :: "'s \<Rightarrow> 's \<Rightarrow> bool" and inv :: "'s \<Rightarrow> bool" +
  fixes work :: "'s \<Rightarrow> nat"
  assumes work_step: "inv s \<Longrightarrow> step s t \<Longrightarrow> work t < work s"
begin

lemma run_bound: "(step ^^ k) s t \<Longrightarrow> inv s \<Longrightarrow> inv t \<and> k + work t \<le> work s"
proof (induction k arbitrary: t)
  case (Suc k)
  then obtain u where u: "(step ^^ k) s u" "step u t" by auto
  from Suc.IH [OF u(1) Suc.prems(2)] inv_step [OF _ u(2)] work_step [OF _ u(2)] show ?case by fastforce
qed simp

lemma run_from_start: "(step ^^ k) s t \<Longrightarrow> init s \<Longrightarrow> inv t \<and> k + work t \<le> work s"
  by (rule run_bound) (auto intro: inv_init)

end

text \<open>
  Interface of a pair of fallible conversions: a valid value has a code, and decoding the code
  gives the value back. The client's fact: two valid values with the same code are equal.
\<close>

locale codec =
  fixes valid :: "'a \<Rightarrow> bool"
    and enc :: "'a \<Rightarrow> 'b result"
    and dec :: "'b \<Rightarrow> 'a result"
  assumes dec_enc: "valid x \<Longrightarrow> \<exists>y. enc x = Inr y \<and> dec y = Inr x"
begin

lemma enc_inj: "valid x \<Longrightarrow> valid y \<Longrightarrow> enc x = enc y \<Longrightarrow> x = y"
  using dec_enc [of x] dec_enc [of y] by auto

end

end
