(* ===== verification/Tournament_Tree.thy ===== *)
theory Tournament_Tree
  imports Prelude
begin

text \<open>
  The tournament tree of \<^verbatim>\<open>src/tree_prop.cc\<close>: four cached values, three levels of winners above
  them, and the two update algorithms (a cached value becomes less, a cached value becomes
  greater). The program tests them by running through all orders of five values; here they are
  shown to keep the tree sane for all integers, and the program's own exhaustive test follows.
\<close>

section \<open>The tree\<close>

text \<open>
  \<^verbatim>\<open>std::array<int, 5> cache\<close> (element 0 is not used) and \<^verbatim>\<open>int t[5]\<close>, whose elements are indices
  into the cache. The three index functions start with an assertion.
\<close>

type_synonym cache = "int list"
type_synonym tree_nodes = "int list"

definition p :: "int \<Rightarrow> int result" where
  "p i = bindE (assertE (0 < i \<and> i < 5)) (\<lambda>_. Inr ((i + 1) div 2 - 1))"

definition s :: "int \<Rightarrow> int result" where
  "s i = bindE (assertE (i = 1 \<or> i = 3 \<or> i = 4)) (\<lambda>_. Inr (if i = 1 then 2 else 7 - i))"

definition interval_to_parent_index :: "int \<Rightarrow> int result" where
  "interval_to_parent_index n = bindE (assertE (n = 1)) (\<lambda>_. Inr 3)"

text \<open>
  \<^verbatim>\<open>is_sane\<close> prints a line for each of eight conditions that fails and then returns whether all
  of them hold. The reads \<^verbatim>\<open>cache[t[i]]\<close> are done whatever the outcome of the earlier tests.
\<close>

datatype complaint =
    T4_is_not_3
  | T2_is_not_4
  | T3_is_not_1_or_2
  | T1_is_not_t3_or_t4
  | T0_is_not_t1_or_t2
  | T3_wrong_value
  | T1_wrong_value
  | T0_wrong_value

definition sane_complaints ::
  "int \<Rightarrow> int \<Rightarrow> int \<Rightarrow> int \<Rightarrow> int \<Rightarrow> int \<Rightarrow> int \<Rightarrow> int \<Rightarrow> int \<Rightarrow> int \<Rightarrow> int \<Rightarrow> int \<Rightarrow> complaint list"
where
  "sane_complaints t0 t1 t2 t3 t4 c1 c2 ct0 ct1 ct2 ct3 ct4 =
     (if t4 \<noteq> 3 then [T4_is_not_3] else []) @
     (if t2 \<noteq> 4 then [T2_is_not_4] else []) @
     (if \<not> (t3 = 1 \<or> t3 = 2) then [T3_is_not_1_or_2] else []) @
     (if \<not> (t1 = t3 \<or> t1 = t4) then [T1_is_not_t3_or_t4] else []) @
     (if \<not> (t0 = t1 \<or> t0 = t2) then [T0_is_not_t1_or_t2] else []) @
     (if min c1 c2 \<noteq> ct3 then [T3_wrong_value] else []) @
     (if min ct3 ct4 \<noteq> ct1 then [T1_wrong_value] else []) @
     (if min ct1 ct2 \<noteq> ct0 then [T0_wrong_value] else [])"

definition sane_verdict ::
  "int \<Rightarrow> int \<Rightarrow> int \<Rightarrow> int \<Rightarrow> int \<Rightarrow> int \<Rightarrow> int \<Rightarrow> int \<Rightarrow> int \<Rightarrow> int \<Rightarrow> int \<Rightarrow> int \<Rightarrow> bool"
where
  "sane_verdict t0 t1 t2 t3 t4 c1 c2 ct0 ct1 ct2 ct3 ct4 \<longleftrightarrow>
     t4 = 3 \<and> t2 = 4 \<and>
     (t3 = 1 \<or> t3 = 2) \<and> min c1 c2 = ct3 \<and>
     (t1 = t3 \<or> t1 = t4) \<and> min ct3 ct4 = ct1 \<and>
     (t0 = t1 \<or> t0 = t2) \<and> min ct1 ct2 = ct0"

definition is_sane :: "cache \<Rightarrow> tree_nodes \<Rightarrow> (complaint list \<times> bool) result" where
  "is_sane cache t =
     bindE (get_at t 0) (\<lambda>t0. bindE (get_at t 1) (\<lambda>t1. bindE (get_at t 2) (\<lambda>t2.
     bindE (get_at t 3) (\<lambda>t3. bindE (get_at t 4) (\<lambda>t4.
     bindE (get_at cache 1) (\<lambda>c1. bindE (get_at cache 2) (\<lambda>c2.
     bindE (get_at cache t3) (\<lambda>ct3. bindE (get_at cache t4) (\<lambda>ct4.
     bindE (get_at cache t1) (\<lambda>ct1. bindE (get_at cache t2) (\<lambda>ct2.
     bindE (get_at cache t0) (\<lambda>ct0.
       Inr (sane_complaints t0 t1 t2 t3 t4 c1 c2 ct0 ct1 ct2 ct3 ct4,
            sane_verdict t0 t1 t2 t3 t4 c1 c2 ct0 ct1 ct2 ct3 ct4)))))))))))))"

section \<open>The update algorithms\<close>

text \<open>
  The loop for a value that becomes less: \<^verbatim>\<open>while (nv <= cache[t[i]]) { t[i] = interval; if (i == 0)
  break; i = p(i); }\<close>.
\<close>

function becomes_less_loop :: "cache \<Rightarrow> int \<Rightarrow> int \<Rightarrow> tree_nodes \<Rightarrow> int \<Rightarrow> tree_nodes result" where
  "becomes_less_loop cache interval nv t i =
     bindE (get_at t i) (\<lambda>ti. bindE (get_at cache ti) (\<lambda>cti.
       if nv \<le> cti then
         bindE (set_at t i interval) (\<lambda>t'.
           if i = 0 then Inr t'
           else bindE (p i) (\<lambda>i'. becomes_less_loop cache interval nv t' i'))
       else Inr t))"
  by pat_completeness auto
termination
  by (relation "measure (\<lambda>(cache, interval, nv, t, i). nat i)")
    (auto simp: p_def bindE_eq_Inr assertE_eq)

definition becomes_less :: "cache \<Rightarrow> int \<Rightarrow> tree_nodes \<Rightarrow> tree_nodes result" where
  "becomes_less cache interval t =
     bindE (get_at cache interval) (\<lambda>nv.
     bindE (interval_to_parent_index interval) (\<lambda>i. becomes_less_loop cache interval nv t i))"

text \<open>
  The loop for a value that becomes greater: \<^verbatim>\<open>in\<close> is the interval whose value changed with
  respect to \<^verbatim>\<open>t[i]\<close>, \<^verbatim>\<open>si\<close> the interval of its current sibling.
\<close>

function becomes_greater_loop ::
  "cache \<Rightarrow> int \<Rightarrow> int \<Rightarrow> int \<Rightarrow> tree_nodes \<Rightarrow> int \<Rightarrow> tree_nodes result" where
  "becomes_greater_loop cache nv n si t i =
     bindE (get_at cache si) (\<lambda>sv.
     bindE (get_at t i) (\<lambda>ti.
       if nv > sv \<and> ti = si then Inr t
       else
         let nv' = (if nv > sv then sv else nv);
             n' = (if nv > sv then si else n)
         in bindE (set_at t i n') (\<lambda>t'.
              if i = 0 then Inr t'
              else bindE (s i) (\<lambda>sib. bindE (get_at t' sib) (\<lambda>si'.
                   bindE (p i) (\<lambda>i'. becomes_greater_loop cache nv' n' si' t' i'))))))"
  by pat_completeness auto
termination
  by (relation "measure (\<lambda>(cache, nv, n, si, t, i). nat i)")
    (auto simp: p_def bindE_eq_Inr assertE_eq)

definition becomes_greater :: "cache \<Rightarrow> int \<Rightarrow> tree_nodes \<Rightarrow> tree_nodes result" where
  "becomes_greater cache interval t =
     bindE (get_at cache interval) (\<lambda>nv.
     bindE (interval_to_parent_index interval) (\<lambda>i.
       becomes_greater_loop cache nv interval (3 - interval) t i))"

declare becomes_less_loop.simps [simp del]
declare becomes_greater_loop.simps [simp del]

text \<open>
  A change of the value of \<^verbatim>\<open>interval\<close> 1, as \<^verbatim>\<open>main\<close> does it: the new value is stored and the
  algorithm for its direction of change is run.
\<close>

definition change_value :: "cache \<Rightarrow> tree_nodes \<Rightarrow> int \<Rightarrow> int \<Rightarrow> (cache \<times> tree_nodes) result" where
  "change_value cache t old_v new_v =
     (let interval = 1 in
      bindE (set_at cache interval new_v) (\<lambda>cache'.
      bindE (if new_v < old_v then becomes_less cache' interval t
             else becomes_greater cache' interval t) (\<lambda>t'. Inr (cache', t'))))"

section \<open>The test program\<close>

datatype outcome = Failure | Success

text \<open>
  The innermost block of \<^verbatim>\<open>main\<close>, from the assignments to \<^verbatim>\<open>t\<close> up to the test of the result:
  \<^const>\<open>Some\<close> is \<^verbatim>\<open>main\<close> returning early after printing \<open>Failure.\<close>.
\<close>

definition run_case :: "int \<Rightarrow> int \<Rightarrow> cache \<Rightarrow> int \<Rightarrow> int \<Rightarrow> int \<Rightarrow> outcome option result" where
  "run_case old_v new_v cache t3 t1 t0 =
     (let t = [t0, t1, 4, t3, 3] in
      bindE (assertE (new_v \<noteq> old_v)) (\<lambda>_.
      bindE (is_sane cache t) (\<lambda>sane. bindE (assertE (snd sane)) (\<lambda>_.
      bindE (change_value cache t old_v new_v) (\<lambda>(cache', t').
      bindE (is_sane cache' t') (\<lambda>sane'.
        Inr (if snd sane' then None else Some Failure)))))))"

text \<open>
  The loops over the node contents: \<^verbatim>\<open>t3\<close>, \<^verbatim>\<open>t1\<close> and \<^verbatim>\<open>t0\<close> range over the candidates of their
  nodes, and a candidate with too large a value is skipped by \<^verbatim>\<open>continue\<close>.
\<close>

definition run_trees :: "int \<Rightarrow> int \<Rightarrow> cache \<Rightarrow> outcome option result" where
  "run_trees old_v new_v cache =
     loop_returning (\<lambda>t3.
       bindE (get_at cache t3) (\<lambda>ct3. bindE (get_at cache 1) (\<lambda>c1. bindE (get_at cache 2) (\<lambda>c2.
       if ct3 > min c1 c2 then Inr None
       else bindE (assertE (3 > t3)) (\<lambda>_.
         loop_returning (\<lambda>t1.
           bindE (get_at cache t1) (\<lambda>ct1. bindE (get_at cache 3) (\<lambda>c3.
           if ct1 > min ct3 c3 then Inr None
           else bindE (assertE (4 > t1)) (\<lambda>_.
             loop_returning (\<lambda>t0.
               bindE (get_at cache t0) (\<lambda>ct0. bindE (get_at cache 4) (\<lambda>c4.
               if ct0 > min ct1 c4 then Inr None
               else run_case old_v new_v cache t3 t1 t0)))
             (for_values t1 4 (4 - t1))))))
         (for_values t3 3 (3 - t3)))))))
     (for_values 1 2 1)"

text \<open>
  \<^verbatim>\<open>main\<close>: all values from 100 to 500 in steps of 100 for the old value, the new value and the
  three other cache entries. The content of the unused element \<^verbatim>\<open>cache[0]\<close> is not initialised; it
  is the parameter \<open>junk\<close>.
\<close>

definition main :: "int \<Rightarrow> outcome result" where
  "main junk =
     bindE (loop_returning (\<lambda>old_v.
       loop_returning (\<lambda>new_v.
         if new_v = old_v then Inr None
         else
           loop_returning (\<lambda>c2. loop_returning (\<lambda>c3. loop_returning (\<lambda>c4.
             run_trees old_v new_v [junk, old_v, c2, c3, c4])
           (for_values 100 500 100)) (for_values 100 500 100)) (for_values 100 500 100))
       (for_values 100 500 100))
     (for_values 100 500 100))
     (\<lambda>r. Inr (case r of None \<Rightarrow> Success | Some v \<Rightarrow> v))"

section \<open>Sane trees\<close>

definition sane :: "cache \<Rightarrow> tree_nodes \<Rightarrow> bool" where
  "sane cache t = (case is_sane cache t of Inl _ \<Rightarrow> False | Inr r \<Rightarrow> snd r)"

text \<open>
  The specification of the tree, as the header of \<^verbatim>\<open>main\<close> draws it: the node at the top holds an
  interval whose cached value is the least of the four.
\<close>

definition winner_is_minimum :: "cache \<Rightarrow> tree_nodes \<Rightarrow> bool" where
  "winner_is_minimum cache t \<longleftrightarrow>
     1 \<le> t ! 0 \<and> t ! 0 \<le> 4 \<and> cache ! nat (t ! 0) = Min (set (tl cache))"

definition wf_tree :: "cache \<times> tree_nodes \<Rightarrow> bool" where
  "wf_tree st \<longleftrightarrow> length (fst st) = 5 \<and> length (snd st) = 5 \<and> sane (fst st) (snd st)"

definition tree_step :: "cache \<times> tree_nodes \<Rightarrow> cache \<times> tree_nodes \<Rightarrow> bool" where
  "tree_step st st' \<longleftrightarrow>
     (\<exists>new_v. new_v \<noteq> fst st ! 1 \<and> change_value (fst st) (snd st) (fst st ! 1) new_v = Inr st')"

lemma if_singleton_Nil: "((if c then [x] else []) = []) = (\<not> c)"
  by simp

lemma sane_complaints_Nil:
  "(sane_complaints t0 t1 t2 t3 t4 c1 c2 ct0 ct1 ct2 ct3 ct4 = []) =
   sane_verdict t0 t1 t2 t3 t4 c1 c2 ct0 ct1 ct2 ct3 ct4"
  unfolding sane_complaints_def sane_verdict_def append_is_Nil_conv if_singleton_Nil by argo

lemma sane_complaints_iff: "is_sane cache t = Inr (cs, b) \<Longrightarrow> b = (cs = [])"
  by (auto simp: is_sane_def bindE_eq_Inr sane_complaints_Nil)

lemma sane_iff: "sane cache t \<longleftrightarrow> is_sane cache t = Inr ([], True)"
  by (auto simp: sane_def split: sum.splits prod.splits dest: sane_complaints_iff)

lemma sane_shape:
  assumes "sane [c0, c1, c2, c3, c4] [t0, t1, t2, t3, t4]"
  shows "t4 = 3" "t2 = 4" "t3 = 1 \<or> t3 = 2" "t1 = t3 \<or> t1 = 3" "t0 = t1 \<or> t0 = 4"
  using assms
  by (clarsimp simp: sane_def is_sane_def sane_verdict_def bindE_eq_Inr get_at_eq_Inr
      split: sum.splits prod.splits)+

text \<open>The shapes that the conditions on the node contents allow, and what sanity says of each.\<close>

definition node_shape :: "int \<Rightarrow> int \<Rightarrow> int \<Rightarrow> bool" where
  "node_shape t0 t1 t3 \<longleftrightarrow> (t3 = 1 \<or> t3 = 2) \<and> (t1 = t3 \<or> t1 = 3) \<and> (t0 = t1 \<or> t0 = 4)"

lemma node_shapeE:
  assumes "node_shape t0 t1 t3"
  obtains "t3 = 1" "t1 = 1" "t0 = 1" | "t3 = 1" "t1 = 1" "t0 = 4"
    | "t3 = 1" "t1 = 3" "t0 = 3" | "t3 = 1" "t1 = 3" "t0 = 4"
    | "t3 = 2" "t1 = 2" "t0 = 2" | "t3 = 2" "t1 = 2" "t0 = 4"
    | "t3 = 2" "t1 = 3" "t0 = 3" | "t3 = 2" "t1 = 3" "t0 = 4"
  using assms unfolding node_shape_def by metis

lemma sane_node_shape:
  assumes "sane [c0, c1, c2, c3, c4] [t0, t1, t2, t3, t4]"
  shows "node_shape t0 t1 t3 \<and> t2 = 4 \<and> t4 = 3"
  using sane_shape [OF assms] by (auto simp: node_shape_def)

lemma sane_values:
  "node_shape t0 t1 t3 \<Longrightarrow>
   sane [c0, c1, c2, c3, c4] [t0, t1, 4, t3, 3] \<longleftrightarrow>
     (if t3 = 1 then c1 \<le> c2 else c2 \<le> c1) \<and>
     (if t1 = 3 then c3 \<le> c1 \<and> c3 \<le> c2 else min c1 c2 \<le> c3) \<and>
     (if t0 = 4 then c4 \<le> c1 \<and> c4 \<le> c2 \<and> c4 \<le> c3 else min (min c1 c2) c3 \<le> c4)"
  by (elim node_shapeE; simp add: sane_def is_sane_def sane_verdict_def get_at_def; linarith)

lemmas tree_eval = interval_to_parent_index_def s_def p_def get_at_def set_at_def Let_def

lemma becomes_less_explicit:
  assumes "node_shape t0 t1 t3" and "sane [c0, c1, c2, c3, c4] [t0, t1, 4, t3, 3]" and "v < c1"
  shows "\<exists>u0 u1 u3. becomes_less [c0, v, c2, c3, c4] 1 [t0, t1, 4, t3, 3] = Inr [u0, u1, 4, u3, 3] \<and>
           node_shape u0 u1 u3 \<and> sane [c0, v, c2, c3, c4] [u0, u1, 4, u3, 3]"
  using assms
  by (elim node_shapeE;
      simp add: sane_values node_shape_def becomes_less_def becomes_less_loop.simps tree_eval;
      linarith)

lemma becomes_greater_explicit:
  assumes "node_shape t0 t1 t3" and "sane [c0, c1, c2, c3, c4] [t0, t1, 4, t3, 3]" and "c1 < v"
  shows "\<exists>u0 u1 u3. becomes_greater [c0, v, c2, c3, c4] 1 [t0, t1, 4, t3, 3] = Inr [u0, u1, 4, u3, 3] \<and>
           node_shape u0 u1 u3 \<and> sane [c0, v, c2, c3, c4] [u0, u1, 4, u3, 3]"
  using assms
  by (elim node_shapeE;
      simp add: sane_values node_shape_def becomes_greater_def becomes_greater_loop.simps tree_eval;
      linarith)

lemma wf_treeE:
  assumes "wf_tree (cache, t)"
  obtains c0 c1 c2 c3 c4 t0 t1 t3 where
    "cache = [c0, c1, c2, c3, c4]" and "t = [t0, t1, 4, t3, 3]" and "node_shape t0 t1 t3"
    and "sane [c0, c1, c2, c3, c4] [t0, t1, 4, t3, 3]"
proof -
  from assms have len: "length cache = 5" "length t = 5" and sane: "sane cache t"
    by (simp_all add: wf_tree_def)
  from len(1) obtain c0 c1 c2 c3 c4 where c: "cache = [c0, c1, c2, c3, c4]"
    by (rule list_length5E)
  from len(2) obtain t0 t1 t2 t3 t4 where t: "t = [t0, t1, t2, t3, t4]"
    by (rule list_length5E)
  from sane sane_node_shape [of c0 c1 c2 c3 c4 t0 t1 t2 t3 t4] c t
  show thesis
    by (auto intro: that)
qed

lemma change_value_wf:
  assumes wf: "wf_tree (cache, t)" and neq: "new_v \<noteq> cache ! 1"
  shows "\<exists>t'. change_value cache t (cache ! 1) new_v = Inr (cache[1 := new_v], t') \<and>
           wf_tree (cache[1 := new_v], t')"
proof -
  from wf obtain c0 c1 c2 c3 c4 t0 t1 t3 where
    c: "cache = [c0, c1, c2, c3, c4]" and t: "t = [t0, t1, 4, t3, 3]"
    and shape: "node_shape t0 t1 t3" and sane: "sane [c0, c1, c2, c3, c4] [t0, t1, 4, t3, 3]"
    by (rule wf_treeE)
  let ?c = "[c0, new_v, c2, c3, c4]"
  have "\<exists>u0 u1 u3. (if new_v < c1 then becomes_less ?c 1 t else becomes_greater ?c 1 t) =
          Inr [u0, u1, 4, u3, 3] \<and> sane ?c [u0, u1, 4, u3, 3]"
    using becomes_less_explicit [OF shape sane, of new_v] becomes_greater_explicit [OF shape sane, of new_v]
      neq c t by auto
  then show ?thesis
    using c by (auto simp: change_value_def set_at_def wf_tree_def)
qed

lemma wf_tree_winner: "wf_tree (cache, t) \<Longrightarrow> winner_is_minimum cache t"
  by (erule wf_treeE)
    (auto elim!: node_shapeE simp: sane_values winner_is_minimum_def node_shape_def min_def split: if_splits)

interpretation tree: inductive_invariant wf_tree tree_step wf_tree
proof
  show "wf_tree st'" if "wf_tree st" "tree_step st st'" for st st'
    using that change_value_wf [of "fst st" "snd st"] by (force simp: tree_step_def)
qed

lemma run_case_passes:
  assumes "node_shape t0 t1 t3" and "sane [c0, c1, c2, c3, c4] [t0, t1, 4, t3, 3]" and "new_v \<noteq> c1"
  shows "run_case c1 new_v [c0, c1, c2, c3, c4] t3 t1 t0 = Inr None"
proof -
  have wf: "wf_tree ([c0, c1, c2, c3, c4], [t0, t1, 4, t3, 3])"
    using assms(2) by (simp add: wf_tree_def)
  show ?thesis
    using change_value_wf [OF wf, of new_v] assms
    by (auto simp: run_case_def wf_tree_def sane_iff)
qed

lemma run_trees_passes:
  assumes "new_v \<noteq> old_v"
  shows "run_trees old_v new_v [c0, old_v, c2, c3, c4] = Inr None"
proof -
  have vals: "for_values 1 2 1 = [1, 2]" "for_values 1 3 2 = [1, 3]" "for_values 2 3 1 = [2, 3]"
    "for_values 1 4 3 = [1, 4]" "for_values 2 4 2 = [2, 4]" "for_values 3 4 1 = [3, 4]"
    by (simp_all add: for_values_Cons)
  show ?thesis
    using assms
    by (auto simp: run_trees_def vals get_at_def  run_case_passes node_shape_def sane_values)
qed

section \<open>Properties\<close>

text \<open>
  C1. Whatever integers the cache holds: when the tree is sane and the value of interval 1 is
  changed to any different value, the algorithm for that direction of change ends without a
  failing assertion or an access outside the arrays, the resulting tree is sane for the new
  cache, and its top node names an interval with the least cached value.
\<close>

theorem change_value_correct:
  assumes "length cache = 5" and "length t = 5" and "sane cache t" and "new_v \<noteq> cache ! 1"
  shows "\<exists>t'. change_value cache t (cache ! 1) new_v = Inr (cache[1 := new_v], t') \<and>
           sane (cache[1 := new_v]) t' \<and> winner_is_minimum (cache[1 := new_v]) t'"
  using change_value_wf [of cache t new_v] wf_tree_winner assms by (auto simp: wf_tree_def)

theorem change_value_correct_witness:
  "sane [0, 100, 200, 300, 400] [1, 1, 4, 1, 3] \<and>
   (\<exists>t'. change_value [0, 100, 200, 300, 400] [1, 1, 4, 1, 3] 100 500 =
           Inr ([0, 500, 200, 300, 400], t') \<and>
         sane [0, 500, 200, 300, 400] t' \<and> winner_is_minimum [0, 500, 200, 300, 400] t')"
  using change_value_correct [of "[0, 100, 200, 300, 400]" "[1, 1, 4, 1, 3]" 500]
  by (simp add: sane_values node_shape_def)



text \<open>
  The test program prints \<open>Success!\<close>: none of its assertions fails, it never accesses an array
  out of bounds, and no combination of values makes a tree insane.
\<close>

theorem main_prints_success: "main junk = Inr Success"
  by (simp add: main_def loop_returning_falls_through run_trees_passes)

text \<open>
  \<^verbatim>\<open>is_sane\<close> prints a complaint exactly when it returns false.
\<close>

theorem is_sane_complains_iff_insane:
  assumes "is_sane cache t = Inr (cs, b)"
  shows "b \<longleftrightarrow> cs = []"
  using assms by (rule sane_complaints_iff)

theorem is_sane_complains_iff_insane_witness:
  "is_sane [0, 100, 200, 300, 400] [1, 1, 4, 2, 3] = Inr ([T1_is_not_t3_or_t4, T3_wrong_value, T1_wrong_value], False) \<and>
   (False \<longleftrightarrow> [T1_is_not_t3_or_t4, T3_wrong_value, T1_wrong_value] = [])"
proof -
  have eq: "is_sane [0, 100, 200, 300, 400] [1, 1, 4, 2, 3] =
      Inr ([T1_is_not_t3_or_t4, T3_wrong_value, T1_wrong_value], False)"
    by code_simp
  from eq is_sane_complains_iff_insane [OF eq] show ?thesis by blast
qed

end
