(* ===== verification/Wait_Signal_Counters.thy ===== *)
theory Wait_Signal_Counters
  imports Prelude
begin

text \<open>
  The simulation of \<^verbatim>\<open>src/wait_signal_test2.cxx\<close>: four condition counters (two normal, two
  required), the effect of \<^verbatim>\<open>wait(mask)\<close> and \<^verbatim>\<open>signal(mask)\<close> on them, the table of all transitions,
  and the execution of a sequence of operations over that table.
\<close>

section \<open>Counter\<close>

text \<open>
  \<^verbatim>\<open>struct Counter\<close>: 0 is idle (waiting for the condition), 1 is running, 2 is running with the
  next wait skipped. The exception \<^verbatim>\<open>NotAllowed\<close> is the fault \<^const>\<open>Exception\<close>; it is thrown before
  the counter changes.
\<close>

record Counter =
  m_value :: int

definition new_counter :: Counter where
  "new_counter = \<lparr>m_value = 1\<rparr>"

definition Counter_signal :: "bool \<Rightarrow> Counter \<Rightarrow> (Counter \<times> bool) result" where
  "Counter_signal idle c =
     (if idle \<and> m_value c \<noteq> 0 then Inl Exception
      else if m_value c = 2 then Inr (c, False)
      else let c' = c\<lparr>m_value := m_value c + 1\<rparr> in Inr (c', m_value c' = 1))"

definition Counter_wait :: "Counter \<Rightarrow> (Counter \<times> bool) result" where
  "Counter_wait c =
     (if m_value c = 0 then Inl Exception
      else let c' = c\<lparr>m_value := m_value c - 1\<rparr> in Inr (c', m_value c' = 1))"

definition Counter_reset :: "int \<Rightarrow> Counter \<Rightarrow> Counter" where
  "Counter_reset v c = c\<lparr>m_value := v\<rparr>"

definition Counter_is_idle :: "Counter \<Rightarrow> bool" where
  "Counter_is_idle c \<longleftrightarrow> m_value c = 0"

definition is_required :: "int \<Rightarrow> bool" where
  "is_required i \<longleftrightarrow> i > 1"

section \<open>Task\<close>

text \<open>\<^verbatim>\<open>struct Task\<close>: the array of the four counters.\<close>

record Task =
  m_counters :: "Counter list"

definition new_task :: Task where
  "new_task = \<lparr>m_counters = [new_counter, new_counter, new_counter, new_counter]\<rparr>"

text \<open>
  A state number encodes the four counters in base three. The loop of \<^verbatim>\<open>set_state\<close> multiplies
  \<^verbatim>\<open>p\<close> by three in every round.
\<close>

primrec set_state_loop :: "nat \<Rightarrow> int \<Rightarrow> int \<Rightarrow> int \<Rightarrow> Counter list \<Rightarrow> Counter list result" where
  "set_state_loop 0 i p st cs = Inr cs"
| "set_state_loop (Suc k) i p st cs =
     bindE (get_at cs i) (\<lambda>c.
     bindE (set_at cs i (c\<lparr>m_value := c_mod (c_div st p) 3\<rparr>)) (\<lambda>cs'.
       set_state_loop k (i + 1) (p * 3) st cs'))"

definition set_state :: "int \<Rightarrow> Task \<Rightarrow> Task result" where
  "set_state st t = bindE (set_state_loop 4 0 1 st (m_counters t)) (\<lambda>cs. Inr (t\<lparr>m_counters := cs\<rparr>))"

definition state :: "Task \<Rightarrow> int result" where
  "state t =
     bindE (get_at (m_counters t) 0) (\<lambda>c0. bindE (get_at (m_counters t) 1) (\<lambda>c1.
     bindE (get_at (m_counters t) 2) (\<lambda>c2. bindE (get_at (m_counters t) 3) (\<lambda>c3.
       Inr (m_value c0 + 3 * m_value c1 + 9 * m_value c2 + 27 * m_value c3)))))"

text \<open>
  The loop shared by \<^verbatim>\<open>wait\<close> and \<^verbatim>\<open>signal\<close>: the counters selected by \<^verbatim>\<open>mask\<close> are changed in order of
  their index, and the result tells whether a normal counter came back to running.
\<close>

primrec counters_loop ::
  "(Counter \<Rightarrow> (Counter \<times> bool) result) \<Rightarrow> int \<Rightarrow> int list \<Rightarrow> Counter list \<Rightarrow> bool \<Rightarrow> (Counter list \<times> bool) result"
where
  "counters_loop f msk [] cs woke = Inr (cs, woke)"
| "counters_loop f msk (i # ks) cs woke =
     (if bit msk (nat i) then
        bindE (get_at cs i) (\<lambda>c. bindE (f c) (\<lambda>(c', r). bindE (set_at cs i c') (\<lambda>cs'.
          counters_loop f msk ks cs' (woke \<or> r \<and> \<not> is_required i))))
      else counters_loop f msk ks cs woke)"

definition Task_wait :: "int \<Rightarrow> Task \<Rightarrow> (Task \<times> bool) result" where
  "Task_wait msk t =
     bindE (counters_loop Counter_wait msk [0, 1, 2, 3] (m_counters t) False)
       (\<lambda>(cs, woke). Inr (t\<lparr>m_counters := cs\<rparr>, woke))"

definition Task_signal :: "int \<Rightarrow> bool \<Rightarrow> Task \<Rightarrow> (Task \<times> bool) result" where
  "Task_signal msk idle t =
     bindE (counters_loop (Counter_signal idle) msk [0, 1, 2, 3] (m_counters t) False)
       (\<lambda>(cs, woke). Inr (t\<lparr>m_counters := cs\<rparr>, woke))"

definition Task_reset :: "Task \<Rightarrow> Task" where
  "Task_reset t = t\<lparr>m_counters := map (Counter_reset 1) (m_counters t)\<rparr>"

definition reset_OR_counters :: "Task \<Rightarrow> Task" where
  "reset_OR_counters t =
     t\<lparr>m_counters := map (\<lambda>(i, c). if \<not> is_required (int i) \<and> Counter_is_idle c then Counter_reset 1 c else c)
                       (enumerate 0 (m_counters t))\<rparr>"

definition is_waiting :: "bool \<Rightarrow> Task \<Rightarrow> bool" where
  "is_waiting OR_counter_woke_up t \<longleftrightarrow>
     (let waiting = filter (\<lambda>(i, c). m_value c = 0) (enumerate 0 (m_counters t)) in
      list_ex (\<lambda>(i, c). is_required (int i)) waiting \<or>
      list_ex (\<lambda>(i, c). \<not> is_required (int i)) waiting \<and> \<not> OR_counter_woke_up)"

definition required_is_idle :: "Task \<Rightarrow> bool" where
  "required_is_idle t \<longleftrightarrow> list_ex (\<lambda>c. m_value c = 0) (drop 2 (m_counters t))"

definition has_idle_counter :: "Task \<Rightarrow> bool" where
  "has_idle_counter t \<longleftrightarrow> list_ex (\<lambda>c. m_value c = 0) (m_counters t)"

text \<open>\<^verbatim>\<open>print_on\<close> prints the counters from the last to the first and returns whether one is idle.\<close>

definition print_on :: "Task \<Rightarrow> string \<times> bool" where
  "print_on t =
     (concat (map (\<lambda>(i, c). (if i \<noteq> 3 then '' '' else '''') @ show_int (m_value c))
        (rev (enumerate 0 (m_counters t)))),
      list_ex (\<lambda>c. m_value c = 0) (m_counters t))"

definition operation_str :: "int \<Rightarrow> string" where
  "operation_str operation =
     (if bit operation 4 then ''signal'' else ''wait'') @ ''('' @
     map (\<lambda>k. if bit operation k then CHR ''1'' else CHR ''0'') [3, 2, 1, 0] @ '')''"

section \<open>The transition table\<close>

definition not_allowed_magic :: int where
  "not_allowed_magic = 81"

text \<open>
  One entry for \<^verbatim>\<open>signal(mask)\<close>, from the copy of the counters to the assignment to \<^verbatim>\<open>graph\<close>, with
  the \<^verbatim>\<open>catch\<close> block.
\<close>

definition signal_entry :: "Task \<Rightarrow> int \<Rightarrow> int result" where
  "signal_entry counters msk =
     (let initial_state_is_waiting = snd (print_on counters) in
      case Task_signal msk (has_idle_counter counters) counters of
        Inl Exception \<Rightarrow> Inr not_allowed_magic
      | Inl e \<Rightarrow> Inl e
      | Inr (counters2, OR_counter_woke_up) \<Rightarrow>
          let woken_up = initial_state_is_waiting \<and> \<not> required_is_idle counters2 \<and>
                         (OR_counter_woke_up \<or> \<not> has_idle_counter counters2)
          in state (if woken_up then Task_reset counters2
                    else if OR_counter_woke_up then reset_OR_counters counters2
                    else counters2))"

definition wait_entry :: "Task \<Rightarrow> int \<Rightarrow> int result" where
  "wait_entry counters msk =
     (case Task_wait msk counters of
        Inl Exception \<Rightarrow> Inr not_allowed_magic
      | Inl e \<Rightarrow> Inl e
      | Inr (counters2, OR_counter_woke_up) \<Rightarrow>
          let woken_up = \<not> required_is_idle counters2 \<and> OR_counter_woke_up
          in state (if woken_up then Task_reset counters2
                    else if OR_counter_woke_up then reset_OR_counters counters2
                    else counters2))"

text \<open>
  \<^verbatim>\<open>graph[s][operation]\<close> after the two loops over the masks: bit 4 of the operation selects
  signal, the entries with mask 0 keep their initial value.
\<close>

definition graph :: "int \<Rightarrow> int \<Rightarrow> int result" where
  "graph s operation =
     (if 0 \<le> s \<and> s < 81 \<and> 0 \<le> operation \<and> operation < 32 then
        bindE (set_state s new_task) (\<lambda>counters.
          let msk = operation mod 16 in
          if msk = 0 then Inr not_allowed_magic
          else if operation \<ge> 16 then signal_entry counters msk
          else wait_entry counters msk)
      else Inl Out_of_range)"

section \<open>Sequences of operations\<close>

text \<open>
  The body of the innermost loop of \<^verbatim>\<open>main\<close>: a sequence of operations is run from state 40 (all
  counters 1). \<^const>\<open>None\<close> is a sequence that is not allowed, \<^const>\<open>Some\<close> tells whether the task runs
  in the end. A wait that does not make the task wait is followed by a fresh run.
\<close>

record run_state =
  task :: Task
  running :: bool

definition start_run :: "run_state result" where
  "start_run = bindE (set_state 40 new_task) (\<lambda>t. Inr \<lparr>task = t, running = True\<rparr>)"

definition run_operation :: "int \<Rightarrow> run_state \<Rightarrow> run_state option result" where
  "run_operation operation rs =
     bindE (state (task rs)) (\<lambda>st.
     bindE (graph st operation) (\<lambda>next_state.
       if next_state = not_allowed_magic \<or> \<not> bit operation 4 \<and> \<not> running rs then Inr None
       else
         bindE (set_state next_state (task rs)) (\<lambda>t.
           let r = \<not> has_idle_counter t in
           if \<not> bit operation 4 \<and> r
           then bindE (set_state 40 t) (\<lambda>t'. Inr (Some \<lparr>task = t', running = r\<rparr>))
           else Inr (Some \<lparr>task = t, running = r\<rparr>))))"

primrec run_operations :: "int list \<Rightarrow> run_state \<Rightarrow> run_state option result" where
  "run_operations [] rs = Inr (Some rs)"
| "run_operations (operation # ops) rs =
     bindE (run_operation operation rs) (\<lambda>r. case r of None \<Rightarrow> Inr None | Some rs' \<Rightarrow> run_operations ops rs')"

definition sequence_result :: "int list \<Rightarrow> bool option result" where
  "sequence_result ops = bindE start_run (\<lambda>rs. bindE (run_operations ops rs) (\<lambda>r. Inr (map_option running r)))"

section \<open>Specification\<close>

definition wf_task :: "Task \<Rightarrow> bool" where
  "wf_task t \<longleftrightarrow> length (m_counters t) = 4 \<and> (\<forall>c \<in> set (m_counters t). m_value c \<in> {0, 1, 2})"

definition task_of :: "int \<Rightarrow> int \<Rightarrow> int \<Rightarrow> int \<Rightarrow> Task" where
  "task_of a b c d = \<lparr>m_counters = [\<lparr>m_value = a\<rparr>, \<lparr>m_value = b\<rparr>, \<lparr>m_value = c\<rparr>, \<lparr>m_value = d\<rparr>]\<rparr>"

text \<open>
  What the table is for: the effect of an operation on the counters themselves, \<^const>\<open>None\<close> when
  it is not allowed.
\<close>

definition after_signal :: "int \<Rightarrow> Task \<Rightarrow> Task option" where
  "after_signal m t =
     (case Task_signal m (has_idle_counter t) t of
        Inl _ \<Rightarrow> None
      | Inr (t', woke) \<Rightarrow>
          Some (if has_idle_counter t \<and> \<not> required_is_idle t' \<and> (woke \<or> \<not> has_idle_counter t') then Task_reset t'
                else if woke then reset_OR_counters t' else t'))"

definition after_wait :: "int \<Rightarrow> Task \<Rightarrow> Task option" where
  "after_wait m t =
     (case Task_wait m t of
        Inl _ \<Rightarrow> None
      | Inr (t', woke) \<Rightarrow>
          Some (if \<not> required_is_idle t' \<and> woke then Task_reset t'
                else if woke then reset_OR_counters t' else t'))"

definition after_operation :: "int \<Rightarrow> Task \<Rightarrow> Task option" where
  "after_operation op t =
     (if op mod 16 = 0 then None
      else if op \<ge> 16 then after_signal (op mod 16) t
      else after_wait (op mod 16) t)"

definition run_ok :: "run_state \<Rightarrow> bool" where
  "run_ok rs \<longleftrightarrow> wf_task (task rs) \<and> running rs = (\<not> has_idle_counter (task rs))"

definition run_step :: "run_state \<Rightarrow> run_state \<Rightarrow> bool" where
  "run_step rs rs' \<longleftrightarrow> (\<exists>op. 0 \<le> op \<and> op < 32 \<and> run_operation op rs = Inr (Some rs'))"

text \<open>
  The result of one operation of a run, and what decides whether a task that waits for the
  conditions \<^verbatim>\<open>m\<close> runs after the signal \<^verbatim>\<open>n\<close>.
\<close>

definition op_result :: "int \<Rightarrow> Task \<Rightarrow> bool \<Rightarrow> (Task \<times> bool) option" where
  "op_result op t r =
     (case after_operation op t of
        None \<Rightarrow> None
      | Some t' \<Rightarrow> if \<not> bit op 4 \<and> \<not> r then None
                   else Some (if \<not> bit op 4 \<and> \<not> has_idle_counter t' then task_of 1 1 1 1 else t',
                              \<not> has_idle_counter t'))"

definition wakes :: "int \<Rightarrow> int \<Rightarrow> bool" where
  "wakes m n \<longleftrightarrow> (bit m 2 \<longrightarrow> bit n 2) \<and> (bit m 3 \<longrightarrow> bit n 3) \<and>
     (bit m 0 \<and> bit n 0 \<or> bit m 1 \<and> bit n 1 \<or> (bit m 0 \<longrightarrow> bit n 0) \<and> (bit m 1 \<longrightarrow> bit n 1))"

definition only_waited_for :: "int \<Rightarrow> int \<Rightarrow> bool" where
  "only_waited_for m n \<longleftrightarrow> (\<forall>k \<in> {0, 1, 2, 3}. bit n k \<longrightarrow> bit m k)"

section \<open>Lemmas\<close>

lemma list_length4E:
  assumes "length xs = 4"
  obtains a b c d where "xs = [a, b, c, d]"
  using assms by (auto simp: length_Suc_conv eval_nat_numeral)

lemma task_length4E:
  assumes "length (m_counters t) = 4"
  obtains a b c d where "t = task_of a b c d"
proof -
  from assms obtain c0 c1 c2 c3 where "m_counters t = [c0, c1, c2, c3]"
    by (rule list_length4E)
  then have "t = task_of (m_value c0) (m_value c1) (m_value c2) (m_value c3)"
    by (simp add: task_of_def)
  then show thesis by (rule that)
qed

lemma wf_task_of [simp]:
  "wf_task (task_of a b c d) \<longleftrightarrow> a \<in> {0, 1, 2} \<and> b \<in> {0, 1, 2} \<and> c \<in> {0, 1, 2} \<and> d \<in> {0, 1, 2}"
  by (simp add: wf_task_def task_of_def)

lemma wf_taskE:
  assumes "wf_task t"
  obtains a b c d where "t = task_of a b c d" and "a \<in> {0, 1, 2}" and "b \<in> {0, 1, 2}"
    and "c \<in> {0, 1, 2}" and "d \<in> {0, 1, 2}"
proof -
  from assms have "length (m_counters t) = 4" by (simp add: wf_task_def)
  then obtain a b c d where "t = task_of a b c d" by (rule task_length4E)
  with assms show thesis by (auto intro: that)
qed

lemma set_state_task_of:
  "set_state st (task_of a b c d) =
     Inr (task_of (c_mod (c_div st 1) 3) (c_mod (c_div st 3) 3) (c_mod (c_div st 9) 3) (c_mod (c_div st 27) 3))"
  by (simp add: set_state_def task_of_def get_at_def set_at_def eval_nat_numeral)

lemma state_task_of [simp]: "state (task_of a b c d) = Inr (a + 3 * b + 9 * c + 27 * d)"
  by (simp add: state_def task_of_def get_at_def)

lemma set_state_new_task: "set_state st new_task = set_state st (task_of 1 1 1 1)"
  by (simp add: new_task_def new_counter_def task_of_def)

lemma div_9_27: "x div 9 = x div 3 div 3" "x div 27 = x div 3 div 3 div 3" for x :: int
  using zdiv_zmult2_eq [of 3 x 3] zdiv_zmult2_eq [of 3 x 9] zdiv_zmult2_eq [of 3 "x div 3" 3] by simp_all

lemma base3_digit: "0 \<le> a \<Longrightarrow> a < 3 \<Longrightarrow> (a + 3 * k) mod 3 = a \<and> (a + 3 * k) div 3 = k" for a k :: int
  by simp

lemma base3_digits:
  fixes a b c d :: int
  assumes "0 \<le> a" "a < 3" "0 \<le> b" "b < 3" "0 \<le> c" "c < 3" "0 \<le> d" "d < 3"
  shows "(a + 3 * b + 9 * c + 27 * d) mod 3 = a" "(a + 3 * b + 9 * c + 27 * d) div 3 mod 3 = b"
    "(a + 3 * b + 9 * c + 27 * d) div 9 mod 3 = c" "(a + 3 * b + 9 * c + 27 * d) div 27 mod 3 = d"
proof -
  have e: "a + 3 * b + 9 * c + 27 * d = a + 3 * (b + 3 * (c + 3 * d))" by simp
  show "(a + 3 * b + 9 * c + 27 * d) mod 3 = a" "(a + 3 * b + 9 * c + 27 * d) div 3 mod 3 = b"
    "(a + 3 * b + 9 * c + 27 * d) div 9 mod 3 = c" "(a + 3 * b + 9 * c + 27 * d) div 27 mod 3 = d"
    unfolding e div_9_27 using assms by (simp_all only: base3_digit mod_pos_pos_trivial)
qed

lemma base3_sum:
  fixes st :: int
  assumes "0 \<le> st" "st < 81"
  shows "st mod 3 + 3 * (st div 3 mod 3) + 9 * (st div 9 mod 3) + 27 * (st div 27 mod 3) = st"
proof -
  have "st div 3 div 3 div 3 mod 3 = st div 3 div 3 div 3"
    using assms by (intro mod_pos_pos_trivial) auto
  then show ?thesis
    unfolding div_9_27
    using mult_div_mod_eq [of 3 st] mult_div_mod_eq [of 3 "st div 3"] mult_div_mod_eq [of 3 "st div 3 div 3"]
    by linarith
qed

lemma set_state_wf:
  assumes "length (m_counters t) = 4" "0 \<le> st" "st < 81"
  shows "\<exists>t'. set_state st t = Inr t' \<and> wf_task t' \<and> state t' = Inr st"
proof -
  from assms(1) obtain a b c d where t: "t = task_of a b c d" by (rule task_length4E)
  have three: "x mod 3 \<in> {0, 1, 2}" for x :: int by auto
  have digit: "c_mod (c_div st k) 3 = st div k mod 3" if "0 < k" for k
    using assms(2) that by (simp add: pos_imp_zdiv_nonneg_iff)
  let ?t = "task_of (st div 1 mod 3) (st div 3 mod 3) (st div 9 mod 3) (st div 27 mod 3)"
  have "set_state st t = Inr ?t"
    unfolding t set_state_task_of by (simp only: digit zero_less_numeral zero_less_one)
  moreover have "wf_task ?t" unfolding wf_task_of by (intro conjI three)
  moreover have "state ?t = Inr st"
    using base3_sum [OF assms(2,3)] by (simp only: state_task_of div_by_1)
  ultimately show ?thesis by blast
qed

lemma state_set_state:
  assumes "wf_task t" and "length (m_counters u) = 4"
  shows "\<exists>s. state t = Inr s \<and> 0 \<le> s \<and> s < 81 \<and> set_state s u = Inr t"
proof -
  from assms(2) obtain x y z w where u: "u = task_of x y z w" by (rule task_length4E)
  from assms(1) obtain a b c d where t: "t = task_of a b c d"
    and r: "a \<in> {0, 1, 2}" "b \<in> {0, 1, 2}" "c \<in> {0, 1, 2}" "d \<in> {0, 1, 2}"
    by (rule wf_taskE)
  let ?s = "a + 3 * b + 9 * c + 27 * d"
  have b: "0 \<le> a" "a < 3" "0 \<le> b" "b < 3" "0 \<le> c" "c < 3" "0 \<le> d" "d < 3"
    using r by auto
  then have s: "0 \<le> ?s" "?s < 81" by linarith+
  have "c_mod (c_div ?s k) 3 = ?s div k mod 3" if "0 < k" for k
    using s(1) that by (simp add: pos_imp_zdiv_nonneg_iff)
  then show ?thesis
    unfolding t u set_state_task_of using s
    by (simp add: base3_digits [OF b, simplified] del: c_mod_nonneg c_div_nonneg)
qed

interpretation numbering: codec wf_task state "\<lambda>s. set_state s new_task"
proof
  have "length (m_counters new_task) = 4" by (simp add: new_task_def)
  then show "\<exists>s. state t = Inr s \<and> set_state s new_task = Inr t" if "wf_task t" for t
    using state_set_state [OF that] by blast
qed

lemma Task_wait_task_of:
  assumes "wf_task (task_of a b c d)"
  shows "Task_wait m (task_of a b c d) =
    (if bit m 0 \<and> a = 0 \<or> bit m 1 \<and> b = 0 \<or> bit m 2 \<and> c = 0 \<or> bit m 3 \<and> d = 0 then Inl Exception
     else Inr (task_of (if bit m 0 then a - 1 else a) (if bit m 1 then b - 1 else b)
                       (if bit m 2 then c - 1 else c) (if bit m 3 then d - 1 else d),
               bit m 0 \<and> a = 2 \<or> bit m 1 \<and> b = 2))"
  by (simp add: Task_wait_def task_of_def get_at_def set_at_def Counter_wait_def is_required_def Let_def)

lemma Counter_signal_in_range:
  "v \<in> {0, 1, 2} \<Longrightarrow> Counter_signal idle \<lparr>m_value = v\<rparr> =
     (if idle \<and> v \<noteq> 0 then Inl Exception else Inr (\<lparr>m_value = min 2 (v + 1)\<rparr>, v = 0))"
  by (auto simp: Counter_signal_def)

lemma Task_signal_task_of:
  assumes "wf_task (task_of a b c d)"
  shows "Task_signal m idle (task_of a b c d) =
    (if idle \<and> (bit m 0 \<and> a \<noteq> 0 \<or> bit m 1 \<and> b \<noteq> 0 \<or> bit m 2 \<and> c \<noteq> 0 \<or> bit m 3 \<and> d \<noteq> 0) then Inl Exception
     else Inr (task_of (if bit m 0 then min 2 (a + 1) else a) (if bit m 1 then min 2 (b + 1) else b)
                       (if bit m 2 then min 2 (c + 1) else c) (if bit m 3 then min 2 (d + 1) else d),
               bit m 0 \<and> a = 0 \<or> bit m 1 \<and> b = 0))"
  using assms unfolding wf_task_of
  by (simp add: Task_signal_def task_of_def get_at_def set_at_def Counter_signal_in_range is_required_def del: insert_iff)

lemma queries_task_of [simp]:
  "has_idle_counter (task_of a b c d) \<longleftrightarrow> a = 0 \<or> b = 0 \<or> c = 0 \<or> d = 0"
  "required_is_idle (task_of a b c d) \<longleftrightarrow> c = 0 \<or> d = 0"
  by (simp_all add: has_idle_counter_def required_is_idle_def task_of_def eval_nat_numeral)

lemma print_on_waiting: "snd (print_on t) = has_idle_counter t"
  by (simp add: print_on_def has_idle_counter_def)

lemma resets_task_of [simp]:
  "Task_reset (task_of a b c d) = task_of 1 1 1 1"
  "reset_OR_counters (task_of a b c d) = task_of (if a = 0 then 1 else a) (if b = 0 then 1 else b) c d"
  by (simp_all add: Task_reset_def reset_OR_counters_def task_of_def Counter_reset_def Counter_is_idle_def
     is_required_def enumerate_eq_zip eval_nat_numeral)

lemma digit_cases:
  "v \<in> {0, 1, 2 :: int} \<Longrightarrow> \<not> (q \<and> v = 0) \<Longrightarrow> (if q then v - 1 else v) \<in> {0, 1, 2}"
  "v \<in> {0, 1, 2 :: int} \<Longrightarrow> (if q then min 2 (v + 1) else v) \<in> {0, 1, 2}"
  "v \<in> {0, 1, 2 :: int} \<Longrightarrow> (if v = 0 then 1 else v) \<in> {0, 1, 2}"
  by auto

lemma Task_wait_wf:
  assumes "wf_task t" and "Task_wait m t = Inr (t', w)"
  shows "wf_task t'"
proof -
  from assms(1) obtain a b c d where t: "t = task_of a b c d"
    and v: "a \<in> {0, 1, 2}" "b \<in> {0, 1, 2}" "c \<in> {0, 1, 2}" "d \<in> {0, 1, 2}"
    by (rule wf_taskE)
  have ok: "\<not> (bit m 0 \<and> a = 0)" "\<not> (bit m 1 \<and> b = 0)" "\<not> (bit m 2 \<and> c = 0)" "\<not> (bit m 3 \<and> d = 0)"
    and t': "t' = task_of (if bit m 0 then a - 1 else a) (if bit m 1 then b - 1 else b)
                       (if bit m 2 then c - 1 else c) (if bit m 3 then d - 1 else d)"
    using assms unfolding t by (simp_all only: Task_wait_task_of split: if_split_asm) simp_all
  show ?thesis
    unfolding t' wf_task_of using v ok by (intro conjI digit_cases(1))
qed

lemma Task_wait_fails: "wf_task t \<Longrightarrow> Task_wait m t = Inl e \<Longrightarrow> e = Exception"
  by (erule wf_taskE) (auto simp: Task_wait_task_of simp del: insert_iff split: if_split_asm)

lemma Task_signal_wf:
  assumes "wf_task t" and "Task_signal m i t = Inr (t', w)"
  shows "wf_task t'"
proof -
  from assms(1) obtain a b c d where t: "t = task_of a b c d"
    and v: "a \<in> {0, 1, 2}" "b \<in> {0, 1, 2}" "c \<in> {0, 1, 2}" "d \<in> {0, 1, 2}"
    by (rule wf_taskE)
  have t': "t' = task_of (if bit m 0 then min 2 (a + 1) else a) (if bit m 1 then min 2 (b + 1) else b)
                       (if bit m 2 then min 2 (c + 1) else c) (if bit m 3 then min 2 (d + 1) else d)"
    using assms unfolding t by (simp only: Task_signal_task_of split: if_split_asm) simp_all
  show ?thesis
    unfolding t' wf_task_of using v by (intro conjI digit_cases(2))
qed

lemma Task_signal_fails: "wf_task t \<Longrightarrow> Task_signal m i t = Inl e \<Longrightarrow> e = Exception"
  by (erule wf_taskE) (auto simp: Task_signal_task_of simp del: insert_iff split: if_split_asm)

lemma resets_wf: "wf_task t \<Longrightarrow> wf_task (Task_reset t)" "wf_task t \<Longrightarrow> wf_task (reset_OR_counters t)"
  by (erule wf_taskE, simp) (erule wf_taskE, simp add: digit_cases(3) del: insert_iff)

lemma after_operation_wf: "wf_task t \<Longrightarrow> after_operation op t = Some t' \<Longrightarrow> wf_task t'"
  by (auto simp: after_operation_def after_signal_def after_wait_def
      intro: resets_wf dest: Task_wait_wf Task_signal_wf split: if_splits sum.splits prod.splits)

lemma set_state_unique:
  assumes "wf_task t" "state t = Inr s" "length (m_counters u) = 4"
  shows "set_state s u = Inr t"
  using state_set_state [OF assms(1,3)] assms(2) by auto

lemma graph_refines:
  assumes "wf_task t" "state t = Inr s" "0 \<le> op" "op < 32"
  shows "graph s op = (case after_operation op t of None \<Rightarrow> Inr not_allowed_magic | Some t' \<Rightarrow> state t')"
proof -
  have s: "0 \<le> s" "s < 81" and set: "set_state s new_task = Inr t"
    using state_set_state [OF assms(1), of new_task] assms(2) by (auto simp: new_task_def)
  have sig: "signal_entry t m = (case after_signal m t of None \<Rightarrow> Inr not_allowed_magic | Some t' \<Rightarrow> state t')" for m
    using Task_signal_fails [OF assms(1), of m "has_idle_counter t"]
    by (auto simp: signal_entry_def after_signal_def print_on_waiting Let_def
        split: sum.splits fault.splits prod.splits)
  have wai: "wait_entry t m = (case after_wait m t of None \<Rightarrow> Inr not_allowed_magic | Some t' \<Rightarrow> state t')" for m
    using Task_wait_fails [OF assms(1), of m]
    by (auto simp: wait_entry_def after_wait_def Let_def split: sum.splits fault.splits prod.splits)
  show ?thesis
    using assms(3,4) s by (simp add: graph_def set after_operation_def sig wai Let_def)
qed

lemma state_wf:
  assumes "wf_task t" obtains s where "state t = Inr s" "0 \<le> s" "s < 81"
  using state_set_state [OF assms, of new_task] by (auto simp: new_task_def)

lemma run_operation_spec:
  assumes ok: "run_ok rs" and op: "0 \<le> op" "op < 32"
  shows "run_operation op rs = Inr
    (case after_operation op (task rs) of
       None \<Rightarrow> None
     | Some t \<Rightarrow>
         if \<not> bit op 4 \<and> \<not> running rs then None
         else Some \<lparr>task = (if \<not> bit op 4 \<and> \<not> has_idle_counter t then task_of 1 1 1 1 else t),
                    running = \<not> has_idle_counter t\<rparr>)"
proof (cases "after_operation op (task rs)")
  case None
  from ok have wf: "wf_task (task rs)" by (simp add: run_ok_def)
  then obtain s where "state (task rs) = Inr s" by (rule state_wf)
  with None graph_refines [OF wf _ op] show ?thesis
    by (simp add: run_operation_def)
next
  case (Some t)
  from ok have wf: "wf_task (task rs)" by (simp add: run_ok_def)
  then obtain s where s: "state (task rs) = Inr s" by (rule state_wf)
  from after_operation_wf [OF wf Some] have wft: "wf_task t" .
  then obtain n where n: "state t = Inr n" "0 \<le> n" "n < 81" by (rule state_wf)
  have len: "length (m_counters (task rs)) = 4" "length (m_counters t) = 4"
    using wf wft by (simp_all add: wf_task_def)
  have g: "graph s op = Inr n" using graph_refines [OF wf s op] Some n by simp
  have t: "set_state n (task rs) = Inr t" using set_state_unique [OF wft n(1) len(1)] .
  have forty: "set_state 40 t = Inr (task_of 1 1 1 1)"
    using set_state_unique [of "task_of 1 1 1 1" 40 t] len(2) by simp
  show ?thesis
    using n s g t forty Some by (simp add: run_operation_def not_allowed_magic_def Let_def)
qed

lemma run_operation_ok:
  assumes "run_ok rs" "0 \<le> op" "op < 32" "run_operation op rs = Inr (Some rs')"
  shows "run_ok rs'"
proof -
  have wf: "wf_task (task rs)" using assms(1) by (simp add: run_ok_def)
  show ?thesis
    using assms(4) after_operation_wf [OF wf]
    by (auto simp: run_operation_spec [OF assms(1-3)] run_ok_def split: option.splits if_splits)
qed

lemma start_run_eq: "start_run = Inr \<lparr>task = task_of 1 1 1 1, running = True\<rparr>"
  using set_state_unique [of "task_of 1 1 1 1" 40 new_task] by (simp add: start_run_def new_task_def)

interpretation sim: inductive_invariant "\<lambda>rs. start_run = Inr rs" run_step run_ok
proof
  show "run_ok rs" if "start_run = Inr rs" for rs
    using that by (auto simp: start_run_eq run_ok_def)
  show "run_ok rs'" if "run_ok rs" "run_step rs rs'" for rs rs'
    using that by (auto simp: run_step_def intro: run_operation_ok)
qed

lemma run_operations_total:
  assumes "run_ok rs" "\<forall>op \<in> set ops. 0 \<le> op \<and> op < 32"
  shows "\<exists>r. run_operations ops rs = Inr r \<and> (\<forall>rs'. r = Some rs' \<longrightarrow> run_ok rs')"
  using assms
proof (induction ops arbitrary: rs)
  case (Cons op ops)
  then have op: "0 \<le> op" "op < 32" by auto
  obtain r where r: "run_operation op rs = Inr r"
    using run_operation_spec [OF Cons.prems(1) op] by blast
  show ?case
  proof (cases r)
    case (Some rs')
    with run_operation_ok [OF Cons.prems(1) op] r have "run_ok rs'" by simp
    with Cons Some r show ?thesis by simp
  qed (simp add: r)
qed simp

lemma run_operation_op_result:
  assumes "run_ok rs" "0 \<le> op" "op < 32"
  shows "run_operation op rs = Inr (map_option (\<lambda>(t, r). \<lparr>task = t, running = r\<rparr>) (op_result op (task rs) (running rs)))"
  using run_operation_spec [OF assms] by (auto simp: op_result_def split: option.splits)

lemma sequence_result_pair:
  assumes x: "0 \<le> x" "x < 32" and y: "0 \<le> y" "y < 32"
  shows "sequence_result [x, y] =
    Inr (case op_result x (task_of 1 1 1 1) True of None \<Rightarrow> None
         | Some (t, r) \<Rightarrow> map_option snd (op_result y t r))"
proof -
  let ?rs = "\<lparr>task = task_of 1 1 1 1, running = True\<rparr>"
  have ok: "run_ok ?rs" by (simp add: run_ok_def)
  show ?thesis
  proof (cases "op_result x (task_of 1 1 1 1) True")
    case None
    then show ?thesis
      by (simp add: sequence_result_def start_run_eq run_operation_op_result [OF ok x])
  next
    case (Some tr)
    then obtain t r where tr: "op_result x (task_of 1 1 1 1) True = Some (t, r)" by (cases tr) auto
    with run_operation_ok [OF ok x] have ok': "run_ok \<lparr>task = t, running = r\<rparr>"
      by (simp add: run_operation_op_result [OF ok x])
    show ?thesis
      using tr by (auto simp: sequence_result_def start_run_eq run_operation_op_result [OF ok x]
          run_operation_op_result [OF ok' y] split: option.splits)
  qed
qed


lemma small_mask_bits:
  assumes "0 < (m::int)" "m < 16"
  shows "bit m 0 \<or> bit m 1 \<or> bit m 2 \<or> bit m 3"
proof (rule ccontr)
  assume none: "\<not> ?thesis"
  have "\<not> bit m k" if "k < 4" for k
  proof -
    from that have "k = 0 \<or> k = 1 \<or> k = 2 \<or> k = 3" by linarith
    then show ?thesis using none by blast
  qed
  then have "take_bit 4 m = 0"
    by (intro bit_eqI) (simp add: bit_take_bit_iff)
  with assms show False by (simp add: take_bit_eq_mod)
qed

lemma operation_bit4: "0 \<le> op \<Longrightarrow> op < 32 \<Longrightarrow> bit op 4 \<longleftrightarrow> op \<ge> 16" for op :: int
proof -
  assume a: "0 \<le> op" "op < 32"
  then have "op div 16 = (if op \<ge> 16 then 1 else 0)" by auto
  then show ?thesis by (simp add: bit_iff_odd)
qed

lemma after_wait_fresh:
  "after_wait m (task_of 1 1 1 1) =
     Some (task_of (if bit m 0 then 0 else 1) (if bit m 1 then 0 else 1) (if bit m 2 then 0 else 1) (if bit m 3 then 0 else 1))"
  by (simp add: after_wait_def Task_wait_task_of)

lemma after_signal_fresh:
  "after_signal n (task_of 1 1 1 1) =
     Some (task_of (if bit n 0 then 2 else 1) (if bit n 1 then 2 else 1) (if bit n 2 then 2 else 1) (if bit n 3 then 2 else 1))"
  by (simp add: after_signal_def Task_signal_task_of)

lemma after_signal_waiting:
  assumes "m0 \<or> m1 \<or> m2 \<or> m3"
  shows "map_option has_idle_counter
     (after_signal n (task_of (if m0 then 0 else 1) (if m1 then 0 else 1) (if m2 then 0 else 1) (if m3 then 0 else 1))) =
     (if (bit n 0 \<longrightarrow> m0) \<and> (bit n 1 \<longrightarrow> m1) \<and> (bit n 2 \<longrightarrow> m2) \<and> (bit n 3 \<longrightarrow> m3) 
      then Some (\<not> ((m2 \<longrightarrow> bit n 2) \<and> (m3 \<longrightarrow> bit n 3) \<and> (bit n 0 \<or> bit n 1 \<or> (m0 \<longrightarrow> bit n 0) \<and> (m1 \<longrightarrow> bit n 1))))
      else None)"
  using assms
  by (cases m0; cases m1; cases m2; cases m3; simp add: after_signal_def Task_signal_task_of)

lemma after_wait_signalled:
  shows "map_option has_idle_counter
     (after_wait m (task_of (if n0 then 2 else 1) (if n1 then 2 else 1) (if n2 then 2 else 1) (if n3 then 2 else 1))) =
      Some (\<not> ((bit m 2 \<longrightarrow> n2) \<and> (bit m 3 \<longrightarrow> n3) \<and> (bit m 0 \<and> n0 \<or> bit m 1 \<and> n1 \<or> (bit m 0 \<longrightarrow> n0) \<and> (bit m 1 \<longrightarrow> n1))))"
  by (cases n0; cases n1; cases n2; cases n3; simp add: after_wait_def Task_wait_task_of)


lemma op_result_snd:
  "map_option snd (op_result op t r) =
    (if \<not> bit op 4 \<and> \<not> r then None else map_option (\<lambda>i. \<not> i) (map_option has_idle_counter (after_operation op t)))"
  by (auto simp: op_result_def split: option.splits)

lemma after_operation_wait: "0 < m \<Longrightarrow> m < 16 \<Longrightarrow> after_operation m = after_wait m"
  by (simp add: after_operation_def fun_eq_iff)

lemma after_operation_signal: "0 < n \<Longrightarrow> n < 16 \<Longrightarrow> after_operation (16 + n) = after_signal n"
  by (simp add: after_operation_def fun_eq_iff)

lemma wait_then_signal:
  assumes m: "0 < m" "m < 16" and n: "0 < n" "n < 16"
  shows "sequence_result [m, 16 + n] = Inr (if only_waited_for m n then Some (wakes m n) else None)"
proof -
  have b: "\<not> bit m 4" "bit (16 + n) 4" using m n operation_bit4 by auto
  note mm = small_mask_bits [OF m]
  let ?t = "task_of (if bit m 0 then 0 else 1) (if bit m 1 then 0 else 1) (if bit m 2 then 0 else 1) (if bit m 3 then 0 else 1)"
  have "op_result m (task_of 1 1 1 1) True = Some (?t, False)"
    using b mm by (auto simp: op_result_def after_operation_wait [OF m] after_wait_fresh)
  then have "sequence_result [m, 16 + n] = Inr (map_option (\<lambda>i. \<not> i) (map_option has_idle_counter (after_signal n ?t)))"
    using m n b by (simp only: sequence_result_pair op_result_snd after_operation_signal) simp
  also have "\<dots> = Inr (if only_waited_for m n then Some (wakes m n) else None)"
    unfolding after_signal_waiting [OF mm] only_waited_for_def wakes_def by auto
  finally show ?thesis .
qed

lemma signal_then_wait:
  assumes m: "0 < m" "m < 16" and n: "0 < n" "n < 16"
  shows "sequence_result [16 + n, m] = Inr (Some (wakes m n))"
proof -
  have b: "\<not> bit m 4" "bit (16 + n) 4" using m n operation_bit4 by auto
  let ?t = "task_of (if bit n 0 then 2 else 1) (if bit n 1 then 2 else 1) (if bit n 2 then 2 else 1) (if bit n 3 then 2 else 1)"
  have "op_result (16 + n) (task_of 1 1 1 1) True = Some (?t, True)"
    using b by (simp add: op_result_def after_operation_signal [OF n] after_signal_fresh)
  then have "sequence_result [16 + n, m] = Inr (map_option (\<lambda>i. \<not> i) (map_option has_idle_counter (after_wait m ?t)))"
    using m n b by (simp only: sequence_result_pair op_result_snd after_operation_wait) simp
  also have "\<dots> = Inr (Some (wakes m n))"
    unfolding after_wait_signalled wakes_def by auto
  finally show ?thesis .
qed

lemma waits_twice:
  assumes m: "0 < m" "m < 16" and n: "0 < n" "n < 16"
  shows "sequence_result [m, n] = Inr None"
proof -
  have b: "\<not> bit m 4" "\<not> bit n 4" using m n operation_bit4 by auto
  let ?t = "task_of (if bit m 0 then 0 else 1) (if bit m 1 then 0 else 1) (if bit m 2 then 0 else 1) (if bit m 3 then 0 else 1)"
  have "op_result m (task_of 1 1 1 1) True = Some (?t, False)"
    using b small_mask_bits [OF m] by (auto simp: op_result_def after_operation_wait [OF m] after_wait_fresh)
  then show ?thesis
    using m n b by (simp add: sequence_result_pair op_result_snd)
qed

lemma signals_twice:
  assumes m: "0 < m" "m < 16" and n: "0 < n" "n < 16"
  shows "sequence_result [16 + m, 16 + n] = Inr (Some True)"
proof -
  have b: "bit (16 + m) 4" "bit (16 + n) 4" using m n operation_bit4 by auto
  let ?t = "task_of (if bit m 0 then 2 else 1) (if bit m 1 then 2 else 1) (if bit m 2 then 2 else 1) (if bit m 3 then 2 else 1)"
  have "op_result (16 + m) (task_of 1 1 1 1) True = Some (?t, True)"
    using b by (simp add: op_result_def after_operation_signal [OF m] after_signal_fresh)
  then have "sequence_result [16 + m, 16 + n] = Inr (map_option (\<lambda>i. \<not> i) (map_option has_idle_counter (after_signal n ?t)))"
    using m n b by (simp only: sequence_result_pair op_result_snd after_operation_signal) simp
  also have "map_option has_idle_counter (after_signal n ?t) = Some False"
    by (auto simp: after_signal_def Task_signal_task_of min_def)
  finally show ?thesis by simp
qed

section \<open>Properties\<close>



text \<open>C4. State numbers and counters correspond one to one: every number below 81 unpacks to
  counters in range that pack to it again, whatever the counters were before, and two tasks with
  counters in range and the same number are equal.\<close>

theorem state_number_round_trip:
  assumes "wf_task u" "0 \<le> s" "s < 81"
  shows "\<exists>t. set_state s u = Inr t \<and> wf_task t \<and> state t = Inr s \<and> (\<forall>t'. wf_task t' \<and> state t' = Inr s \<longrightarrow> t' = t)"
proof -
  obtain t where t: "set_state s u = Inr t" "wf_task t" "state t = Inr s"
    using set_state_wf [of u s] assms by (auto simp: wf_task_def)
  then show ?thesis using numbering.enc_inj by fastforce
qed

theorem state_number_round_trip_witness:
  "\<exists>t. set_state 47 (task_of 2 0 1 0) = Inr t \<and> wf_task t \<and> state t = Inr 47 \<and> (\<forall>t'. wf_task t' \<and> state t' = Inr 47 \<longrightarrow> t' = t)"
  by (rule state_number_round_trip) simp_all

text \<open>C5. Running any sequence of operations from the start state never faults, and in every
  state of the run the flag \<^verbatim>\<open>running\<close> says exactly that no counter is idle.\<close>

theorem sequences_never_fault:
  assumes "\<forall>op \<in> set ops. 0 \<le> op \<and> op < 32"
  shows "(\<exists>r. sequence_result ops = Inr r) \<and>
    (\<forall>rs. reach (\<lambda>rs. start_run = Inr rs) run_step rs \<longrightarrow>
       wf_task (task rs) \<and> running rs = (\<not> has_idle_counter (task rs)))"
proof -
  have "run_ok \<lparr>task = task_of 1 1 1 1, running = True\<rparr>" by (simp add: run_ok_def)
  from run_operations_total [OF this assms] have "\<exists>r. sequence_result ops = Inr r"
    by (auto simp: sequence_result_def start_run_eq)
  then show ?thesis
    using sim.inv_reach by (simp add: run_ok_def)
qed

theorem sequences_never_fault_witness:
  "(\<exists>r. sequence_result [1, 17, 3, 18] = Inr r) \<and>
   wf_task (task_of 1 1 1 1) \<and> True = (\<not> has_idle_counter (task_of 1 1 1 1))"
proof -
  have "reach (\<lambda>rs. start_run = Inr rs) run_step \<lparr>task = task_of 1 1 1 1, running = True\<rparr>"
    by (simp add: reach_init start_run_eq)
  with sequences_never_fault [of "[1, 17, 3, 18]"] show ?thesis by auto
qed

text \<open>A wait followed by a signal and the signal followed by the wait agree: the task runs
  afterwards exactly when every required condition waited for is signalled and, of the other
  conditions waited for, one is signalled or none is left. The only difference is that a signal
  for a condition that a waiting task does not wait for is not allowed.\<close>

theorem wait_and_signal_commute:
  assumes "0 < m" "m < 16" "0 < n" "n < 16"
  shows "sequence_result [16 + n, m] = Inr (Some (wakes m n)) \<and>
    sequence_result [m, 16 + n] = Inr (if only_waited_for m n then Some (wakes m n) else None)"
  using signal_then_wait [OF assms] wait_then_signal [OF assms] by simp

theorem wait_and_signal_commute_witness:
  "sequence_result [16 + 3, 7] = Inr (Some (wakes 7 3)) \<and>
    sequence_result [7, 16 + 3] = Inr (if only_waited_for 7 3 then Some (wakes 7 3) else None)"
  by (rule wait_and_signal_commute) simp_all

text \<open>The outcome of two operations does not depend on their order: whenever both orders are
  allowed, they leave the task in the same of the two conditions, running or waiting.\<close>

theorem two_operations_commute:
  assumes "0 \<le> x" "x < 32" "0 \<le> y" "y < 32" "x mod 16 \<noteq> 0" "y mod 16 \<noteq> 0"
    and "sequence_result [x, y] = Inr (Some r)"
  shows "sequence_result [y, x] = Inr (Some r) \<or> sequence_result [y, x] = Inr None"
proof -
  have split: "(0 < z \<and> z < 16) \<or> (\<exists>n. z = 16 + n \<and> 0 < n \<and> n < 16)" if "0 \<le> z" "z < 32" "z mod 16 \<noteq> 0" for z :: int
    using that by (cases "z < 16") (auto intro!: exI [of _ "z - 16"] simp: order_less_le)
  from split [OF assms(1,2,5)] split [OF assms(3,4,6)] assms(7) show ?thesis
    by (auto simp: waits_twice signals_twice wait_then_signal signal_then_wait split: if_splits)
qed

theorem two_operations_commute_witness:
  "sequence_result [24, 9] = Inr (Some False) \<or> sequence_result [24, 9] = Inr None"
proof (rule two_operations_commute)
  show "sequence_result [9, 24] = Inr (Some False)" by code_simp
qed simp_all

text \<open>Four operations do depend on their order: the same operations lead to a running task
  in one order and to a waiting one in another, which is what the program prints as a
  difference.\<close>

theorem four_operations_order_matters:
  "mset [1, 17, 3, 18] = mset [3, 17, 18, (1::int)] \<and>
   sequence_result [1, 17, 3, 18] = Inr (Some True) \<and> sequence_result [3, 17, 18, 1] = Inr (Some False)"
proof (intro conjI)
  show "mset [1, 17, 3, 18] = mset [3, 17, 18, (1::int)]" by (simp add: add_mset_commute)
  show "sequence_result [1, 17, 3, 18] = Inr (Some True)" by code_simp
  show "sequence_result [3, 17, 18, 1] = Inr (Some False)" by code_simp
qed

end
