(* ===== verification/Wait_Signal_Script.thy ===== *)
theory Wait_Signal_Script
  imports Prelude
begin

text \<open>
  The unit test of \<^verbatim>\<open>AIStatefulTask::wait\<close> and \<^verbatim>\<open>AIStatefulTask::signal\<close> in
  \<^verbatim>\<open>src/wait_signal_test.cxx\<close>: 66 scripts of calls with the expected results. The task class
  itself is a submodule; it is the parameter \<^verbatim>\<open>T\<close> of the model, and what the scripts rely on
  (the diagram of IDLE, RUNNING and SKIP_WAIT in the source) is the predicate
  \<^verbatim>\<open>wait_signal_contract\<close>.
\<close>

unbundle bit_operations_syntax

section \<open>The task under test\<close>

type_synonym condition_type = "32 word"

text \<open>The operations of \<^verbatim>\<open>AIStatefulTask\<close> that the test calls, on task objects of any type.\<close>

record 's task_ops =
  wait_op :: "condition_type \<Rightarrow> 's \<Rightarrow> 's"
  signal_op :: "condition_type \<Rightarrow> 's \<Rightarrow> 's \<times> bool"
  waiting_op :: "'s \<Rightarrow> bool"
  abort_op :: "'s \<Rightarrow> 's"

section \<open>Test\<close>

definition number_of_tests :: int where
  "number_of_tests = 66"

text \<open>\<^verbatim>\<open>Test::signal\<close> checks the value returned by the base class.\<close>

definition Test_signal :: "'s task_ops \<Rightarrow> condition_type \<Rightarrow> bool \<Rightarrow> 's \<Rightarrow> 's result" where
  "Test_signal T condition expected t =
     (let (t', res) = signal_op T condition t in
      bindE (assertE (res = expected)) (\<lambda>_. Inr t'))"

definition assert_IDLE :: "'s task_ops \<Rightarrow> 's \<Rightarrow> 's result" where
  "assert_IDLE T t = bindE (assertE (waiting_op T t)) (\<lambda>_. Inr t)"

definition assert_RUNNING :: "'s task_ops \<Rightarrow> 's \<Rightarrow> 's result" where
  "assert_RUNNING T t =
     bindE (assertE (\<not> waiting_op T t)) (\<lambda>_.
       let t' = wait_op T 1 t in
       bindE (assertE (waiting_op T t')) (\<lambda>_. Inr t'))"

definition assert_SKIP_WAIT :: "'s task_ops \<Rightarrow> 's \<Rightarrow> 's result" where
  "assert_SKIP_WAIT T t =
     bindE (assertE (\<not> waiting_op T t)) (\<lambda>_.
       let t' = wait_op T 1 t in
       bindE (assertE (\<not> waiting_op T t')) (\<lambda>_. Inr t'))"

section \<open>The scripts\<close>

text \<open>One statement of a \<^verbatim>\<open>case\<close> block of \<^verbatim>\<open>do_test\<close>.\<close>

datatype test_step =
    Wait condition_type
  | Signal condition_type bool
  | Assert_IDLE
  | Assert_RUNNING
  | Assert_SKIP_WAIT

fun test_statement :: "'s task_ops \<Rightarrow> test_step \<Rightarrow> 's \<Rightarrow> 's result" where
  "test_statement T (Wait c) t = Inr (wait_op T c t)"
| "test_statement T (Signal c expected) t = Test_signal T c expected t"
| "test_statement T Assert_IDLE t = assert_IDLE T t"
| "test_statement T Assert_RUNNING t = assert_RUNNING T t"
| "test_statement T Assert_SKIP_WAIT t = assert_SKIP_WAIT T t"

primrec test_statements :: "'s task_ops \<Rightarrow> test_step list \<Rightarrow> 's \<Rightarrow> 's result" where
  "test_statements T [] t = Inr t"
| "test_statements T (st # sts) t = bindE (test_statement T st t) (test_statements T sts)"

text \<open>The \<^verbatim>\<open>case\<close> blocks of the switch, labels and statements, in the groups of the source.\<close>

definition tests_without_signal_2 :: "(int \<times> test_step list) list" where
  "tests_without_signal_2 =
    [(0, [Wait 1, Assert_IDLE]),
     (1, [Signal 1 False, Assert_SKIP_WAIT]),
     (2, [Signal 1 False, Signal 1 False, Assert_SKIP_WAIT]),
     (3, [Signal 1 False, Wait 1, Assert_RUNNING]),
     (4, [Wait 1, Signal 1 True, Assert_RUNNING])]"

definition tests_with_signal_2 :: "(int \<times> test_step list) list" where
  "tests_with_signal_2 =
    [(0 + 5, [Signal 2 False, Wait 1, Assert_IDLE]),
     (0 + 6, [Wait 1, Signal 2 False, Assert_IDLE]),
     (1 + 6, [Signal 2 False, Signal 1 False, Assert_SKIP_WAIT]),
     (1 + 7, [Signal 1 False, Signal 2 False, Assert_SKIP_WAIT]),
     (2 + 7, [Signal 2 False, Signal 1 False, Signal 1 False, Assert_SKIP_WAIT]),
     (2 + 8, [Signal 1 False, Signal 2 False, Signal 1 False, Assert_SKIP_WAIT]),
     (2 + 9, [Signal 1 False, Signal 1 False, Signal 2 False, Assert_SKIP_WAIT]),
     (3 + 9, [Signal 2 False, Signal 1 False, Wait 1, Assert_RUNNING]),
     (3 + 10, [Signal 1 False, Signal 2 False, Wait 1, Assert_RUNNING]),
     (3 + 11, [Signal 1 False, Wait 1, Signal 2 False, Assert_RUNNING]),
     (4 + 11, [Signal 2 False, Wait 1, Signal 1 True, Assert_RUNNING]),
     (4 + 12, [Wait 1, Signal 2 False, Signal 1 True, Assert_RUNNING]),
     (4 + 13, [Wait 1, Signal 1 True, Signal 2 False, Assert_RUNNING])]"

definition tests_with_wait_2_idle :: "(int \<times> test_step list) list" where
  "tests_with_wait_2_idle =
    [(0 + 5 + 13, [Wait 2, Signal 2 True, Wait 1, Assert_IDLE]),
     (0 + 5 + 14, [Signal 2 False, Wait 2, Wait 1, Assert_IDLE]),
     (0 + 5 + 15, [Signal 2 False, Wait 3, Assert_RUNNING]),
     (0 + 6 + 15, [Wait 3, Signal 2 True, Assert_RUNNING]),
     (0 + 6 + 16, []),
     (0 + 6 + 17, [])]"

definition tests_with_wait_2_skip :: "(int \<times> test_step list) list" where
  "tests_with_wait_2_skip =
    [(1 + 6 + 17, [Wait 2, Signal 2 True, Signal 1 False, Assert_SKIP_WAIT]),
     (1 + 6 + 18, [Signal 2 False, Wait 2, Signal 1 False, Assert_SKIP_WAIT]),
     (1 + 6 + 19, [Signal 2 False, Signal 1 False, Wait 2, Assert_SKIP_WAIT]),
     (1 + 7 + 19, [Wait 2, Signal 1 False, Signal 2 True, Assert_SKIP_WAIT]),
     (1 + 7 + 20, [Signal 1 False, Wait 2, Signal 2 True, Assert_SKIP_WAIT]),
     (1 + 7 + 21, [Signal 1 False, Signal 2 False, Wait 2, Assert_SKIP_WAIT])]"

definition tests_with_wait_2_skip_twice :: "(int \<times> test_step list) list" where
  "tests_with_wait_2_skip_twice =
    [(2 + 7 + 21, [Wait 2, Signal 2 True, Signal 1 False, Signal 1 False, Assert_SKIP_WAIT]),
     (2 + 7 + 22, [Signal 2 False, Wait 2, Signal 1 False, Signal 1 False, Assert_SKIP_WAIT]),
     (2 + 7 + 23, [Signal 2 False, Signal 1 False, Wait 2, Signal 1 False, Assert_SKIP_WAIT]),
     (2 + 7 + 24, [Signal 2 False, Signal 1 False, Signal 1 False, Wait 2, Assert_SKIP_WAIT]),
     (2 + 8 + 24, [Wait 2, Signal 1 False, Signal 2 True, Signal 1 False, Assert_SKIP_WAIT]),
     (2 + 8 + 25, [Signal 1 False, Wait 2, Signal 2 True, Signal 1 False, Assert_SKIP_WAIT]),
     (2 + 8 + 26, [Signal 1 False, Signal 2 False, Wait 2, Signal 1 False, Assert_SKIP_WAIT]),
     (2 + 8 + 27, [Signal 1 False, Signal 2 False, Signal 1 False, Wait 2, Assert_SKIP_WAIT]),
     (2 + 9 + 27, [Wait 2, Signal 1 False, Signal 1 False, Signal 2 True, Assert_SKIP_WAIT]),
     (2 + 9 + 28, [Signal 1 False, Wait 2, Signal 1 False, Signal 2 True, Assert_SKIP_WAIT]),
     (2 + 9 + 29, [Signal 1 False, Signal 1 False, Wait 2, Signal 2 True, Assert_SKIP_WAIT]),
     (2 + 9 + 30, [Signal 1 False, Signal 1 False, Signal 2 False, Wait 2, Assert_SKIP_WAIT])]"

definition tests_with_wait_2_running :: "(int \<times> test_step list) list" where
  "tests_with_wait_2_running =
    [(3 + 9 + 30, [Wait 2, Signal 2 True, Signal 1 False, Wait 1, Assert_RUNNING]),
     (3 + 9 + 31, [Signal 2 False, Wait 2, Signal 1 False, Wait 1, Assert_RUNNING]),
     (3 + 9 + 32, [Signal 2 False, Signal 1 False, Wait 3, Assert_RUNNING]),
     (3 + 9 + 33, []),
     (3 + 10 + 33, [Wait 2, Signal 1 False, Signal 2 True, Wait 1, Assert_RUNNING]),
     (3 + 10 + 34, [Signal 1 False, Wait 2, Signal 2 True, Wait 1, Assert_RUNNING]),
     (3 + 10 + 35, [Signal 1 False, Signal 2 False, Wait 3, Assert_RUNNING]),
     (3 + 10 + 36, []),
     (3 + 11 + 36, []),
     (3 + 11 + 37, [Signal 1 False, Wait 3, Signal 2 False, Assert_RUNNING]),
     (3 + 11 + 38, [Signal 1 False, Wait 1, Signal 2 False, Wait 2, Assert_RUNNING]),
     (3 + 11 + 39, [])]"

definition tests_with_wait_2_woken :: "(int \<times> test_step list) list" where
  "tests_with_wait_2_woken =
    [(4 + 11 + 39, [Wait 2, Signal 2 True, Wait 1, Signal 1 True, Assert_RUNNING]),
     (4 + 11 + 40, [Signal 2 False, Wait 3, Signal 1 False, Assert_SKIP_WAIT]),
     (4 + 11 + 41, [Signal 2 False, Wait 1, Signal 1 True, Wait 2, Assert_RUNNING]),
     (4 + 11 + 42, []),
     (4 + 12 + 42, [Wait 3, Signal 2 True, Signal 1 False, Assert_SKIP_WAIT]),
     (4 + 12 + 43, []),
     (4 + 12 + 44, [Wait 1, Signal 2 False, Signal 1 True, Wait 2, Assert_RUNNING]),
     (4 + 12 + 45, []),
     (4 + 13 + 45, [Wait 3, Signal 1 True, Signal 2 False, Assert_RUNNING]),
     (4 + 13 + 46, [Wait 1, Signal 1 True, Wait 2, Signal 2 True, Assert_RUNNING]),
     (4 + 13 + 47, [Wait 1, Signal 1 True, Signal 2 False, Wait 2, Assert_RUNNING]),
     (4 + 13 + 48, [])]"

definition test_cases :: "(int \<times> test_step list) list" where
  "test_cases = tests_without_signal_2 @ tests_with_signal_2 @ tests_with_wait_2_idle @ tests_with_wait_2_skip @
     tests_with_wait_2_skip_twice @ tests_with_wait_2_running @ tests_with_wait_2_woken"

text \<open>\<^verbatim>\<open>do_test\<close>: the \<^verbatim>\<open>default\<close> label is a failing assertion.\<close>

definition do_test :: "'s task_ops \<Rightarrow> int \<Rightarrow> 's \<Rightarrow> 's result" where
  "do_test T test t =
     (case map_of test_cases test of
        Some statements \<Rightarrow> test_statements T statements t
      | None \<Rightarrow> Inl Assertion_failed)"

section \<open>Running the tests\<close>

text \<open>
  The run states of the task: \<^verbatim>\<open>Test_start\<close> is the \<^verbatim>\<open>state_end\<close> of the base class, which is a
  parameter. \<^verbatim>\<open>initialize_impl\<close> selects the state, \<^verbatim>\<open>multiplex_impl\<close> runs it.
\<close>

definition Test_last :: "int \<Rightarrow> int" where
  "Test_last Test_start = Test_start + number_of_tests - 1"

definition Test_initialize_impl :: "int \<Rightarrow> int \<Rightarrow> int" where
  "Test_initialize_impl Test_start m_test = Test_start + m_test"

definition Test_state_str_impl :: "(int \<Rightarrow> string) \<Rightarrow> int \<Rightarrow> int \<Rightarrow> string" where
  "Test_state_str_impl base_state_str Test_start run_state =
     (if run_state \<ge> Test_start \<and> run_state < Test_start + number_of_tests
      then take 15 (''Test_'' @ show_int (run_state - Test_start))
      else base_state_str run_state)"

definition Test_multiplex_impl :: "'s task_ops \<Rightarrow> int \<Rightarrow> int \<Rightarrow> 's \<Rightarrow> 's result" where
  "Test_multiplex_impl T Test_start run_state t =
     bindE (assertE (Test_start \<le> run_state \<and> run_state \<le> Test_last Test_start)) (\<lambda>_.
     bindE (assertE (\<not> waiting_op T t)) (\<lambda>_.
     bindE (do_test T (run_state - Test_start) t) (\<lambda>t'. Inr (abort_op T t'))))"

text \<open>
  \<^verbatim>\<open>main\<close>: a new task per test; the engine runs it from the state that \<^verbatim>\<open>initialize_impl\<close> sets
  until it aborts.
\<close>

primrec wait_signal_main_loop :: "'s task_ops \<Rightarrow> int \<Rightarrow> 's \<Rightarrow> int list \<Rightarrow> unit result" where
  "wait_signal_main_loop T Test_start new [] = Inr ()"
| "wait_signal_main_loop T Test_start new (test # tests) =
     bindE (Test_multiplex_impl T Test_start (Test_initialize_impl Test_start test) new)
       (\<lambda>_. wait_signal_main_loop T Test_start new tests)"

definition wait_signal_main :: "'s task_ops \<Rightarrow> int \<Rightarrow> 's \<Rightarrow> unit result" where
  "wait_signal_main T Test_start new = wait_signal_main_loop T Test_start new (for_values 0 (number_of_tests - 1) 1)"

section \<open>What the test relies on\<close>

text \<open>
  The documented behaviour of \<^verbatim>\<open>wait\<close> and \<^verbatim>\<open>signal\<close>: a task has the conditions it waits for
  (\<^verbatim>\<open>idle\<close>) and the conditions whose next wait is skipped (\<^verbatim>\<open>skip\<close>). A wait on a condition that is
  not to be skipped makes the task idle, a wait on one that is consumes it; a signal for a
  condition that the task does not wait for is remembered, one for a condition it does wait for
  wakes it up and returns true. Nothing is said of a wait of a task that already waits, nor of a
  signal that is only partly waited for.
\<close>

definition wait_signal_contract ::
  "'s task_ops \<Rightarrow> ('s \<Rightarrow> condition_type) \<Rightarrow> ('s \<Rightarrow> condition_type) \<Rightarrow> bool"
where
  "wait_signal_contract T idle skip \<longleftrightarrow>
     (\<forall>t. waiting_op T t \<longleftrightarrow> idle t \<noteq> 0) \<and>
     (\<forall>t c. idle t = 0 \<and> skip t AND c = 0 \<longrightarrow> idle (wait_op T c t) = c \<and> skip (wait_op T c t) = skip t) \<and>
     (\<forall>t c. idle t = 0 \<and> skip t AND c \<noteq> 0 \<longrightarrow> idle (wait_op T c t) = 0 \<and> skip (wait_op T c t) = skip t AND NOT c) \<and>
     (\<forall>t c. idle t AND c = 0 \<longrightarrow>
        \<not> snd (signal_op T c t) \<and> idle (fst (signal_op T c t)) = idle t \<and> skip (fst (signal_op T c t)) = skip t OR c) \<and>
     (\<forall>t c. c \<noteq> 0 \<and> idle t AND c = c \<longrightarrow>
        snd (signal_op T c t) \<and> idle (fst (signal_op T c t)) = 0 \<and> skip (fst (signal_op T c t)) = skip t)"

text \<open>
  A statement on the pair of masks alone: \<^const>\<open>None\<close> where an assertion of the test fails or
  the contract says nothing.
\<close>

fun mask_wait :: "condition_type \<Rightarrow> condition_type \<times> condition_type \<Rightarrow> (condition_type \<times> condition_type) option" where
  "mask_wait c (i, k) =
     (if i \<noteq> 0 then None else if k AND c = 0 then Some (c, k) else Some (0, k AND NOT c))"

fun mask_statement :: "test_step \<Rightarrow> condition_type \<times> condition_type \<Rightarrow> (condition_type \<times> condition_type) option" where
  "mask_statement (Wait c) (i, k) = mask_wait c (i, k)"
| "mask_statement (Signal c expected) (i, k) =
     (if i AND c = 0 then (if expected then None else Some (i, k OR c))
      else if i AND c = c \<and> expected then Some (0, k) else None)"
| "mask_statement Assert_IDLE (i, k) = (if i \<noteq> 0 then Some (i, k) else None)"
| "mask_statement Assert_RUNNING (i, k) =
     (case mask_wait 1 (i, k) of Some (i', k') \<Rightarrow> if i' \<noteq> 0 then Some (i', k') else None | None \<Rightarrow> None)"
| "mask_statement Assert_SKIP_WAIT (i, k) =
     (case mask_wait 1 (i, k) of Some (i', k') \<Rightarrow> if i' = 0 then Some (i', k') else None | None \<Rightarrow> None)"

primrec mask_statements :: "test_step list \<Rightarrow> condition_type \<times> condition_type \<Rightarrow> (condition_type \<times> condition_type) option" where
  "mask_statements [] m = Some m"
| "mask_statements (st # sts) m = Option.bind (mask_statement st m) (mask_statements sts)"

text \<open>A task that is just its two masks; it shows that the contract can be met.\<close>

record mask_task =
  idle_mask :: condition_type
  skip_mask :: condition_type

definition mask_ops :: "mask_task task_ops" where
  "mask_ops = \<lparr>
     wait_op = (\<lambda>c t. if skip_mask t AND c = 0 then t\<lparr>idle_mask := c\<rparr> else t\<lparr>skip_mask := skip_mask t AND NOT c\<rparr>),
     signal_op = (\<lambda>c t. if idle_mask t AND c = 0 then (t\<lparr>skip_mask := skip_mask t OR c\<rparr>, False)
                        else (t\<lparr>idle_mask := 0\<rparr>, True)),
     waiting_op = (\<lambda>t. idle_mask t \<noteq> 0),
     abort_op = (\<lambda>t. t)\<rparr>"

section \<open>Lemmas\<close>

lemma contract_facts:
  assumes "wait_signal_contract T idle skip"
  shows contract_waiting: "waiting_op T t \<longleftrightarrow> idle t \<noteq> 0"
    and contract_wait: "idle t = 0 \<Longrightarrow> skip t AND c = 0 \<Longrightarrow> idle (wait_op T c t) = c \<and> skip (wait_op T c t) = skip t"
    and contract_skip: "idle t = 0 \<Longrightarrow> skip t AND c \<noteq> 0 \<Longrightarrow>
      idle (wait_op T c t) = 0 \<and> skip (wait_op T c t) = skip t AND NOT c"
    and contract_remember: "idle t AND c = 0 \<Longrightarrow> signal_op T c t = (t', res) \<Longrightarrow>
      \<not> res \<and> idle t' = idle t \<and> skip t' = skip t OR c"
    and contract_wake: "c \<noteq> 0 \<Longrightarrow> idle t AND c = c \<Longrightarrow> signal_op T c t = (t', res) \<Longrightarrow>
      res \<and> idle t' = 0 \<and> skip t' = skip t"
proof -
  note c = assms [unfolded wait_signal_contract_def]
  show "waiting_op T t \<longleftrightarrow> idle t \<noteq> 0" using c by blast
  show "idle t = 0 \<Longrightarrow> skip t AND c = 0 \<Longrightarrow> idle (wait_op T c t) = c \<and> skip (wait_op T c t) = skip t"
    using c by blast
  show "idle t = 0 \<Longrightarrow> skip t AND c \<noteq> 0 \<Longrightarrow> idle (wait_op T c t) = 0 \<and> skip (wait_op T c t) = skip t AND NOT c"
    using c by blast
  show "\<not> res \<and> idle t' = idle t \<and> skip t' = skip t OR c" if "idle t AND c = 0" "signal_op T c t = (t', res)"
    using c that(1) unfolding that(2) [THEN arg_cong, of fst, simplified, symmetric] that(2) [THEN arg_cong, of snd, simplified, symmetric]
    by blast
  show "res \<and> idle t' = 0 \<and> skip t' = skip t" if "c \<noteq> 0" "idle t AND c = c" "signal_op T c t = (t', res)"
    using c that(1,2) unfolding that(3) [THEN arg_cong, of fst, simplified, symmetric] that(3) [THEN arg_cong, of snd, simplified, symmetric]
    by blast
qed

lemma mask_wait_simulates:
  assumes "wait_signal_contract T idle skip" "mask_wait c (idle t, skip t) = Some m"
  shows "m = (idle (wait_op T c t), skip (wait_op T c t)) \<and> idle t = 0"
  using assms(2) contract_wait [OF assms(1), of t c] contract_skip [OF assms(1), of t c]
  by (auto split: if_splits)

lemma mask_statement_simulates:
  assumes contract: "wait_signal_contract T idle skip"
    and m: "mask_statement st (idle t, skip t) = Some m"
  shows "\<exists>t'. test_statement T st t = Inr t' \<and> m = (idle t', skip t')"
proof (cases st)
  case (Wait c)
  with mask_wait_simulates [OF contract, of c t] m show ?thesis by (simp del: mask_wait.simps)
next
  case (Signal c expected)
  obtain t' res where s: "signal_op T c t = (t', res)" by fastforce
  from Signal s m contract_remember [OF contract _ s] contract_wake [OF contract _ _ s] show ?thesis
    by (auto simp: Test_signal_def split: if_splits)
next
  case Assert_IDLE
  with m show ?thesis by (auto simp: assert_IDLE_def contract_waiting [OF contract] split: if_splits)
next
  case Assert_RUNNING
  with m mask_wait_simulates [OF contract, of 1 t] show ?thesis
    by (auto simp: assert_RUNNING_def contract_waiting [OF contract] Let_def
        simp del: mask_wait.simps split: option.splits if_splits)
next
  case Assert_SKIP_WAIT
  with m mask_wait_simulates [OF contract, of 1 t] show ?thesis
    by (auto simp: assert_SKIP_WAIT_def contract_waiting [OF contract] Let_def
        simp del: mask_wait.simps split: option.splits if_splits)
qed

lemma mask_statements_simulate:
  assumes contract: "wait_signal_contract T idle skip"
    and "mask_statements sts (idle t, skip t) = Some m"
  shows "\<exists>t'. test_statements T sts t = Inr t' \<and> m = (idle t', skip t')"
  using assms(2)
proof (induction sts arbitrary: t)
  case (Cons st sts)
  then obtain m' where m': "mask_statement st (idle t, skip t) = Some m'" "mask_statements sts m' = Some m"
    by (auto simp: Option.bind_eq_Some_conv)
  from mask_statement_simulates [OF contract m'(1)]
  obtain t' where "test_statement T st t = Inr t'" "m' = (idle t', skip t')" by blast
  with Cons.IH [of t'] m'(2) show ?case by auto
qed simp

lemmas test_case_groups = tests_without_signal_2_def tests_with_signal_2_def tests_with_wait_2_idle_def
  tests_with_wait_2_skip_def tests_with_wait_2_skip_twice_def tests_with_wait_2_running_def tests_with_wait_2_woken_def

lemma mask_scripts_pass: "(test, sts) \<in> set test_cases \<Longrightarrow> mask_statements sts (0, 0) \<noteq> None"
proof -
  have "list_all (\<lambda>(test, sts). mask_statements sts (0, 0) \<noteq> None) test_cases"
    unfolding test_cases_def list_all_append by (intro conjI) (simp_all add: test_case_groups)
  then show "(test, sts) \<in> set test_cases \<Longrightarrow> mask_statements sts (0, 0) \<noteq> None"
    by (auto simp: list_all_iff)
qed

lemma test_labels: "map fst test_cases = for_values 0 65 1"
  by code_simp

lemma do_test_passes:
  assumes contract: "wait_signal_contract T idle skip" and fresh: "idle t = 0" "skip t = 0"
    and test: "test \<in> set (for_values 0 65 1)"
  shows "\<exists>t'. do_test T test t = Inr t'"
proof -
  from test have "test \<in> fst ` set test_cases"
    by (simp add: test_labels [symmetric])
  then obtain sts where "map_of test_cases test = Some sts"
    by (metis map_of_eq_None_iff not_None_eq)
  moreover from this have "mask_statements sts (0, 0) \<noteq> None"
    by (rule mask_scripts_pass [OF map_of_SomeD])
  ultimately show ?thesis
    using mask_statements_simulate [OF contract, of sts t] fresh by (auto simp: do_test_def)
qed

lemma mask_ops_contract: "wait_signal_contract mask_ops idle_mask skip_mask"
  by (auto simp: wait_signal_contract_def mask_ops_def)

section \<open>Properties\<close>

text \<open>C6. For every task class that keeps the documented contract of \<^verbatim>\<open>wait\<close> and \<^verbatim>\<open>signal\<close>, the whole
  test program succeeds: \<^verbatim>\<open>main\<close> runs all 66 scripts, and no \<^verbatim>\<open>ASSERT\<close> of the scripts, of the
  helper functions or of \<^verbatim>\<open>multiplex_impl\<close> fails.\<close>

theorem all_wait_signal_tests_pass:
  assumes contract: "wait_signal_contract T idle skip" and fresh: "idle new = 0" "skip new = 0"
  shows "wait_signal_main T Test_start new = Inr ()"
proof -
  have "wait_signal_main_loop T Test_start new tests = Inr ()" if "set tests \<subseteq> set (for_values 0 65 1)" for tests
    using that
  proof (induction tests)
    case (Cons test tests)
    then have "test \<in> set (for_values 0 65 1)" by simp
    then have "\<exists>t'. do_test T test new = Inr t'" and "0 \<le> test \<and> test \<le> 65"
      using do_test_passes [OF contract fresh] set_for_values_subset by blast+
    moreover have "\<not> waiting_op T new" using contract fresh by (simp add: wait_signal_contract_def)
    ultimately show ?case
      using Cons by (auto simp: Test_multiplex_impl_def Test_initialize_impl_def Test_last_def number_of_tests_def)
  qed simp
  then show ?thesis by (simp add: wait_signal_main_def number_of_tests_def)
qed

theorem all_wait_signal_tests_pass_witness:
  "wait_signal_main mask_ops 20 \<lparr>idle_mask = 0, skip_mask = 0\<rparr> = Inr ()"
  by (rule all_wait_signal_tests_pass [OF mask_ops_contract]) simp_all

end
