(* ===== verification/RW_Spinlock.thy ===== *)
theory RW_Spinlock
  imports Prelude
begin

text \<open>
  The read-write spinlock model of \<^verbatim>\<open>src/rwspinlock_test.cxx\<close>: the four counters of the lock, which
  combinations are illegal or stable, the transitions with their follow-up, and the generation
  of the graph of all states.
\<close>

section \<open>Transitions\<close>

type_synonym Transition = int

abbreviation none :: Transition where "none \<equiv> 0"
abbreviation rdlock :: Transition where "rdlock \<equiv> 1"
abbreviation rdunlock :: Transition where "rdunlock \<equiv> 2"
abbreviation wrlock :: Transition where "wrlock \<equiv> 3"
abbreviation wrunlock :: Transition where "wrunlock \<equiv> 4"
abbreviation wr2rdlock :: Transition where "wr2rdlock \<equiv> 5"
abbreviation rd2wrlock :: Transition where "rd2wrlock \<equiv> 6"
abbreviation failed_rdlock :: Transition where "failed_rdlock \<equiv> 7"
abbreviation failed_wrlock :: Transition where "failed_wrlock \<equiv> 8"
abbreviation failed_rd2wrlock :: Transition where "failed_rd2wrlock \<equiv> 9"
abbreviation successful_rd2wrlock :: Transition where "successful_rd2wrlock \<equiv> 10"
abbreviation must_throw :: Transition where "must_throw \<equiv> 11"

definition initial_transitions :: "Transition list" where
  "initial_transitions = for_values 1 rd2wrlock 1"

definition is_blocking :: "Transition \<Rightarrow> bool" where
  "is_blocking fu \<longleftrightarrow> fu = failed_rdlock \<or> fu = failed_wrlock \<or> fu = failed_rd2wrlock"

section \<open>State\<close>

text \<open>\<^verbatim>\<open>struct State\<close>: the fields \<^verbatim>\<open>c\<close>, \<^verbatim>\<open>w\<close>, \<^verbatim>\<open>v\<close> and \<^verbatim>\<open>r\<close>.\<close>

record State =
  n_c :: int
  n_w :: int
  n_v :: int
  n_r :: int

definition unlocked :: State where
  "unlocked = \<lparr>n_c = 0, n_w = 0, n_v = 0, n_r = 0\<rparr>"

definition is_illegal :: "State \<Rightarrow> bool" where
  "is_illegal s \<longleftrightarrow> n_c s > n_r s \<or> n_c s > n_v s \<or> n_w s > n_v s"

definition is_stable :: "State \<Rightarrow> bool" where
  "is_stable s \<longleftrightarrow> \<not> (is_illegal s \<or> n_w s > 1 \<or> n_c s > 1 \<or> (n_w s = 1 \<and> n_r s > 0) \<or>
                    (n_v s > 0 \<and> (n_w s = 0 \<and> n_r s = n_c s)))"

definition follow_up :: "State \<Rightarrow> State \<Rightarrow> Transition" where
  "follow_up s previous =
     (if n_c s \<ge> 2 \<and> n_c s > n_c previous then must_throw
      else if n_r s > n_r previous \<and> n_v previous > 0
        then (if n_w s < n_w previous then none else failed_rdlock)
      else if n_v s > n_v previous \<and> (n_r previous > n_c s \<or> n_w previous > 0)
        then (if n_c s > n_c previous then failed_rd2wrlock else failed_wrlock)
      else (if n_c s > n_c previous then successful_rd2wrlock else none))"

definition print_State :: "bool \<Rightarrow> State \<Rightarrow> string" where
  "print_State print_literal s =
     (if print_literal then show_int (n_c s) @ show_int (n_w s) @ show_int (n_v s) @ show_int (n_r s)
      else (if n_c s = 0 then ''0'' else if n_c s = 1 then ''1'' else ''c'') @
           (if n_w s = 0 then ''0'' else if n_w s = 1 then ''1'' else ''w'') @
           (if n_v s = 0 then ''0'' else if n_v s = n_c s then show_int (n_v s) else ''v'') @
           (if n_r s = 0 then ''0'' else if n_r s = n_c s then show_int (n_r s) else ''r''))"

text \<open>
  \<^verbatim>\<open>apply\<close>: the boolean it returns and the state it leaves; the failing assertion and the
  \<^verbatim>\<open>DoutFatal\<close> of an illegal state are faults.
\<close>

definition apply_switch :: "Transition \<Rightarrow> State \<Rightarrow> State option" where
  "apply_switch t s =
     (if t = rdlock then Some (s\<lparr>n_r := n_r s + 1\<rparr>)
      else if t = rdunlock then (if n_r s = 0 then None else Some (s\<lparr>n_r := n_r s - 1\<rparr>))
      else if t = wrlock then Some (s\<lparr>n_w := n_w s + 1, n_v := n_v s + 1\<rparr>)
      else if t = wrunlock then (if n_w s = 0 then None else Some (s\<lparr>n_w := n_w s - 1, n_v := n_v s - 1\<rparr>))
      else if t = wr2rdlock then
        (if n_w s = 0 then None else Some (s\<lparr>n_w := n_w s - 1, n_v := n_v s - 1, n_r := n_r s + 1\<rparr>))
      else if t = rd2wrlock then (if n_r s = 0 then None else Some (s\<lparr>n_c := n_c s + 1, n_v := n_v s + 1\<rparr>))
      else if t = failed_rdlock then Some (s\<lparr>n_r := n_r s - 1\<rparr>)
      else if t = failed_wrlock then Some (s\<lparr>n_w := n_w s - 1\<rparr>)
      else if t = failed_rd2wrlock then Some s
      else if t = successful_rd2wrlock then Some (s\<lparr>n_w := n_w s + 1, n_c := n_c s - 1, n_r := n_r s - 1\<rparr>)
      else if t = must_throw then None
      else Some s)"

definition apply_transition :: "Transition \<Rightarrow> State \<Rightarrow> State option result" where
  "apply_transition t s =
     bindE (assertE (\<not> is_illegal s)) (\<lambda>_.
       case apply_switch t s of
         None \<Rightarrow> Inr None
       | Some s' \<Rightarrow> if is_illegal s' then Inl Fatal else Inr (Some s'))"

definition transition_name :: "Transition \<Rightarrow> string result" where
  "transition_name t =
     (if t = none then Inr ''none'' else if t = rdlock then Inr ''rdlock''
      else if t = rdunlock then Inr ''rdunlock'' else if t = wrlock then Inr ''wrlock''
      else if t = wrunlock then Inr ''wrunlock'' else if t = wr2rdlock then Inr ''wr2rdlock''
      else if t = rd2wrlock then Inr ''rd2wrlock'' else if t = failed_rdlock then Inr ''failed_rdlock''
      else if t = failed_wrlock then Inr ''failed_wrlock''
      else if t = successful_rd2wrlock then Inr ''successful_rd2wrlock''
      else if t = failed_rd2wrlock then Inr ''failed_rd2wrlock'' else if t = must_throw then Inr ''must_throw''
      else Inl Assertion_failed)"

section \<open>The graph\<close>

text \<open>
  Nodes live in two deques; a \<^verbatim>\<open>Node*\<close> is the deque and the index. The array \<^verbatim>\<open>transitions\<close> is not
  initialised, an unset entry is \<^const>\<open>None\<close>.
\<close>

datatype Node_ptr = Stable nat | Unstable nat

record Node =
  node_state :: State
  transitions :: "Transition \<Rightarrow> Node_ptr option"

definition new_Node :: "State \<Rightarrow> Node" where
  "new_Node s = \<lparr>node_state = s, transitions = (\<lambda>_. None)\<rparr>"

record Nodes =
  stable_nodes :: "Node list"
  unstable_nodes :: "Node list"

primrec index_of :: "State \<Rightarrow> Node list \<Rightarrow> nat option" where
  "index_of s [] = None"
| "index_of s (n # ns) = (if node_state n = s then Some 0 else map_option Suc (index_of s ns))"

definition find_node :: "State \<Rightarrow> Nodes \<Rightarrow> (Nodes \<times> Node_ptr) result" where
  "find_node s g =
     bindE (assertE (\<not> is_illegal s)) (\<lambda>_. Inr
       (case index_of s (stable_nodes g) of
          Some i \<Rightarrow> (g, Stable i)
        | None \<Rightarrow>
          (case index_of s (unstable_nodes g) of
             Some i \<Rightarrow> (g, Unstable i)
           | None \<Rightarrow>
               if is_stable s
               then (g\<lparr>stable_nodes := stable_nodes g @ [new_Node s]\<rparr>, Stable (length (stable_nodes g)))
               else (g\<lparr>unstable_nodes := unstable_nodes g @ [new_Node s]\<rparr>, Unstable (length (unstable_nodes g))))))"

fun set_transition :: "Node_ptr \<Rightarrow> Transition \<Rightarrow> Node_ptr \<Rightarrow> Nodes \<Rightarrow> Nodes" where
  "set_transition (Stable i) t q g =
     g\<lparr>stable_nodes := (stable_nodes g)[i := (stable_nodes g ! i)
         \<lparr>transitions := (transitions (stable_nodes g ! i))(t := Some q)\<rparr>]\<rparr>"
| "set_transition (Unstable i) t q g =
     g\<lparr>unstable_nodes := (unstable_nodes g)[i := (unstable_nodes g ! i)
         \<lparr>transitions := (transitions (unstable_nodes g ! i))(t := Some q)\<rparr>]\<rparr>"

text \<open>The first loop of \<^verbatim>\<open>main\<close>: all small states, and what it prints for them.\<close>

definition small_states :: "State list" where
  "small_states =
     concat (map (\<lambda>c. concat (map (\<lambda>w. concat (map (\<lambda>v. map (\<lambda>r. \<lparr>n_c = c, n_w = w, n_v = v, n_r = r\<rparr>)
       (for_values 0 (c + 1) 1)) (for_values 0 (c + 1) 1))) (for_values 0 2 1))) (for_values 0 2 1))"

definition generate_node :: "State \<Rightarrow> Nodes \<times> string \<Rightarrow> Nodes \<times> string" where
  "generate_node s = (\<lambda>(g, out).
     if is_illegal s then (g, out)
     else if is_stable s
       then (g\<lparr>stable_nodes := stable_nodes g @ [new_Node s]\<rparr>, out @ print_State False s @ '' : stable'' @ [CHR 0x0A])
     else (g\<lparr>unstable_nodes := unstable_nodes g @ [new_Node s]\<rparr>, out @ print_State False s @ [CHR 0x0A]))"

definition generate_nodes :: "Nodes \<times> string" where
  "generate_nodes = fold generate_node small_states (\<lparr>stable_nodes = [], unstable_nodes = []\<rparr>, [])"

text \<open>The body of the second loop for one node and one transition.\<close>

definition pad9 :: "string \<Rightarrow> string" where
  "pad9 n = replicate (9 - length n) (CHR ''-'') @ n"

definition apply_follow_up :: "Node_ptr \<Rightarrow> Transition \<Rightarrow> State \<Rightarrow> Nodes \<times> string \<Rightarrow> (State \<times> Nodes \<times> string) result" where
  "apply_follow_up q fu s = (\<lambda>(g, out).
     bindE (apply_transition fu s) (\<lambda>success.
       case success of
         None \<Rightarrow> Inl Assertion_failed
       | Some s' \<Rightarrow>
           bindE (transition_name fu) (\<lambda>name.
           bindE (find_node s' g) (\<lambda>(g', q').
             Inr (s', set_transition q fu q' g', out @ '' -'' @ pad9 name @ ''-> '' @ print_State True s')))))"

definition apply_initial :: "nat \<Rightarrow> Transition \<Rightarrow> Nodes \<times> string \<Rightarrow> (Nodes \<times> string) result" where
  "apply_initial i t = (\<lambda>(g, out).
     let s0 = node_state (stable_nodes g ! i) in
     bindE (apply_transition t s0) (\<lambda>applied.
       case applied of
         None \<Rightarrow> Inr (g, out)
       | Some s \<Rightarrow>
           bindE (find_node s g) (\<lambda>(g1, q).
           bindE (transition_name t) (\<lambda>name.
             let g2 = set_transition (Stable i) t q g1;
                 out2 = out @ print_State True s0 @ '' -'' @ pad9 name @ ''-> '' @ print_State True s;
                 fu = follow_up s s0 in
             if fu = must_throw then Inr (g2, out2 @ '' (must throw)'' @ [CHR 0x0A])
             else
               bindE (if fu \<noteq> none then apply_follow_up q fu s (g2, out2) else Inr (s, g2, out2))
                 (\<lambda>(s', g3, out3).
                   Inr (g3, out3 @ (if is_blocking fu then '' (blocking)'' else '''') @
                            (if \<not> is_stable s' then '' UNSTABLE'' else '''') @ [CHR 0x0A]))))))"

primrec apply_initials :: "nat \<Rightarrow> Transition list \<Rightarrow> Nodes \<times> string \<Rightarrow> (Nodes \<times> string) result" where
  "apply_initials i [] st = Inr st"
| "apply_initials i (t # ts) st = bindE (apply_initial i t st) (apply_initials i ts)"

text \<open>
  The loop over \<^verbatim>\<open>stable_nodes\<close>, which the body extends, with a bound on the number of nodes
  visited: \<^const>\<open>None\<close> when the loop is not done by then.
\<close>

primrec visit_nodes :: "nat \<Rightarrow> nat \<Rightarrow> Nodes \<times> string \<Rightarrow> (Nodes \<times> string) option result" where
  "visit_nodes 0 i st = (if i < length (stable_nodes (fst st)) then Inr None else Inr (Some st))"
| "visit_nodes (Suc fuel) i st =
     (if i < length (stable_nodes (fst st))
      then bindE (apply_initials i initial_transitions st) (visit_nodes fuel (Suc i))
      else Inr (Some st))"

definition rwspinlock_main :: "nat \<Rightarrow> (Nodes \<times> string) option result" where
  "rwspinlock_main fuel = visit_nodes fuel 0 generate_nodes"

section \<open>Specification\<close>

definition nonneg :: "State \<Rightarrow> bool" where
  "nonneg s \<longleftrightarrow> 0 \<le> n_c s \<and> 0 \<le> n_w s \<and> 0 \<le> n_v s \<and> 0 \<le> n_r s"

text \<open>Mutual exclusion: at most one writer, no reader beside a writer, at most one thread that
  converts its read lock.\<close>

definition exclusive :: "State \<Rightarrow> bool" where
  "exclusive s \<longleftrightarrow> n_w s \<le> 1 \<and> n_c s \<le> 1 \<and> (n_w s = 1 \<longrightarrow> n_r s = 0)"

text \<open>A state in which threads wait for a write lock that nobody keeps from them.\<close>

definition must_wake_writer :: "State \<Rightarrow> bool" where
  "must_wake_writer s \<longleftrightarrow> n_v s > 0 \<and> n_w s = 0 \<and> n_r s = n_c s"

text \<open>One operation with its follow-up, as the second loop of \<^verbatim>\<open>main\<close> runs it.\<close>

definition operation :: "Transition \<Rightarrow> State \<Rightarrow> State option result" where
  "operation t s =
     bindE (apply_transition t s) (\<lambda>a.
       case a of None \<Rightarrow> Inr None
       | Some s1 \<Rightarrow>
           let fu = follow_up s1 s in
           if fu = must_throw then Inr None
           else if fu = none then Inr (Some s1)
           else apply_transition fu s1)"

text \<open>The lock under operations that arrive in stable states, as \<^verbatim>\<open>main\<close> explores it.\<close>

inductive lock_step :: "State \<Rightarrow> State \<Rightarrow> bool" where
  lock_stepI: "is_stable s \<Longrightarrow> t \<in> {1..6} \<Longrightarrow> operation t s = Inr (Some s') \<Longrightarrow> lock_step s s'"

inductive_cases lock_stepE: "lock_step s s'"

definition lock_safe :: "State \<Rightarrow> bool" where
  "lock_safe s \<longleftrightarrow> nonneg s \<and> \<not> is_illegal s \<and> exclusive s"

text \<open>The states of the two deques, and what the loop over the stable nodes has done after \<^verbatim>\<open>i\<close> of them.\<close>

definition sstates :: "Nodes \<Rightarrow> State list" where
  "sstates g = map node_state (stable_nodes g)"

definition ustates :: "Nodes \<Rightarrow> State list" where
  "ustates g = map node_state (unstable_nodes g)"

definition wf_nodes :: "Nodes \<Rightarrow> bool" where
  "wf_nodes g \<longleftrightarrow> (\<forall>s \<in> set (sstates g). nonneg s \<and> is_stable s) \<and> (\<forall>s \<in> set (ustates g). \<not> is_stable s)"

definition readers :: "int \<Rightarrow> State" where
  "readers k = \<lparr>n_c = 0, n_w = 0, n_v = 0, n_r = k\<rparr>"

definition visited :: "nat \<Rightarrow> Nodes \<Rightarrow> bool" where
  "visited i g \<longleftrightarrow> (\<forall>j k. j < i \<and> 0 \<le> k \<and> sstates g ! j = readers k \<longrightarrow> readers (k + 1) \<in> set (sstates g))"

section \<open>Lemmas\<close>

lemma initial_transition_cases:
  "t \<in> {1..6} \<Longrightarrow> t = rdlock \<or> t = rdunlock \<or> t = wrlock \<or> t = wrunlock \<or> t = wr2rdlock \<or> t = rd2wrlock" for t :: int
  by simp linarith

lemmas lock_defs = is_illegal_def is_stable_def follow_up_def nonneg_def exclusive_def must_wake_writer_def

lemma stable_safe: "nonneg s \<Longrightarrow> is_stable s \<Longrightarrow> lock_safe s"
  by (cases s) (auto simp: lock_safe_def lock_defs)

text \<open>The effect of each operation on a stable lock, its follow-up included.\<close>

lemma operation_rdlock:
  assumes "nonneg s" "is_stable s"
  shows "operation rdlock s = Inr (Some (if n_v s > 0 then s else s\<lparr>n_r := n_r s + 1\<rparr>))"
  using assms by (cases s) (auto simp: operation_def apply_transition_def apply_switch_def lock_defs Let_def)

lemma operation_rdunlock:
  assumes "nonneg s" "is_stable s"
  shows "operation rdunlock s = Inr (if n_r s = 0 then None else Some (s\<lparr>n_r := n_r s - 1\<rparr>))"
  using assms by (cases s) (auto simp: operation_def apply_transition_def apply_switch_def lock_defs Let_def)

lemma operation_wrlock:
  assumes "nonneg s" "is_stable s"
  shows "operation wrlock s = Inr (Some (if n_r s > 0 \<or> n_w s > 0 then s\<lparr>n_v := n_v s + 1\<rparr>
                                         else s\<lparr>n_w := 1, n_v := n_v s + 1\<rparr>))"
  using assms by (cases s) (auto simp: operation_def apply_transition_def apply_switch_def lock_defs Let_def)

lemma operation_wrunlock:
  assumes "nonneg s" "is_stable s"
  shows "operation wrunlock s = Inr (if n_w s = 0 then None else Some (s\<lparr>n_w := 0, n_v := n_v s - 1\<rparr>))"
  using assms by (cases s) (auto simp: operation_def apply_transition_def apply_switch_def lock_defs Let_def)

lemma operation_wr2rdlock:
  assumes "nonneg s" "is_stable s"
  shows "operation wr2rdlock s =
    Inr (if n_w s = 0 then None else Some (s\<lparr>n_w := 0, n_v := n_v s - 1, n_r := 1\<rparr>))"
  using assms by (cases s) (auto simp: operation_def apply_transition_def apply_switch_def lock_defs Let_def)

lemma operation_rd2wrlock:
  assumes "nonneg s" "is_stable s"
  shows "operation rd2wrlock s =
    Inr (if n_r s = 0 \<or> n_c s = 1 then None
         else if n_r s > 1 then Some (s\<lparr>n_c := 1, n_v := n_v s + 1\<rparr>)
         else Some (s\<lparr>n_w := 1, n_v := n_v s + 1, n_r := 0\<rparr>))"
  using assms by (cases s) (auto simp: operation_def apply_transition_def apply_switch_def lock_defs Let_def)

lemmas operations = operation_rdlock operation_rdunlock operation_wrlock operation_wrunlock
  operation_wr2rdlock operation_rd2wrlock

lemma operation_safe:
  assumes "nonneg s" "is_stable s" "t \<in> {1..6}" "operation t s = Inr (Some s')"
  shows "lock_safe s'" and "is_stable s' \<or> must_wake_writer s' \<and> t \<in> {rdunlock, wrunlock}"
  using initial_transition_cases [OF assms(3)] assms(1,2,4)
  by (elim disjE; cases s; auto simp: operations lock_safe_def lock_defs split: if_splits)+

lemma operation_total:
  assumes "nonneg s" "is_stable s" "t \<in> {1..6}"
  shows "\<exists>r. operation t s = Inr r"
  using initial_transition_cases [OF assms(3)] assms(1,2)
  by (elim disjE) (simp_all only: operations sum.inject ex_simps simp_thms)

lemma transition_legal: "apply_transition t s = Inr (Some s1) \<Longrightarrow> apply_switch t s = Some s1 \<and> \<not> is_illegal s1"
  by (auto simp: apply_transition_def bindE_eq_Inr split: option.splits if_splits)

lemma switch_nonneg:
  assumes "nonneg s" "is_stable s" "t \<in> {1..6}" "apply_switch t s = Some s1"
  shows "nonneg s1"
  using initial_transition_cases [OF assms(3)] assms(1,2,4)
  by (elim disjE; cases s; auto simp: apply_switch_def lock_defs split: if_splits)

lemma follow_up_cases:
  "follow_up s p \<in> {none, failed_rdlock, failed_wrlock, failed_rd2wrlock, successful_rd2wrlock, must_throw}"
  by (simp add: follow_up_def)

lemma follow_up_effect:
  assumes s: "nonneg s" "is_stable s" "t \<in> {1..6}" and s1: "apply_transition t s = Inr (Some s1)"
    and fu: "follow_up s1 s \<noteq> must_throw" "follow_up s1 s \<noteq> none"
  shows "\<exists>s2. apply_transition (follow_up s1 s) s1 = Inr (Some s2) \<and> nonneg s2 \<and> \<not> is_illegal s2"
proof -
  have op: "operation t s = apply_transition (follow_up s1 s) s1"
    using s1 fu by (simp add: operation_def Let_def)
  obtain r where r: "operation t s = Inr r" using operation_total [OF s] by blast
  have "apply_switch (follow_up s1 s) s1 \<noteq> None"
    using follow_up_cases [of s1 s] fu by (auto simp: apply_switch_def)
  then obtain s2 where "r = Some s2"
    using r unfolding op by (cases r) (auto simp: apply_transition_def bindE_eq_Inr split: option.splits if_splits)
  with operation_safe(1) [OF s] r op show ?thesis by (auto simp: lock_safe_def)
qed

lemma transition_total:
  assumes "nonneg s" "is_stable s" "t \<in> {1..6}"
  shows "\<exists>a. apply_transition t s = Inr a"
  using operation_total [OF assms] by (auto simp: operation_def bindE_eq_Inr)

lemma transition_name_total:
  "t \<in> {1..6} \<Longrightarrow> \<exists>n. transition_name t = Inr n" "\<exists>n. transition_name (follow_up s p) = Inr n"
  using initial_transition_cases follow_up_cases [of s p] by (auto simp: transition_name_def)

lemma index_of_None: "index_of s ns = None \<longleftrightarrow> s \<notin> node_state ` set ns"
  by (induction ns) auto

lemma map_update_same: "i < length ns \<Longrightarrow> f x = f (ns ! i) \<Longrightarrow> map f (ns[i := x]) = map f ns"
  by (metis list_update_id map_update nth_map)

lemma set_transition_states [simp]:
  "sstates (set_transition q t q' g) = sstates g" "ustates (set_transition q t q' g) = ustates g"
proof -
  have *: "map node_state (ns[i := (ns ! i)\<lparr>transitions := f\<rparr>]) = map node_state ns" for ns i f
    by (cases "i < length ns") (simp_all add: map_update_same list_update_beyond)
  show "sstates (set_transition q t q' g) = sstates g" "ustates (set_transition q t q' g) = ustates g"
    by (cases q; simp add: sstates_def ustates_def *)+
qed

declare set_transition.simps [simp del]

lemma wf_nodes_set_transition [simp]: "wf_nodes (set_transition q t q' g) = wf_nodes g"
  by (simp add: wf_nodes_def)

lemma find_node_ok:
  assumes "wf_nodes g" "nonneg s" "\<not> is_illegal s"
  shows "\<exists>g' q. find_node s g = Inr (g', q) \<and> wf_nodes g' \<and> (\<exists>xs. sstates g' = sstates g @ xs) \<and>
    (is_stable s \<longrightarrow> s \<in> set (sstates g'))"
  using assms index_of_None [of s "stable_nodes g"] index_of_None [of s "unstable_nodes g"]
  by (auto simp: find_node_def wf_nodes_def sstates_def ustates_def new_Node_def split: option.splits)

lemma apply_follow_up_ok:
  assumes "wf_nodes g" and fu: "fu = follow_up s p"
    and "apply_transition fu s = Inr (Some s2)" "nonneg s2" "\<not> is_illegal s2"
  shows "\<exists>s' g' out'. apply_follow_up q fu s (g, out) = Inr (s', g', out') \<and> wf_nodes g' \<and>
    (\<exists>xs. sstates g' = sstates g @ xs)"
proof -
  obtain n where "transition_name fu = Inr n" using transition_name_total(2) fu by blast
  moreover obtain g' q' where "find_node s2 g = Inr (g', q')" "wf_nodes g'" "\<exists>xs. sstates g' = sstates g @ xs"
    using find_node_ok [OF assms(1,4,5)] by blast
  ultimately show ?thesis using assms(3) by (simp add: apply_follow_up_def)
qed

lemma apply_initial_ok:
  assumes wf: "wf_nodes g" and i: "i < length (sstates g)" and t: "t \<in> {1..6}"
  shows "\<exists>g' out'. apply_initial i t (g, out) = Inr (g', out') \<and> wf_nodes g' \<and>
    (\<exists>xs. sstates g' = sstates g @ xs) \<and>
    (\<forall>k. t = rdlock \<and> 0 \<le> k \<and> sstates g ! i = readers k \<longrightarrow> readers (k + 1) \<in> set (sstates g'))"
proof -
  let ?s = "node_state (stable_nodes g ! i)"
  have s: "sstates g ! i = ?s" "nonneg ?s" "is_stable ?s"
    using i wf by (auto simp: sstates_def wf_nodes_def)
  obtain a where a: "apply_transition t ?s = Inr a" using transition_total [OF s(2,3) t] by blast
  have rd: "apply_switch rdlock (readers k) = Some (readers (k + 1))" for k
    by (simp add: apply_switch_def readers_def)
  have rd_stable: "0 \<le> k \<Longrightarrow> is_stable (readers (k + 1))" for k
    by (simp add: is_stable_def is_illegal_def readers_def)
  show ?thesis
  proof (cases a)
    case None
    moreover have "\<not> (t = rdlock \<and> 0 \<le> k \<and> ?s = readers k)" for k
      using a None rd_stable rd by (auto simp: apply_transition_def bindE_eq_Inr is_stable_def split: if_splits)
    ultimately show ?thesis using a s wf by (auto simp: apply_initial_def Let_def)
  next
    case (Some s1)
    note s1 = a [unfolded Some]
    have n1: "nonneg s1" "\<not> is_illegal s1"
      using transition_legal [OF s1] switch_nonneg [OF s(2,3) t] by auto
    obtain g1 q where g1: "find_node s1 g = Inr (g1, q)" "wf_nodes g1" "\<exists>xs. sstates g1 = sstates g @ xs"
      "is_stable s1 \<longrightarrow> s1 \<in> set (sstates g1)"
      using find_node_ok [OF wf n1] by blast
    obtain n where n: "transition_name t = Inr n" using transition_name_total(1) [OF t] by blast
    let ?g2 = "set_transition (Stable i) t q g1"
    have target: "readers (k + 1) \<in> set (sstates g1)" if "t = rdlock" "0 \<le> k" "?s = readers k" for k
      using transition_legal [OF s1] g1(4) rd [of k] rd_stable that by auto
    show ?thesis
    proof (cases "follow_up s1 ?s = must_throw \<or> follow_up s1 ?s = none")
      case True
      then show ?thesis
        using s1 g1 n target s(1) by (auto simp: apply_initial_def Let_def)
    next
      case False
      then obtain s2 where s2: "apply_transition (follow_up s1 ?s) s1 = Inr (Some s2)" "nonneg s2" "\<not> is_illegal s2"
        using follow_up_effect [OF s(2,3) t s1] by blast
      from apply_follow_up_ok [OF _ refl s2, of ?g2] g1(2)
      obtain s' g3 out3 where "apply_follow_up q (follow_up s1 ?s) s1
          (?g2, out @ print_State True ?s @ '' -'' @ pad9 n @ ''-> '' @ print_State True s1) = Inr (s', g3, out3)"
        "wf_nodes g3" "\<exists>xs. sstates g3 = sstates ?g2 @ xs"
        by (metis wf_nodes_set_transition)
      with False s1 g1(1,3) n s(1) target show ?thesis by (fastforce simp: apply_initial_def Let_def)
    qed
  qed
qed

lemma apply_initials_ok:
  assumes "wf_nodes g" "i < length (sstates g)" "set ts \<subseteq> {1..6}"
  shows "\<exists>g' out'. apply_initials i ts (g, out) = Inr (g', out') \<and> wf_nodes g' \<and>
    (\<exists>xs. sstates g' = sstates g @ xs) \<and>
    (\<forall>k. rdlock \<in> set ts \<and> 0 \<le> k \<and> sstates g ! i = readers k \<longrightarrow> readers (k + 1) \<in> set (sstates g'))"
  using assms
proof (induction ts arbitrary: g out)
  case (Cons t ts)
  from Cons.prems obtain g1 out1 xs where 1: "apply_initial i t (g, out) = Inr (g1, out1)" "wf_nodes g1"
    "sstates g1 = sstates g @ xs"
    "\<forall>k. t = rdlock \<and> 0 \<le> k \<and> sstates g ! i = readers k \<longrightarrow> readers (k + 1) \<in> set (sstates g1)"
    using apply_initial_ok [of g i t out] by auto
  then have len: "i < length (sstates g1)" "sstates g1 ! i = sstates g ! i"
    using Cons.prems(2) by (auto simp: nth_append)
  from Cons.IH [OF 1(2) len(1), of out1] Cons.prems(3) obtain g2 out2 where
    2: "apply_initials i ts (g1, out1) = Inr (g2, out2)" "wf_nodes g2" "\<exists>xs. sstates g2 = sstates g1 @ xs"
    "\<forall>k. rdlock \<in> set ts \<and> 0 \<le> k \<and> sstates g1 ! i = readers k \<longrightarrow> readers (k + 1) \<in> set (sstates g2)"
    by auto
  from 1 2 len show ?case by auto
qed (auto intro: exI [of _ "[]"])

lemma readers_inj: "readers j = readers k \<longleftrightarrow> j = k"
  by (simp add: readers_def)

lemma visited_not_all:
  assumes "visited i g" "readers 0 \<in> set (sstates g)"
  shows "i < length (sstates g)"
proof (rule ccontr)
  assume "\<not> i < length (sstates g)"
  then have step: "readers (k + 1) \<in> set (sstates g)" if "readers k \<in> set (sstates g)" "0 \<le> k" for k
    using assms(1) that unfolding visited_def by (metis in_set_conv_nth linorder_not_less order_less_le_trans)
  have "readers (int n) \<in> set (sstates g)" for n
  proof (induction n)
    case (Suc n)
    from step [OF Suc] show ?case by (simp add: add.commute)
  qed (use assms(2) in simp)
  then have "range (\<lambda>n. readers (int n)) \<subseteq> set (sstates g)" by blast
  then have "finite (range (\<lambda>n. readers (int n)))" by (rule finite_subset) simp
  moreover have "inj (\<lambda>n. readers (int n))" by (rule injI) (simp add: readers_inj)
  ultimately show False using finite_imageD by blast
qed

lemma initial_transitions_set: "set initial_transitions \<subseteq> {1..6}" "rdlock \<in> set initial_transitions"
  using set_for_values_subset by (auto simp: initial_transitions_def for_values_Cons)

lemma visit_nodes_continues:
  assumes "wf_nodes g" "visited i g" "readers 0 \<in> set (sstates g)"
  shows "visit_nodes fuel i (g, out) = Inr None"
  using assms
proof (induction fuel arbitrary: i g out)
  case 0
  with visited_not_all [OF 0(2,3)] show ?case by (simp add: sstates_def)
next
  case (Suc fuel)
  have i: "i < length (sstates g)" by (rule visited_not_all [OF Suc.prems(2,3)])
  obtain g' out' xs where g': "apply_initials i initial_transitions (g, out) = Inr (g', out')" "wf_nodes g'"
    "sstates g' = sstates g @ xs"
    "\<forall>k. 0 \<le> k \<and> sstates g ! i = readers k \<longrightarrow> readers (k + 1) \<in> set (sstates g')"
    using apply_initials_ok [OF Suc.prems(1) i initial_transitions_set(1)] initial_transitions_set(2) by metis
  have "visited (Suc i) g'"
    using Suc.prems(2) g'(3,4) i by (auto simp: visited_def less_Suc_eq nth_append)
  then have "visit_nodes fuel (Suc i) (g', out') = Inr None"
    using Suc.prems(3) g'(2,3) by (intro Suc.IH) auto
  with g'(1) i show ?case by (simp add: sstates_def)
qed

lemma generate_nodes_ok: "wf_nodes (fst generate_nodes) \<and> readers 0 \<in> set (sstates (fst generate_nodes))"
  by code_simp

interpretation rw: inductive_invariant "\<lambda>s. s = unlocked" lock_step lock_safe
proof
  show "lock_safe s" if "s = unlocked" for s
    using that by (simp add: unlocked_def lock_safe_def lock_defs)
  show "lock_safe s'" if "lock_safe s" "lock_step s s'" for s s'
    using that by (auto simp: lock_safe_def [of s] elim!: lock_stepE intro: operation_safe(1))
qed

section \<open>Properties\<close>

text \<open>C7. Every operation on a stable lock, with the follow-up that the source prescribes, is well
  defined: no assertion fails and no illegal state occurs. It is refused exactly when the caller
  does not hold the lock it gives up or converts, or when a second thread wants to convert its
  read lock (the dead-lock that must throw). Otherwise there is at most one writer and no reader
  beside it, and the lock is stable again, or it was an unlock after which a waiting writer has to
  be woken.\<close>

theorem stable_operations_safe:
  assumes "nonneg s" "is_stable s" "t \<in> {1..6}"
  shows "\<exists>r. operation t s = Inr r \<and>
    (r = None \<longleftrightarrow> t \<in> {rdunlock, rd2wrlock} \<and> n_r s = 0 \<or> t \<in> {wrunlock, wr2rdlock} \<and> n_w s = 0 \<or> t = rd2wrlock \<and> n_c s = 1) \<and>
    (\<forall>s'. r = Some s' \<longrightarrow> exclusive s' \<and> \<not> is_illegal s' \<and>
       (is_stable s' \<or> must_wake_writer s' \<and> t \<in> {rdunlock, wrunlock}))"
proof -
  obtain r where r: "operation t s = Inr r" using operation_total [OF assms] by blast
  have "r = None \<longleftrightarrow> t \<in> {rdunlock, rd2wrlock} \<and> n_r s = 0 \<or> t \<in> {wrunlock, wr2rdlock} \<and> n_w s = 0 \<or> t = rd2wrlock \<and> n_c s = 1"
    using initial_transition_cases [OF assms(3)] r by (elim disjE) (auto simp: operations [OF assms(1,2)] split: if_splits)
  with r operation_safe [OF assms] show ?thesis by (auto simp: lock_safe_def)
qed

theorem stable_operations_safe_witness:
  "\<exists>r. operation rd2wrlock (readers 2) = Inr r \<and>
    (r = None \<longleftrightarrow> n_r (readers 2) = 0 \<or> n_c (readers 2) = 1) \<and>
    (\<forall>s'. r = Some s' \<longrightarrow> exclusive s' \<and> \<not> is_illegal s' \<and> is_stable s')"
proof -
  have "nonneg (readers 2)" "is_stable (readers 2)" "rd2wrlock \<in> {1..6 :: int}"
    by (simp_all add: readers_def nonneg_def is_stable_def is_illegal_def)
  from stable_operations_safe [OF this] show ?thesis by auto
qed



text \<open>The guarantee does not extend to the unstable state in which the last other reader has
  left and the converting thread has not yet been woken: a write lock that arrives there needs no
  follow-up, and a writer runs beside the read lock of the converting thread.\<close>

theorem wrlock_overtakes_conversion:
  "operation rdunlock \<lparr>n_c = 1, n_w = 0, n_v = 1, n_r = 2\<rparr> = Inr (Some \<lparr>n_c = 1, n_w = 0, n_v = 1, n_r = 1\<rparr>) \<and>
   operation wrlock \<lparr>n_c = 1, n_w = 0, n_v = 1, n_r = 1\<rparr> = Inr (Some \<lparr>n_c = 1, n_w = 1, n_v = 2, n_r = 1\<rparr>) \<and>
   \<not> exclusive \<lparr>n_c = 1, n_w = 1, n_v = 2, n_r = 1\<rparr>"
  by code_simp


end
