(* ===== verification/Fibonacci.thy ===== *)
theory Fibonacci
  imports Prelude
begin

text \<open>
  Two programs that compute Fibonacci numbers: \<^verbatim>\<open>src/fiboquick.cxx\<close> with a table of 64-bit words,
  and \<^verbatim>\<open>src/fibonacci.cxx\<close> with a tree of tasks, each of which starts two subtasks and waits
  for them.
\<close>

section \<open>The reference\<close>

text \<open>The first two numbers are 1 in both programs.\<close>

fun fib :: "nat \<Rightarrow> nat" where
  "fib 0 = 1"
| "fib (Suc 0) = 1"
| "fib (Suc (Suc n)) = fib (Suc n) + fib n"

section \<open>fiboquick.cxx\<close>

text \<open>
  \<^verbatim>\<open>fibo\<close>: the static array \<^verbatim>\<open>f\<close> of 10000 words is passed along. A zero entry has not been computed
  yet.
\<close>

function fibo :: "int \<Rightarrow> 64 word list \<Rightarrow> (64 word list \<times> 64 word) result" where
  "fibo n f =
     (if n < 2 then Inr (f, 1)
      else
        bindE (get_at f n) (\<lambda>fn.
        bindE (if fn = 0 then
                 bindE (get_at f (n - 1)) (\<lambda>f1.
                 bindE (if f1 = 0 then bindE (fibo (n - 1) f) (\<lambda>(f', v). set_at f' (n - 1) v) else Inr f) (\<lambda>f.
                 bindE (get_at f (n - 2)) (\<lambda>f2.
                 bindE (if f2 = 0 then bindE (fibo (n - 2) f) (\<lambda>(f', v). set_at f' (n - 2) v) else Inr f) (\<lambda>f.
                 bindE (get_at f (n - 1)) (\<lambda>a. bindE (get_at f (n - 2)) (\<lambda>b. set_at f n (a + b)))))))
               else Inr f) (\<lambda>f.
        bindE (get_at f n) (\<lambda>v. Inr (f, v)))))"
  by pat_completeness auto
termination
  by (relation "measure (\<lambda>(n, f). nat n)") auto

declare fibo.simps [simp del]

definition static_f :: "64 word list" where
  "static_f = replicate 10000 0"

text \<open>
  \<^verbatim>\<open>main\<close> for an argument that was read as \<^verbatim>\<open>n\<close>: the text it prints.
\<close>

definition fiboquick_main :: "string \<Rightarrow> int option \<Rightarrow> (string \<times> int) result" where
  "fiboquick_main program n =
     (case n of
        None \<Rightarrow> Inr (''Usage: '' @ program @ '' <n> : Calculate the n-th Fibonacci number.'' @ [CHR 0x0A], 1)
      | Some n \<Rightarrow>
          bindE (fibo n static_f) (\<lambda>(f, v).
            Inr (''The '' @ show_int n @ ''-th Fibonacci number is '' @ show_nat (unat v) @ [CHR 0x0A], 0)))"

section \<open>fibonacci.cxx\<close>

text \<open>
  The task class. A subtask is known by its index; what the task sees of its subtasks when it runs
  (whether they have finished, and their value) is the record \<^verbatim>\<open>subtasks\<close>, supplied by the
  scheduler.
\<close>

datatype fibonacci_state = Fibonacci_start | Fibonacci_wait | Fibonacci_math | Fibonacci_done

record Fibonacci_task =
  m_index :: int
  m_value :: int
  m_smallest :: "int option"
  m_largest :: "int option"

definition new_Fibonacci :: "int \<Rightarrow> Fibonacci_task" where
  "new_Fibonacci n = \<lparr>m_index = n, m_value = 0, m_smallest = None, m_largest = None\<rparr>"

record subtasks =
  largest_finished :: bool
  largest_value :: int
  smallest_finished :: bool
  smallest_value :: int

datatype task_action = Run_subtask int nat | Wait_for nat | Finish

definition Fibonacci_state_str_impl :: "fibonacci_state \<Rightarrow> string" where
  "Fibonacci_state_str_impl run_state =
     (case run_state of Fibonacci_start \<Rightarrow> ''Fibonacci_start'' | Fibonacci_wait \<Rightarrow> ''Fibonacci_wait''
      | Fibonacci_math \<Rightarrow> ''Fibonacci_math'' | Fibonacci_done \<Rightarrow> ''Fibonacci_done'')"

text \<open>
  \<^verbatim>\<open>multiplex_impl\<close>, one definition per \<^verbatim>\<open>case\<close> label, each falling through to the next. The result
  is the task, the state it set and what it asked of the base class.
\<close>

definition case_done :: "Fibonacci_task \<Rightarrow> (Fibonacci_task \<times> fibonacci_state \<times> task_action list) result" where
  "case_done t = Inr (t, Fibonacci_done, [Finish])"

definition case_math :: "subtasks \<Rightarrow> Fibonacci_task \<Rightarrow> (Fibonacci_task \<times> fibonacci_state \<times> task_action list) result" where
  "case_math env t =
     (if m_largest t = None \<or> m_smallest t = None then Inl Null_pointer
      else bindE (to_int (largest_value env + smallest_value env)) (\<lambda>v. case_done (t\<lparr>m_value := v\<rparr>)))"

definition case_wait :: "subtasks \<Rightarrow> Fibonacci_task \<Rightarrow> (Fibonacci_task \<times> fibonacci_state \<times> task_action list) result" where
  "case_wait env t =
     (if m_largest t = None then Inl Null_pointer
      else if largest_finished env \<and> m_smallest t = None then Inl Null_pointer
      else if \<not> (largest_finished env \<and> smallest_finished env) then Inr (t, Fibonacci_wait, [Wait_for 1])
      else case_math env t)"

definition case_start :: "subtasks \<Rightarrow> Fibonacci_task \<Rightarrow> (Fibonacci_task \<times> fibonacci_state \<times> task_action list) result" where
  "case_start env t =
     (if m_index t < 2 then Inr (t\<lparr>m_value := 1\<rparr>, Fibonacci_done, [])
      else
        bindE (case_wait env (t\<lparr>m_largest := Some (m_index t - 1), m_smallest := Some (m_index t - 2)\<rparr>))
          (\<lambda>(t', st, acts). Inr (t', st, [Run_subtask (m_index t - 1) 1, Run_subtask (m_index t - 2) 1] @ acts)))"

definition Fibonacci_multiplex_impl ::
  "subtasks \<Rightarrow> fibonacci_state \<Rightarrow> Fibonacci_task \<Rightarrow> (Fibonacci_task \<times> fibonacci_state \<times> task_action list) result"
where
  "Fibonacci_multiplex_impl env run_state t =
     (case run_state of
        Fibonacci_start \<Rightarrow> case_start env t
      | Fibonacci_wait \<Rightarrow> case_wait env t
      | Fibonacci_math \<Rightarrow> case_math env t
      | Fibonacci_done \<Rightarrow> case_done t)"

text \<open>
  All ways in which a task with number \<^verbatim>\<open>n\<close> can be run to its end, whatever the scheduler does: the
  task is run again and again, and at each of these moments a subtask may or may not have
  finished. The only thing relied on is that a subtask which reports to have finished has
  finished, with the value it reports.
\<close>

inductive finishes :: "int \<Rightarrow> int \<Rightarrow> bool"
  and task_run :: "fibonacci_state \<Rightarrow> Fibonacci_task \<Rightarrow> Fibonacci_task \<Rightarrow> bool"
where
  finishes: "task_run Fibonacci_start (new_Fibonacci n) t \<Longrightarrow> finishes n (m_value t)"
| last_run: "(largest_finished env \<Longrightarrow> finishes (m_index t - 1) (largest_value env)) \<Longrightarrow>
    (smallest_finished env \<Longrightarrow> finishes (m_index t - 2) (smallest_value env)) \<Longrightarrow>
    Fibonacci_multiplex_impl env st t = Inr (t', st', acts) \<Longrightarrow> Finish \<in> set acts \<Longrightarrow> task_run st t t'"
| run_again: "(largest_finished env \<Longrightarrow> finishes (m_index t - 1) (largest_value env)) \<Longrightarrow>
    (smallest_finished env \<Longrightarrow> finishes (m_index t - 2) (smallest_value env)) \<Longrightarrow>
    Fibonacci_multiplex_impl env st t = Inr (t', st', acts) \<Longrightarrow> Finish \<notin> set acts \<Longrightarrow>
    task_run st' t' t'' \<Longrightarrow> task_run st t t''"

text \<open>What a task knows in each of its states.\<close>

definition task_ok :: "fibonacci_state \<Rightarrow> Fibonacci_task \<Rightarrow> bool" where
  "task_ok st t \<longleftrightarrow>
     (case st of
        Fibonacci_start \<Rightarrow> True
      | Fibonacci_wait \<Rightarrow> m_index t \<ge> 2 \<and> m_largest t \<noteq> None \<and> m_smallest t \<noteq> None
      | Fibonacci_math \<Rightarrow> False
      | Fibonacci_done \<Rightarrow> m_value t = int (fib (nat (m_index t))))"

definition subtasks_ok :: "int \<Rightarrow> subtasks \<Rightarrow> bool" where
  "subtasks_ok n env \<longleftrightarrow>
     (largest_finished env \<longrightarrow> largest_value env = int (fib (nat (n - 1)))) \<and>
     (smallest_finished env \<longrightarrow> smallest_value env = int (fib (nat (n - 2))))"

definition memo_ok :: "64 word list \<Rightarrow> bool" where
  "memo_ok f \<longleftrightarrow> length f = 10000 \<and> (\<forall>i < 10000. f ! i = 0 \<or> f ! i = of_nat (fib i))"

definition memo_grows :: "64 word list \<Rightarrow> 64 word list \<Rightarrow> bool" where
  "memo_grows f f' \<longleftrightarrow> memo_ok f' \<and> (\<forall>i < 10000. f ! i = of_nat (fib i) \<longrightarrow> f' ! i = of_nat (fib i))"

primrec fib_iter :: "nat \<Rightarrow> int \<Rightarrow> int \<Rightarrow> int" where
  "fib_iter 0 a b = a"
| "fib_iter (Suc n) a b = fib_iter n b (a + b)"

section \<open>Lemmas\<close>

lemma fib_nat: "2 \<le> n \<Longrightarrow> fib (nat n) = fib (nat (n - 1)) + fib (nat (n - 2))"
proof -
  assume "2 \<le> n"
  then have "nat n = Suc (Suc (nat (n - 2)))" "nat (n - 1) = Suc (nat (n - 2))" by auto
  then show ?thesis by simp
qed

lemma fib_small: "n < 2 \<Longrightarrow> fib (nat n) = 1" for n :: int
proof -
  assume "n < 2"
  then have "nat n = 0 \<or> nat n = Suc 0" by auto
  then show ?thesis by auto
qed

lemma fib_pos: "0 < fib n"
  by (induction n rule: fib.induct) auto

lemma fib_mono: "m \<le> n \<Longrightarrow> fib m \<le> fib n"
proof (induction n)
  case (Suc n)
  then show ?case by (cases "m = Suc n"; cases n) (auto intro: order_trans)
qed simp

lemma memo_ok_static: "memo_ok static_f"
  by (simp add: memo_ok_def static_f_def)

lemma memo_ok_length: "memo_ok f \<Longrightarrow> length f = 10000"
  by (simp add: memo_ok_def)

lemma memo_grows_ok: "memo_grows f f' \<Longrightarrow> memo_ok f'"
  by (simp add: memo_grows_def)

lemma memo_grows_refl: "memo_ok f \<Longrightarrow> memo_grows f f"
  by (simp add: memo_grows_def)

lemma memo_grows_trans: "memo_grows f g \<Longrightarrow> memo_grows g h \<Longrightarrow> memo_grows f h"
  by (simp add: memo_grows_def)

lemma memo_grows_set:
  "memo_ok f \<Longrightarrow> 0 \<le> n \<Longrightarrow> n < 10000 \<Longrightarrow> v = of_nat (fib (nat n)) \<Longrightarrow> set_at f n v = Inr f' \<Longrightarrow> memo_grows f f'"
  by (auto simp: memo_ok_def memo_grows_def nth_list_update set_at_eq_Inr)

lemma memo_ok_get: "memo_ok f \<Longrightarrow> 0 \<le> n \<Longrightarrow> n < 10000 \<Longrightarrow> get_at f n = Inr (f ! nat n)"
  by (simp add: memo_ok_def get_at_def)

lemma memo_ok_set_at: "memo_ok f \<Longrightarrow> 0 \<le> n \<Longrightarrow> n < 10000 \<Longrightarrow> set_at f n v = Inr (f[nat n := v])"
  by (simp add: memo_ok_def set_at_def)

lemma memo_entry: "memo_ok f \<Longrightarrow> 0 \<le> n \<Longrightarrow> n < 10000 \<Longrightarrow> f ! nat n \<noteq> 0 \<Longrightarrow> f ! nat n = of_nat (fib (nat n))"
  by (simp add: memo_ok_def) (metis nat_less_iff of_nat_numeral)

text \<open>The statement \<^verbatim>\<open>if (!f[k]) f[k] = fibo(k);\<close>.\<close>

lemma fill_entry:
  assumes rec: "\<And>f. memo_ok f \<Longrightarrow> \<exists>f'. fibo k f = Inr (f', of_nat (fib (nat k))) \<and> memo_grows f f'"
    and f: "memo_ok f" "0 \<le> k" "k < 10000"
  obtains f' where "(if f ! nat k = 0 then bindE (fibo k f) (\<lambda>(f', v). set_at f' k v) else Inr f) = Inr f'"
    and "memo_grows f f'" and "f' ! nat k = of_nat (fib (nat k))"
proof (cases "f ! nat k = 0")
  case True
  from rec [OF f(1)] obtain g where g: "fibo k f = Inr (g, of_nat (fib (nat k)))" "memo_grows f g" by blast
  then have ok: "memo_ok g" by (simp add: memo_grows_ok)
  have set: "set_at g k (of_nat (fib (nat k))) = Inr (g[nat k := of_nat (fib (nat k))])"
    by (rule memo_ok_set_at [OF ok f(2,3)])
  show thesis
  proof (rule that)
    show "memo_grows f (g[nat k := of_nat (fib (nat k))])"
      using memo_grows_trans [OF g(2) memo_grows_set [OF ok f(2,3) refl set]] .
    show "g[nat k := of_nat (fib (nat k))] ! nat k = of_nat (fib (nat k))"
      using memo_ok_length [OF ok] f(2,3) by simp
  qed (simp add: True g set)
next
  case False
  show thesis
  proof (rule that)
    show "memo_grows f f" by (rule memo_grows_refl [OF f(1)])
    show "f ! nat k = of_nat (fib (nat k))" by (rule memo_entry [OF f False])
  qed (simp add: False)
qed

lemma fibo_grows:
  assumes "memo_ok f" "n < 10000"
  shows "\<exists>f'. fibo n f = Inr (f', of_nat (fib (nat n))) \<and> memo_grows f f'"
  using assms
proof (induction "nat n" arbitrary: n f rule: less_induct)
  case less
  note ok = less.prems(1)
  consider "n < 2" | "2 \<le> n" "f ! nat n \<noteq> 0" | "2 \<le> n" "f ! nat n = 0" by linarith
  then show ?case
  proof cases
    case 1
    then show ?thesis using memo_grows_refl [OF ok] by (simp add: fibo.simps [of n] fib_small)
  next
    case 2
    with memo_entry [OF ok _ less.prems(2)] memo_grows_refl [OF ok] show ?thesis
      by (simp add: fibo.simps [of n] memo_ok_get [OF ok _ less.prems(2)])
  next
    case 3
    have r: "0 \<le> n - 1" "n - 1 < 10000" "0 \<le> n - 2" "n - 2 < 10000" "0 \<le> n"
      using 3(1) less.prems(2) by auto
    have rec: "\<exists>f'. fibo k f = Inr (f', of_nat (fib (nat k))) \<and> memo_grows f f'"
      if "memo_ok f" "k = n - 1 \<or> k = n - 2" for f k
      using less.hyps [of k f] that r 3(1) by auto
    obtain f1 where f1: "(if f ! nat (n - 1) = 0 then bindE (fibo (n - 1) f) (\<lambda>(f', v). set_at f' (n - 1) v) else Inr f) = Inr f1"
      "memo_grows f f1" "f1 ! nat (n - 1) = of_nat (fib (nat (n - 1)))"
      by (rule fill_entry [OF rec ok r(1,2)]) auto
    then have ok1: "memo_ok f1" by (simp add: memo_grows_ok)
    obtain f2 where f2: "(if f1 ! nat (n - 2) = 0 then bindE (fibo (n - 2) f1) (\<lambda>(f', v). set_at f' (n - 2) v) else Inr f1) = Inr f2"
      "memo_grows f1 f2" "f2 ! nat (n - 2) = of_nat (fib (nat (n - 2)))"
      by (rule fill_entry [OF rec ok1 r(3,4)]) auto
    then have ok2: "memo_ok f2" by (simp add: memo_grows_ok)
    have e: "f2 ! nat (n - 1) = of_nat (fib (nat (n - 1)))"
      using f1(3) f2(2) r by (simp add: memo_grows_def)
    have v: "f2 ! nat (n - 1) + f2 ! nat (n - 2) = of_nat (fib (nat n))"
      by (simp add: e f2(3) fib_nat [OF 3(1)])
    let ?f3 = "f2[nat n := of_nat (fib (nat n))]"
    have g3: "memo_grows f2 ?f3"
      by (rule memo_grows_set [OF ok2 r(5) less.prems(2) refl memo_ok_set_at [OF ok2 r(5) less.prems(2)]])
    then have ok3: "memo_ok ?f3" by (rule memo_grows_ok)
    have "?f3 ! nat n = of_nat (fib (nat n))" using memo_ok_length [OF ok2] r(5) less.prems(2) by simp
    then have "fibo n f = Inr (?f3, of_nat (fib (nat n)))"
      unfolding fibo.simps [of n f]
      using 3 f1(1) f2(1) by (simp add: memo_ok_get [OF ok] memo_ok_get [OF ok1] memo_ok_get [OF ok2] memo_ok_get [OF ok3]
          memo_ok_set_at [OF ok2] r less.prems(2) v)
    moreover have "memo_grows f ?f3"
      using memo_grows_trans [OF memo_grows_trans [OF f1(2) f2(2)] g3] .
    ultimately show ?thesis by blast
  qed
qed

lemma fib_iter: "fib_iter n (int (fib k)) (int (fib (Suc k))) = int (fib (n + k))"
proof (induction n arbitrary: k)
  case (Suc n)
  from Suc [of "Suc k"] show ?case by (simp add: add.commute)
qed simp

lemma fib_by_iter: "int (fib n) = fib_iter n 1 1"
  using fib_iter [of n 0] by simp

lemma fib_iter_numeral: "fib_iter (numeral k) a b = fib_iter (pred_numeral k) b (a + b)"
  by (simp add: numeral_eq_Suc)

lemma fib_values: "fib 45 = 1836311903" "fib 46 = 2971215073" "fib 92 = 12200160415121876738" "fib 93 = 19740274219868223167"
proof -
  have "int (fib 45) = 1836311903" "int (fib 46) = 2971215073" "int (fib 92) = 12200160415121876738"
    "int (fib 93) = 19740274219868223167"
    unfolding fib_by_iter by (simp_all add: fib_iter_numeral)
  then show "fib 45 = 1836311903" "fib 46 = 2971215073" "fib 92 = 12200160415121876738" "fib 93 = 19740274219868223167"
    by linarith+
qed

lemma fibo_out_of_range: "10000 \<le> n \<Longrightarrow> memo_ok f \<Longrightarrow> fibo n f = Inl Out_of_range"
  by (simp add: fibo.simps [of n] get_at_def memo_ok_length)

lemma word_fib_exact: "n \<le> 92 \<Longrightarrow> unat (of_nat (fib n) :: 64 word) = fib n"
  using fib_mono [of n 92] by (simp add: unat_of_nat fib_values)

section \<open>The tasks\<close>

lemma case_wait_ok:
  assumes "m_index t \<ge> 2" "m_largest t \<noteq> None" "m_smallest t \<noteq> None" "subtasks_ok (m_index t) env"
    and "case_wait env t = Inr (t', st', acts)"
  shows "m_index t' = m_index t \<and> (if Finish \<in> set acts then m_value t' = int (fib (nat (m_index t))) else task_ok st' t')"
  using assms fib_nat [OF assms(1)]
  by (auto simp: case_wait_def case_math_def case_done_def subtasks_ok_def task_ok_def bindE_eq_Inr to_int_eq_Inr
      split: if_splits)

lemma multiplex_ok:
  assumes "task_ok st t" "subtasks_ok (m_index t) env" "Fibonacci_multiplex_impl env st t = Inr (t', st', acts)"
  shows "m_index t' = m_index t \<and> (if Finish \<in> set acts then m_value t' = int (fib (nat (m_index t))) else task_ok st' t')"
proof (cases st)
  case Fibonacci_start
  show ?thesis
  proof (cases "m_index t < 2")
    case True
    with assms Fibonacci_start show ?thesis
      by (auto simp: Fibonacci_multiplex_impl_def case_start_def task_ok_def fib_small)
  next
    case False
    let ?t = "t\<lparr>m_largest := Some (m_index t - 1), m_smallest := Some (m_index t - 2)\<rparr>"
    obtain acts' where "case_wait env ?t = Inr (t', st', acts')" "Finish \<in> set acts \<longleftrightarrow> Finish \<in> set acts'"
      using assms(3) Fibonacci_start False by (auto simp: Fibonacci_multiplex_impl_def case_start_def bindE_eq_Inr)
    with case_wait_ok [of ?t env t' st' acts'] False assms(2) show ?thesis by simp
  qed
next
  case Fibonacci_wait
  with assms case_wait_ok [of t env t' st' acts] show ?thesis
    by (simp add: Fibonacci_multiplex_impl_def task_ok_def [of Fibonacci_wait])
qed (use assms in \<open>auto simp: Fibonacci_multiplex_impl_def task_ok_def case_done_def\<close>)

lemma task_results:
  "finishes n v \<Longrightarrow> v = int (fib (nat n))"
  "task_run st t t' \<Longrightarrow> task_ok st t \<Longrightarrow> m_value t' = int (fib (nat (m_index t))) \<and> m_index t' = m_index t"
proof (induction rule: finishes_task_run.inducts)
  case (finishes n t)
  then show ?case by (simp add: task_ok_def new_Fibonacci_def)
next
  case (last_run env t st t' st' acts)
  then have "subtasks_ok (m_index t) env" by (auto simp: subtasks_ok_def)
  from multiplex_ok [OF last_run.prems this last_run.hyps(3)] last_run.hyps(4) show ?case by simp
next
  case (run_again env t st t' st' acts t'')
  then have "subtasks_ok (m_index t) env" by (auto simp: subtasks_ok_def)
  from multiplex_ok [OF run_again.prems this run_again.hyps(3)] run_again show ?case by simp
qed

lemma multiplex_no_fault:
  assumes "task_ok st t" "subtasks_ok (m_index t) env" "m_index t \<le> 45"
  shows "\<exists>t' st' acts. Fibonacci_multiplex_impl env st t = Inr (t', st', acts)"
proof -
  have "fib (nat (m_index t)) \<le> 1836311903"
    using fib_mono [of "nat (m_index t)" 45] assms(3) by (simp add: fib_values)
  then have "int (fib (nat (m_index t - 1))) + int (fib (nat (m_index t - 2))) \<le> 2147483647" if "2 \<le> m_index t"
    using fib_nat [OF that] by simp
  then show ?thesis
    using assms(1,2)
    by (cases st) (auto simp: Fibonacci_multiplex_impl_def case_start_def case_wait_def case_math_def case_done_def
        subtasks_ok_def task_ok_def)
qed

lemma finishes_small:
  assumes "n < 2"
  shows "finishes n 1"
proof -
  let ?t = "(new_Fibonacci n)\<lparr>m_value := 1\<rparr>"
  let ?env = "\<lparr>largest_finished = False, largest_value = 0, smallest_finished = False, smallest_value = 0\<rparr>"
  have 1: "Fibonacci_multiplex_impl ?env Fibonacci_start (new_Fibonacci n) = Inr (?t, Fibonacci_done, [])"
    using assms by (simp add: Fibonacci_multiplex_impl_def case_start_def new_Fibonacci_def)
  have 2: "Fibonacci_multiplex_impl ?env Fibonacci_done ?t = Inr (?t, Fibonacci_done, [Finish])"
    by (simp add: Fibonacci_multiplex_impl_def case_done_def)
  have "task_run Fibonacci_done ?t ?t" by (rule last_run [OF _ _ 2]) simp_all
  then have "task_run Fibonacci_start (new_Fibonacci n) ?t" by (rule run_again [OF _ _ 1, rotated -1]) simp_all
  from finishes [OF this] show ?thesis by simp
qed

lemma finishes_step:
  assumes "2 \<le> n" "finishes (n - 1) a" "finishes (n - 2) b" "- 2147483648 \<le> a + b" "a + b \<le> 2147483647"
  shows "finishes n (a + b)"
proof -
  let ?env = "\<lparr>largest_finished = True, largest_value = a, smallest_finished = True, smallest_value = b\<rparr>"
  let ?t = "\<lparr>m_index = n, m_value = a + b, m_smallest = Some (n - 2), m_largest = Some (n - 1)\<rparr>"
  have 1: "Fibonacci_multiplex_impl ?env Fibonacci_start (new_Fibonacci n) =
      Inr (?t, Fibonacci_done, [Run_subtask (n - 1) 1, Run_subtask (n - 2) 1, Finish])"
    using assms by (simp add: Fibonacci_multiplex_impl_def case_start_def case_wait_def case_math_def case_done_def new_Fibonacci_def)
  have "task_run Fibonacci_start (new_Fibonacci n) ?t"
    by (rule last_run [OF _ _ 1]) (use assms in \<open>simp_all add: new_Fibonacci_def\<close>)
  from finishes [OF this] show ?thesis by simp
qed

lemma finishes_fib: "n \<le> 45 \<Longrightarrow> finishes n (int (fib (nat n)))"
proof (induction "nat n" arbitrary: n rule: less_induct)
  case less
  show ?case
  proof (cases "n < 2")
    case True
    then show ?thesis using finishes_small by (simp add: fib_small)
  next
    case False
    have "fib (nat n) \<le> 1836311903"
      using fib_mono [of "nat n" 45] less.prems by (simp add: fib_values)
    moreover have "fib (nat n) = fib (nat (n - 1)) + fib (nat (n - 2))"
      using False by (simp add: fib_nat)
    ultimately show ?thesis
      using finishes_step [of n "int (fib (nat (n - 1)))" "int (fib (nat (n - 2)))"] less.hyps [of "n - 1"]
        less.hyps [of "n - 2"] False less.prems by simp
  qed
qed

section \<open>Properties\<close>

text \<open>C10. \<^verbatim>\<open>fibo\<close> with its table of already computed words gives the Fibonacci number modulo 2 to the
  power 64 for every index below 10000, which is the exact number up to index 92; a larger index
  leaves the table.\<close>

theorem fibo_correct:
  "(\<forall>n < 10000. \<exists>f' v. fibo n static_f = Inr (f', v) \<and> v = of_nat (fib (nat n)) \<and> (n \<le> 92 \<longrightarrow> unat v = fib (nat n))) \<and>
   (\<forall>n \<ge> 10000. fibo n static_f = Inl Out_of_range)"
  using fibo_grows [OF memo_ok_static] fibo_out_of_range [OF _ memo_ok_static] word_fib_exact
  by (metis nat_le_iff of_nat_numeral)

theorem fibo_correct_witness:
  "\<exists>f' v. fibo 92 static_f = Inr (f', v) \<and> unat v = fib (nat 92)"
proof -
  have "\<exists>f' v. fibo 92 static_f = Inr (f', v) \<and> v = of_nat (fib (nat 92)) \<and> (92 \<le> (92::int) \<longrightarrow> unat v = fib (nat 92))"
    by (rule fibo_correct [THEN conjunct1, rule_format]) simp
  then show ?thesis by blast
qed

text \<open>However the thread pool schedules the tree of tasks, a task that finishes has the right
  value: the Fibonacci number of its index.\<close>

theorem fibonacci_task_value:
  assumes "finishes n v"
  shows "v = int (fib (nat n))"
  using assms by (rule task_results)

theorem fibonacci_task_value_witness: "finishes 1 1 \<and> (1::int) = int (fib (nat 1))"
  using finishes_small [of 1] fibonacci_task_value [of 1 1] by simp

text \<open>C11. However the thread pool schedules the tree of tasks, a task that finishes has the Fibonacci number of
  its index as value. Up to index 45 no sum of two subtask values leaves the range of \<^verbatim>\<open>int\<close> and no subtask
  pointer is null when it is used, in any state in which the task is run; and the task can finish,
  with its number.\<close>

theorem fibonacci_task_total:
  assumes "task_ok st t" "subtasks_ok (m_index t) env" "m_index t \<le> 45"
  shows "(\<exists>t' st' acts. Fibonacci_multiplex_impl env st t = Inr (t', st', acts) \<and>
      (if Finish \<in> set acts then m_value t' = int (fib (nat (m_index t))) else task_ok st' t')) \<and>
    (\<forall>v. finishes (m_index t) v \<longleftrightarrow> v = int (fib (nat (m_index t))))"
proof -
  have f: "\<forall>v. finishes (m_index t) v \<longleftrightarrow> v = int (fib (nat (m_index t)))"
    using task_results(1) finishes_fib [OF assms(3)] by blast
  obtain t' st' acts where m: "Fibonacci_multiplex_impl env st t = Inr (t', st', acts)" using multiplex_no_fault [OF assms] by blast
  with multiplex_ok [OF assms(1,2) m] f show ?thesis by (intro conjI exI [of _ t'] exI [of _ st'] exI [of _ acts]) simp_all
qed

theorem fibonacci_task_total_witness: "finishes 10 (int (fib (nat 10)))"
  using fibonacci_task_total [of Fibonacci_start "new_Fibonacci 10"
      "\<lparr>largest_finished = False, largest_value = 0, smallest_finished = False, smallest_value = 0\<rparr>"]
  by (simp add: task_ok_def subtasks_ok_def new_Fibonacci_def)

end
