(* ===== verification/Fibonacci_Main.thy ===== *)
theory Fibonacci_Main
  imports Fibonacci
begin

text \<open>
  \<^verbatim>\<open>main\<close> of \<^verbatim>\<open>src/fibonacci.cxx\<close>: the task at the root of the tree runs in the engine, its subtasks in the thread pool.
  What the engine does is the parameter \<^verbatim>\<open>runs\<close>: for each call of \<^verbatim>\<open>engine.mainloop()\<close> the runs of the root task that it
  makes, each with what the task then sees of its subtasks.
\<close>

section \<open>The root task\<close>

record root =
  run_state :: fibonacci_state
  flower :: Fibonacci_task
  is_finished :: bool

definition new_root :: "int \<Rightarrow> root" where
  "new_root number = \<lparr>run_state = Fibonacci_start, flower = new_Fibonacci number, is_finished = False\<rparr>"

definition run_root :: "subtasks \<Rightarrow> root \<Rightarrow> root result" where
  "run_root env r =
     (if is_finished r then Inr r
      else bindE (Fibonacci_multiplex_impl env (run_state r) (flower r)) (\<lambda>(t, st, acts).
        Inr \<lparr>run_state = st, flower = t, is_finished = Finish \<in> set acts\<rparr>))"

primrec engine_mainloop :: "subtasks list \<Rightarrow> root \<Rightarrow> root result" where
  "engine_mainloop [] r = Inr r"
| "engine_mainloop (env # envs) r = bindE (run_root env r) (engine_mainloop envs)"

section \<open>main\<close>

text \<open>\<^verbatim>\<open>while (flower->value() == 0) engine.mainloop()\<close>, from the \<^verbatim>\<open>i\<close>th call on; \<^const>\<open>None\<close> when the fuel does not suffice.\<close>

primrec value_loop :: "(nat \<Rightarrow> subtasks list) \<Rightarrow> nat \<Rightarrow> nat \<Rightarrow> root \<Rightarrow> root result option" where
  "value_loop runs 0 i r = (if m_value (flower r) \<noteq> 0 then Some (Inr r) else None)"
| "value_loop runs (Suc fuel) i r =
     (if m_value (flower r) \<noteq> 0 then Some (Inr r)
      else case engine_mainloop (runs i) r of
          Inl e \<Rightarrow> Some (Inl e)
        | Inr r' \<Rightarrow> value_loop runs fuel (i + 1) r')"

definition fibonacci_main :: "(nat \<Rightarrow> subtasks list) \<Rightarrow> nat \<Rightarrow> string result option" where
  "fibonacci_main runs fuel =
     map_option (\<lambda>res. bindE res (\<lambda>r. Inr (show_int (m_value (flower r)) @ [CHR 0x0A]))) (value_loop runs fuel 0 (new_root 10))"

section \<open>The invariant\<close>

text \<open>The task sees the truth: a subtask that reports to have finished has finished with the value that it reports.\<close>

definition truthful :: "int \<Rightarrow> subtasks \<Rightarrow> bool" where
  "truthful n env \<longleftrightarrow>
     (largest_finished env \<longrightarrow> finishes (n - 1) (largest_value env)) \<and> (smallest_finished env \<longrightarrow> finishes (n - 2) (smallest_value env))"

definition both_finished :: "subtasks \<Rightarrow> bool" where
  "both_finished env \<longleftrightarrow> largest_finished env \<and> smallest_finished env"

definition root_ok :: "int \<Rightarrow> root \<Rightarrow> bool" where
  "root_ok n r \<longleftrightarrow> m_index (flower r) = n \<and>
     (if is_finished r then m_value (flower r) = int (fib (nat n))
      else m_value (flower r) = 0 \<and>
        (run_state r = Fibonacci_start \<or>
         run_state r = Fibonacci_wait \<and> m_largest (flower r) \<noteq> None \<and> m_smallest (flower r) \<noteq> None))"

lemma truthful_ok: "truthful n env \<Longrightarrow> subtasks_ok n env"
  using task_results(1) by (auto simp: truthful_def subtasks_ok_def)

lemma case_wait_value:
  assumes "truthful n env" "2 \<le> n" "n \<le> 45" "m_largest t \<noteq> None" "m_smallest t \<noteq> None"
  shows "case_wait env t =
    (if both_finished env then Inr (t\<lparr>m_value := int (fib (nat n))\<rparr>, Fibonacci_done, [Finish]) else Inr (t, Fibonacci_wait, [Wait_for 1]))"
proof -
  have "fib (nat n) \<le> 1836311903" using fib_mono [of "nat n" 45] assms(3) by (simp add: fib_values)
  then have "to_int (int (fib (nat (n - 1))) + int (fib (nat (n - 2)))) = Inr (int (fib (nat n)))"
    using fib_nat [OF assms(2)] by (simp add: to_int_def)
  then show ?thesis using truthful_ok [OF assms(1)] assms(4,5)
    by (auto simp: case_wait_def case_math_def case_done_def both_finished_def subtasks_ok_def)
qed

lemma run_root_ok:
  assumes "truthful n env" "root_ok n r" "2 \<le> n" "n \<le> 45"
  shows "\<exists>r'. run_root env r = Inr r' \<and> root_ok n r' \<and> (is_finished r' \<longleftrightarrow> is_finished r \<or> both_finished env)"
proof (cases "is_finished r")
  case False
  note w = case_wait_value [OF assms(1,3,4)]
  show ?thesis
  proof (cases "run_state r = Fibonacci_start")
    case True
    then show ?thesis using assms(2,3) False w
      by (cases "both_finished env") (simp_all add: run_root_def root_ok_def Fibonacci_multiplex_impl_def case_start_def)
  next
    case wait: False
    then show ?thesis using assms(2) False w [of "flower r"]
      by (cases "both_finished env") (auto simp: run_root_def root_ok_def Fibonacci_multiplex_impl_def)
  qed
qed (use assms in \<open>simp add: run_root_def\<close>)

lemma engine_mainloop_ok:
  "\<forall>env \<in> set envs. truthful n env \<Longrightarrow> root_ok n r \<Longrightarrow> 2 \<le> n \<Longrightarrow> n \<le> 45 \<Longrightarrow>
    \<exists>r'. engine_mainloop envs r = Inr r' \<and> root_ok n r' \<and> (is_finished r' \<longleftrightarrow> is_finished r \<or> (\<exists>env \<in> set envs. both_finished env))"
proof (induction envs arbitrary: r)
  case (Cons env envs)
  then obtain r1 where r1: "run_root env r = Inr r1" "root_ok n r1" "is_finished r1 \<longleftrightarrow> is_finished r \<or> both_finished env"
    using run_root_ok [of n env r] by auto
  with Cons.IH [OF _ r1(2)] Cons.prems show ?case by auto
qed simp

text \<open>The value is not zero exactly when the task has finished.\<close>

lemma root_value: "root_ok n r \<Longrightarrow> m_value (flower r) \<noteq> 0 \<longleftrightarrow> is_finished r"
  using fib_pos [of "nat n"] by (auto simp: root_ok_def split: if_splits)

lemma value_loop_ends:
  assumes "\<And>i env. env \<in> set (runs i) \<Longrightarrow> truthful n env" "root_ok n r" "2 \<le> n" "n \<le> 45"
    and "is_finished r \<or> (\<exists>env \<in> set (runs (i + k)). both_finished env)" "k < fuel"
  shows "\<exists>r'. value_loop runs fuel i r = Some (Inr r') \<and> m_value (flower r') = int (fib (nat n))"
  using assms(2,5,6)
proof (induction fuel arbitrary: i k r)
  case (Suc fuel)
  show ?case
  proof (cases "is_finished r")
    case True
    then show ?thesis using Suc.prems(1) root_value [OF Suc.prems(1)] by (auto simp: root_ok_def)
  next
    case False
    obtain r1 where r1: "engine_mainloop (runs i) r = Inr r1" "root_ok n r1"
      "is_finished r1 \<longleftrightarrow> is_finished r \<or> (\<exists>env \<in> set (runs i). both_finished env)"
      using engine_mainloop_ok [of "runs i" n r] assms(1,3,4) Suc.prems(1) by blast
    have next_turn: "value_loop runs (Suc fuel) i r = value_loop runs fuel (i + 1) r1"
      using False root_value [OF Suc.prems(1)] r1(1) by simp
    show ?thesis
    proof (cases k)
      case 0
      then have "is_finished r1" using Suc.prems(2) False r1(3) by auto
      then have "m_value (flower r1) \<noteq> 0" "m_value (flower r1) = int (fib (nat n))"
        using root_value [OF r1(2)] r1(2) by (auto simp: root_ok_def)
      then show ?thesis unfolding next_turn by (cases fuel) auto
    next
      case (Suc k')
      then show ?thesis unfolding next_turn using Suc.IH [OF r1(2), of "i + 1" k'] Suc.prems(2,3) False by simp
    qed
  qed
qed simp

lemma value_loop_waits:
  assumes "\<And>i env. env \<in> set (runs i) \<Longrightarrow> truthful n env" "root_ok n r" "2 \<le> n" "n \<le> 45"
    and "\<not> is_finished r" "\<And>k. k < fuel \<Longrightarrow> \<not> (\<exists>env \<in> set (runs (i + k)). both_finished env)"
  shows "value_loop runs fuel i r = None"
  using assms(2,5,6)
proof (induction fuel arbitrary: i r)
  case 0
  then show ?case using root_value by simp
next
  case (Suc fuel)
  have quiet: "\<not> (\<exists>env \<in> set (runs i). both_finished env)" using Suc.prems(3) [of 0] by simp
  obtain r1 where r1: "engine_mainloop (runs i) r = Inr r1" "root_ok n r1" "\<not> is_finished r1"
    using engine_mainloop_ok [of "runs i" n r] assms(1,3,4) Suc.prems(1,2) quiet by blast
  have "value_loop runs fuel (i + 1) r1 = None"
    using Suc.IH [OF r1(2,3), of "i + 1"] Suc.prems(3) [of "Suc k" for k] by simp
  then show ?case using r1(1) root_value [OF Suc.prems(1)] Suc.prems(2) by simp
qed

section \<open>Properties\<close>

text \<open>
  C12. Whatever the engine and the thread pool do, main prints 89, the Fibonacci number with index 10, as soon as
  the root task is run once after both its subtasks have finished, however often it was run before; and
  as long as it is not, main keeps waiting.
\<close>

theorem fibonacci_main_prints:
  assumes "\<And>i env. env \<in> set (runs i) \<Longrightarrow> truthful 10 env"
  shows "fibonacci_main runs fuel =
    (if \<exists>k < fuel. \<exists>env \<in> set (runs k). both_finished env then Some (Inr (''89'' @ [CHR 0x0A])) else None)"
proof -
  have ok: "root_ok 10 (new_root 10)" "\<not> is_finished (new_root 10)" by (simp_all add: root_ok_def new_root_def new_Fibonacci_def)
  have fib10: "int (fib (nat 10)) = 89" by (simp add: fib_by_iter fib_iter_numeral)
  have print: "show_int 89 = ''89''" by code_simp
  show ?thesis
  proof (cases "\<exists>k < fuel. \<exists>env \<in> set (runs k). both_finished env")
    case True
    then obtain k where k: "k < fuel" "\<exists>env \<in> set (runs (0 + k)). both_finished env" by auto
    obtain r where "value_loop runs fuel 0 (new_root 10) = Some (Inr r)" "m_value (flower r) = 89"
      using value_loop_ends [of runs 10 "new_root 10" 0 k fuel] assms ok(1) k fib10 by auto
    then show ?thesis using True by (simp add: fibonacci_main_def print)
  next
    case False
    then have "value_loop runs fuel 0 (new_root 10) = None"
      using value_loop_waits [of runs 10 "new_root 10" fuel 0] assms ok by auto
    then show ?thesis using False by (simp add: fibonacci_main_def)
  qed
qed

text \<open>The root task is run when nothing has finished, and again in the third turn when both subtasks have.\<close>

theorem fibonacci_main_prints_witness:
  "fibonacci_main (\<lambda>i. if i = 0 then [\<lparr>largest_finished = False, largest_value = 0, smallest_finished = False, smallest_value = 0\<rparr>]
       else if i = 2 then [\<lparr>largest_finished = True, largest_value = 55, smallest_finished = True, smallest_value = 34\<rparr>] else []) 5 =
     Some (Inr (''89'' @ [CHR 0x0A]))"
proof -
  have "finishes 9 55" "finishes 8 34"
    using finishes_fib [of 9] finishes_fib [of 8] by (simp_all add: fib_by_iter fib_iter_numeral)
  then show ?thesis
    by (subst fibonacci_main_prints) (auto simp: truthful_def both_finished_def split: if_splits intro!: exI [of _ 2])
qed

end
