(* ===== verification/Hello_World.thy ===== *)
theory Hello_World
  imports Wait_Signal_Script
begin

text \<open>
  The two tasks of \<^verbatim>\<open>src/helloworld.cxx\<close>: \<^verbatim>\<open>Bumper\<close> bumps \<^verbatim>\<open>HelloWorld\<close>, which then bumps it back, under
  any interleaving of the two. The base class is the parameter \<^verbatim>\<open>T\<close> of the theory
  \<^verbatim>\<open>Wait_Signal_Script\<close>, of which only the contract is used.
\<close>

section \<open>The tasks\<close>

text \<open>
  The control points of the two \<^verbatim>\<open>multiplex_impl\<close> functions: between any two of them the other task
  may run. \<^verbatim>\<open>bump()\<close> is two actions, the assignment to \<^verbatim>\<open>m_bumped\<close> and the signal, and so is the
  test of \<^verbatim>\<open>m_bumped\<close> followed by \<^verbatim>\<open>wait(1)\<close>.
\<close>

datatype hello_pc =
    H_start | H_check | H_wait | H_done_bump | H_done_signal | H_done_finish | H_finished

datatype bumper_pc =
    B_start_bump | B_start_signal | B_check | B_wait | B_done | B_finished

record 's world =
  hello_world :: hello_pc
  hello_bumped :: bool
  hello_base :: 's
  bumper :: bumper_pc
  bumper_bumped :: bool
  bumper_base :: 's
  number_of_tasks :: int
  dangling :: bool

text \<open>The constructors and the destructors.\<close>

definition new_HelloWorld :: "'s \<Rightarrow> 's world \<Rightarrow> 's world" where
  "new_HelloWorld new s = s\<lparr>hello_world := H_start, hello_bumped := False, hello_base := new, number_of_tasks := number_of_tasks s + 1\<rparr>"

definition delete_HelloWorld :: "'s world \<Rightarrow> 's world" where
  "delete_HelloWorld s = s\<lparr>hello_world := H_finished, number_of_tasks := number_of_tasks s - 1\<rparr>"

definition new_Bumper :: "'s \<Rightarrow> 's world \<Rightarrow> 's world" where
  "new_Bumper new s = s\<lparr>bumper := B_start_bump, bumper_bumped := False, bumper_base := new, number_of_tasks := number_of_tasks s + 1\<rparr>"

definition delete_Bumper :: "'s world \<Rightarrow> 's world" where
  "delete_Bumper s = s\<lparr>bumper := B_finished, number_of_tasks := number_of_tasks s - 1\<rparr>"

text \<open>The world before the tasks exist, and \<^verbatim>\<open>main\<close> up to the two calls of \<^verbatim>\<open>run\<close>.\<close>

definition no_world :: "'s \<Rightarrow> 's world" where
  "no_world new =
     \<lparr>hello_world = H_finished, hello_bumped = False, hello_base = new,
      bumper = B_finished, bumper_bumped = False, bumper_base = new, number_of_tasks = 0, dangling = False\<rparr>"

definition start_world :: "'s \<Rightarrow> 's world" where
  "start_world new = new_Bumper new (new_HelloWorld new (no_world new))"

text \<open>
  \<^verbatim>\<open>HelloWorld::multiplex_impl\<close>, one action at a time. Finishing runs the destructor; \<^verbatim>\<open>dangling\<close>
  records that a task that no longer exists was signalled.
\<close>

definition hello_multiplex_impl :: "'s task_ops \<Rightarrow> 's world \<Rightarrow> 's world" where
  "hello_multiplex_impl T s =
     (case hello_world s of
        H_start \<Rightarrow> s\<lparr>hello_world := H_check\<rparr>
      | H_check \<Rightarrow> s\<lparr>hello_world := (if \<not> hello_bumped s then H_wait else H_done_bump)\<rparr>
      | H_wait \<Rightarrow> s\<lparr>hello_world := H_check, hello_base := wait_op T 1 (hello_base s)\<rparr>
      | H_done_bump \<Rightarrow> s\<lparr>hello_world := H_done_signal, bumper_bumped := True, dangling := dangling s \<or> bumper s = B_finished\<rparr>
      | H_done_signal \<Rightarrow>
          s\<lparr>hello_world := H_done_finish, bumper_base := fst (signal_op T 1 (bumper_base s)),
            dangling := dangling s \<or> bumper s = B_finished\<rparr>
      | H_done_finish \<Rightarrow> delete_HelloWorld s
      | H_finished \<Rightarrow> s)"

definition bumper_multiplex_impl :: "'s task_ops \<Rightarrow> 's world \<Rightarrow> 's world" where
  "bumper_multiplex_impl T s =
     (case bumper s of
        B_start_bump \<Rightarrow> s\<lparr>bumper := B_start_signal, hello_bumped := True, dangling := dangling s \<or> hello_world s = H_finished\<rparr>
      | B_start_signal \<Rightarrow>
          s\<lparr>bumper := B_check, hello_base := fst (signal_op T 1 (hello_base s)),
            dangling := dangling s \<or> hello_world s = H_finished\<rparr>
      | B_check \<Rightarrow> s\<lparr>bumper := (if \<not> bumper_bumped s then B_wait else B_done)\<rparr>
      | B_wait \<Rightarrow> s\<lparr>bumper := B_check, bumper_base := wait_op T 1 (bumper_base s)\<rparr>
      | B_done \<Rightarrow> delete_Bumper s
      | B_finished \<Rightarrow> s)"

text \<open>The thread pool may run a task whenever it has not finished and does not wait.\<close>

inductive world_step :: "'s task_ops \<Rightarrow> 's world \<Rightarrow> 's world \<Rightarrow> bool" for T :: "'s task_ops" where
  hello_runs: "hello_world s \<noteq> H_finished \<Longrightarrow> \<not> waiting_op T (hello_base s) \<Longrightarrow>
    world_step T s (hello_multiplex_impl T s)"
| bumper_runs: "bumper s \<noteq> B_finished \<Longrightarrow> \<not> waiting_op T (bumper_base s) \<Longrightarrow>
    world_step T s (bumper_multiplex_impl T s)"

text \<open>
  \<^verbatim>\<open>state_str_impl\<close> of both classes: \<^verbatim>\<open>base_end\<close> and \<^verbatim>\<open>base_str\<close> are \<^verbatim>\<open>state_end\<close> and \<^verbatim>\<open>state_str_impl\<close> of the base class.
\<close>

definition hello_state_str_impl :: "int \<Rightarrow> (int \<Rightarrow> string) \<Rightarrow> int \<Rightarrow> string" where
  "hello_state_str_impl base_end base_str run_state =
     (if run_state = base_end then ''HelloWorld_start''
      else if run_state = base_end + 1 then ''HelloWorld_wait''
      else if run_state = base_end + 2 then ''HelloWorld_done''
      else base_str run_state)"

definition bumper_state_str_impl :: "int \<Rightarrow> (int \<Rightarrow> string) \<Rightarrow> int \<Rightarrow> string" where
  "bumper_state_str_impl base_end base_str run_state =
     (if run_state = base_end then ''Bumper_start''
      else if run_state = base_end + 1 then ''Bumper_wait''
      else if run_state = base_end + 2 then ''Bumper_done''
      else base_str run_state)"

inductive_cases world_stepE: "world_step T s s'"

section \<open>Specification\<close>

text \<open>
  What holds of a task that waits for condition 1 and is bumped by the other one: \<^verbatim>\<open>stored\<close> tells that
  the other one has assigned \<^verbatim>\<open>m_bumped\<close>, \<^verbatim>\<open>sent\<close> that it has also called \<^verbatim>\<open>signal(1)\<close>, \<^verbatim>\<open>checking\<close> and
  \<^verbatim>\<open>about_to_wait\<close> that the task itself is at these two points.
\<close>

definition bump_protocol ::
  "condition_type \<Rightarrow> condition_type \<Rightarrow> bool \<Rightarrow> bool \<Rightarrow> bool \<Rightarrow> bool \<Rightarrow> bool \<Rightarrow> bool"
where
  "bump_protocol i k bumped stored sent checking about_to_wait \<longleftrightarrow>
     bumped = stored \<and> (sent \<longrightarrow> stored) \<and> i \<in> {0, 1} \<and> k \<in> {0, 1} \<and>
     (i = 1 \<longrightarrow> checking \<and> \<not> sent) \<and> (k = 1 \<longrightarrow> sent) \<and> (sent \<and> about_to_wait \<longrightarrow> k = 1)"

definition hello_inv :: "('s \<Rightarrow> condition_type) \<Rightarrow> ('s \<Rightarrow> condition_type) \<Rightarrow> 's world \<Rightarrow> bool" where
  "hello_inv idle skip s \<longleftrightarrow>
     bump_protocol (idle (hello_base s)) (skip (hello_base s)) (hello_bumped s)
       (bumper s \<noteq> B_start_bump) (bumper s \<notin> {B_start_bump, B_start_signal})
       (hello_world s = H_check) (hello_world s = H_wait) \<and>
     (hello_world s \<in> {H_done_bump, H_done_signal, H_done_finish, H_finished} \<longrightarrow> hello_bumped s)"

definition bumper_inv :: "('s \<Rightarrow> condition_type) \<Rightarrow> ('s \<Rightarrow> condition_type) \<Rightarrow> 's world \<Rightarrow> bool" where
  "bumper_inv idle skip s \<longleftrightarrow>
     bump_protocol (idle (bumper_base s)) (skip (bumper_base s)) (bumper_bumped s)
       (hello_world s \<in> {H_done_signal, H_done_finish, H_finished}) (hello_world s \<in> {H_done_finish, H_finished})
       (bumper s = B_check) (bumper s = B_wait) \<and>
     (bumper s \<in> {B_done, B_finished} \<longrightarrow> bumper_bumped s)"

definition tasks_inv :: "'s world \<Rightarrow> bool" where
  "tasks_inv s \<longleftrightarrow> number_of_tasks s = of_bool (hello_world s \<noteq> H_finished) + of_bool (bumper s \<noteq> B_finished)"

definition world_inv :: "('s \<Rightarrow> condition_type) \<Rightarrow> ('s \<Rightarrow> condition_type) \<Rightarrow> 's world \<Rightarrow> bool" where
  "world_inv idle skip s \<longleftrightarrow> hello_inv idle skip s \<and> bumper_inv idle skip s \<and> tasks_inv s"

text \<open>
  The work left: the points before and after the wait loop, and in the wait loop three times the
  signals that are still to come or not yet consumed, plus the position in the loop.
\<close>

definition loop_work :: "condition_type \<Rightarrow> condition_type \<Rightarrow> bool \<Rightarrow> bool \<Rightarrow> nat" where
  "loop_work i k sent about_to_wait =
     10 + 3 * (of_bool (\<not> sent) + of_bool (k \<noteq> 0)) + (if i \<noteq> 0 then 0 else if about_to_wait then 1 else 2)"

definition hello_work :: "('s \<Rightarrow> condition_type) \<Rightarrow> ('s \<Rightarrow> condition_type) \<Rightarrow> 's world \<Rightarrow> nat" where
  "hello_work idle skip s =
     (case hello_world s of
        H_start \<Rightarrow> 30
      | H_done_bump \<Rightarrow> 3 | H_done_signal \<Rightarrow> 2 | H_done_finish \<Rightarrow> 1 | H_finished \<Rightarrow> 0
      | pc \<Rightarrow> loop_work (idle (hello_base s)) (skip (hello_base s))
                (bumper s \<notin> {B_start_bump, B_start_signal}) (pc = H_wait))"

definition bumper_work :: "('s \<Rightarrow> condition_type) \<Rightarrow> ('s \<Rightarrow> condition_type) \<Rightarrow> 's world \<Rightarrow> nat" where
  "bumper_work idle skip s =
     (case bumper s of
        B_start_bump \<Rightarrow> 31 | B_start_signal \<Rightarrow> 30
      | B_done \<Rightarrow> 1 | B_finished \<Rightarrow> 0
      | pc \<Rightarrow> loop_work (idle (bumper_base s)) (skip (bumper_base s))
                (hello_world s \<in> {H_done_finish, H_finished}) (pc = B_wait))"

section \<open>Lemmas\<close>

lemma start_world_eq:
  "start_world new =
     \<lparr>hello_world = H_start, hello_bumped = False, hello_base = new,
      bumper = B_start_bump, bumper_bumped = False, bumper_base = new, number_of_tasks = 2, dangling = False\<rparr>"
  by (simp add: start_world_def new_Bumper_def new_HelloWorld_def no_world_def)

lemmas delete_defs [simp] = delete_HelloWorld_def delete_Bumper_def

lemma protocol_wait:
  assumes c: "wait_signal_contract T idle skip"
    and p: "bump_protocol (idle b) (skip b) bumped stored sent ch True" "idle b = 0"
  shows "bump_protocol (idle (wait_op T 1 b)) (skip (wait_op T 1 b)) bumped stored sent True False"
proof (cases "skip b = 0")
  case True
  then have "idle (wait_op T 1 b) = 1 \<and> skip (wait_op T 1 b) = 0"
    using contract_wait [OF c, of b 1] p(2) by simp
  with p True show ?thesis by (simp add: bump_protocol_def)
next
  case False
  then have "skip b = 1" using p by (simp add: bump_protocol_def)
  then have "idle (wait_op T 1 b) = 0 \<and> skip (wait_op T 1 b) = 0"
    using contract_skip [OF c, of b 1] p(2) by simp
  with p show ?thesis by (simp add: bump_protocol_def)
qed

lemma protocol_signal:
  assumes c: "wait_signal_contract T idle skip"
    and p: "bump_protocol (idle b) (skip b) bumped True False ch w" "w \<longrightarrow> \<not> ch"
  shows "bump_protocol (idle (fst (signal_op T 1 b))) (skip (fst (signal_op T 1 b))) bumped True True ch w"
proof -
  obtain b' r where s: "signal_op T 1 b = (b', r)" by fastforce
  show ?thesis
  proof (cases "idle b = 0")
    case True
    then have "idle b' = 0 \<and> skip b' = skip b OR 1"
      using contract_remember [OF c _ s] by simp
    with p True s show ?thesis by (auto simp: bump_protocol_def)
  next
    case False
    then have "idle b = 1" using p by (simp add: bump_protocol_def)
    then have "idle b' = 0 \<and> skip b' = skip b"
      using contract_wake [OF c _ _ s] by simp
    with p \<open>idle b = 1\<close> s show ?thesis by (auto simp: bump_protocol_def)
  qed
qed

lemma protocol_elsewhere:
  "bump_protocol i k b st se ch w \<Longrightarrow> i = 0 \<Longrightarrow> bump_protocol i k b st se ch' False"
  by (simp add: bump_protocol_def)

lemma protocol_go_wait:
  "bump_protocol i k False st se ch w \<Longrightarrow> i = 0 \<Longrightarrow> bump_protocol i k False st se ch' w'"
  by (auto simp: bump_protocol_def)

lemma protocol_store:
  "bump_protocol i k b st False ch w \<Longrightarrow> bump_protocol i k True True False ch w"
  by (auto simp: bump_protocol_def)

lemma protocol_bumped: "bump_protocol i k b st se ch w \<Longrightarrow> b = st"
  by (simp add: bump_protocol_def)

lemma hello_step_hello_inv:
  assumes c: "wait_signal_contract T idle skip" and i: "hello_inv idle skip s"
    and r: "hello_world s \<noteq> H_finished" "idle (hello_base s) = 0"
  shows "hello_inv idle skip (hello_multiplex_impl T s)"
proof (cases "hello_world s")
  case H_check
  with i r show ?thesis
    by (cases "hello_bumped s")
      (auto simp: hello_inv_def hello_multiplex_impl_def intro: protocol_elsewhere protocol_go_wait)
next
  case H_wait
  with i r show ?thesis
    using protocol_wait [OF c, of "hello_base s"] by (simp add: hello_inv_def hello_multiplex_impl_def)
qed (use i r protocol_elsewhere in \<open>auto simp: hello_inv_def hello_multiplex_impl_def\<close>)

lemma hello_step_bumper_inv:
  assumes c: "wait_signal_contract T idle skip" and i: "bumper_inv idle skip s"
    and r: "hello_world s \<noteq> H_finished"
  shows "bumper_inv idle skip (hello_multiplex_impl T s)"
proof (cases "hello_world s")
  case H_check
  with i show ?thesis by (cases "hello_bumped s") (simp_all add: bumper_inv_def hello_multiplex_impl_def)
next
  case H_done_bump
  with i show ?thesis
    by (auto simp: bumper_inv_def hello_multiplex_impl_def intro: protocol_store)
next
  case H_done_signal
  with i show ?thesis
    using protocol_signal [OF c, of "bumper_base s"] by (simp add: bumper_inv_def hello_multiplex_impl_def)
qed (use i r in \<open>simp_all add: bumper_inv_def hello_multiplex_impl_def\<close>)

lemma bumper_step_bumper_inv:
  assumes c: "wait_signal_contract T idle skip" and i: "bumper_inv idle skip s"
    and r: "bumper s \<noteq> B_finished" "idle (bumper_base s) = 0"
  shows "bumper_inv idle skip (bumper_multiplex_impl T s)"
proof (cases "bumper s")
  case B_check
  with i r show ?thesis
    by (cases "bumper_bumped s")
      (auto simp: bumper_inv_def bumper_multiplex_impl_def intro: protocol_elsewhere protocol_go_wait)
next
  case B_wait
  with i r show ?thesis
    using protocol_wait [OF c, of "bumper_base s"] by (simp add: bumper_inv_def bumper_multiplex_impl_def)
qed (use i r protocol_elsewhere in \<open>auto simp: bumper_inv_def bumper_multiplex_impl_def\<close>)

lemma bumper_step_hello_inv:
  assumes c: "wait_signal_contract T idle skip" and i: "hello_inv idle skip s"
    and r: "bumper s \<noteq> B_finished"
  shows "hello_inv idle skip (bumper_multiplex_impl T s)"
proof (cases "bumper s")
  case B_check
  with i show ?thesis by (cases "bumper_bumped s") (simp_all add: hello_inv_def bumper_multiplex_impl_def)
next
  case B_start_bump
  with i show ?thesis
    by (auto simp: hello_inv_def bumper_multiplex_impl_def intro: protocol_store)
next
  case B_start_signal
  with i show ?thesis
    using protocol_signal [OF c, of "hello_base s"] by (simp add: hello_inv_def bumper_multiplex_impl_def)
qed (use i r in \<open>simp_all add: hello_inv_def bumper_multiplex_impl_def\<close>)

lemma steps_tasks_inv:
  "tasks_inv s \<Longrightarrow> hello_world s \<noteq> H_finished \<Longrightarrow> tasks_inv (hello_multiplex_impl T s)"
  "tasks_inv s \<Longrightarrow> bumper s \<noteq> B_finished \<Longrightarrow> tasks_inv (bumper_multiplex_impl T s)"
  by (cases "hello_world s"; simp add: tasks_inv_def hello_multiplex_impl_def)
     (cases "bumper s"; simp add: tasks_inv_def bumper_multiplex_impl_def)

lemma world_step_inv:
  assumes c: "wait_signal_contract T idle skip" and i: "world_inv idle skip s" and s: "world_step T s s'"
  shows "world_inv idle skip s'"
  using s
proof (rule world_stepE)
  assume "s' = hello_multiplex_impl T s" "hello_world s \<noteq> H_finished" "\<not> waiting_op T (hello_base s)"
  then show ?thesis
    using i hello_step_hello_inv [OF c, of s] hello_step_bumper_inv [OF c, of s] steps_tasks_inv(1) [of s T]
    by (simp add: world_inv_def contract_waiting [OF c])
next
  assume "s' = bumper_multiplex_impl T s" "bumper s \<noteq> B_finished" "\<not> waiting_op T (bumper_base s)"
  then show ?thesis
    using i bumper_step_hello_inv [OF c, of s] bumper_step_bumper_inv [OF c, of s] steps_tasks_inv(2) [of s T]
    by (simp add: world_inv_def contract_waiting [OF c])
qed

lemma start_world_inv: "idle new = 0 \<Longrightarrow> skip new = 0 \<Longrightarrow> world_inv idle skip (start_world new)"
  by (simp add: world_inv_def hello_inv_def bumper_inv_def tasks_inv_def start_world_eq bump_protocol_def)

lemma world_reach_inv:
  assumes c: "wait_signal_contract T idle skip" and new: "idle new = 0" "skip new = 0"
    and r: "reach (\<lambda>s. s = start_world new) (world_step T) s"
  shows "world_inv idle skip s"
  using r by (induction rule: reach.induct) (auto intro: start_world_inv new world_step_inv [OF c])

text \<open>A task that waits has not been signalled, so the other one can still run.\<close>

lemma protocol_idle: "bump_protocol i k b st se ch w \<Longrightarrow> i \<noteq> 0 \<Longrightarrow> ch \<and> \<not> se"
  by (auto simp: bump_protocol_def)

lemma waiting_tasks:
  assumes "world_inv idle skip s"
  shows "idle (hello_base s) \<noteq> 0 \<Longrightarrow> hello_world s = H_check \<and> bumper s \<in> {B_start_bump, B_start_signal}"
    and "idle (bumper_base s) \<noteq> 0 \<Longrightarrow> bumper s = B_check \<and> hello_world s \<notin> {H_done_finish, H_finished}"
  using assms by (auto simp: world_inv_def hello_inv_def bumper_inv_def dest: protocol_idle)

lemma world_progress:
  assumes c: "wait_signal_contract T idle skip" and i: "world_inv idle skip s"
    and n: "\<not> (hello_world s = H_finished \<and> bumper s = B_finished)"
  shows "\<exists>s'. world_step T s s'"
proof (cases "hello_world s \<noteq> H_finished \<and> idle (hello_base s) = 0")
  case True
  then show ?thesis using contract_waiting [OF c] by (blast intro: hello_runs)
next
  case False
  then have "bumper s \<noteq> B_finished \<and> idle (bumper_base s) = 0"
    using n waiting_tasks(1) [OF i] waiting_tasks(2) [OF i] by (cases "idle (bumper_base s) = 0") auto
  then show ?thesis using contract_waiting [OF c] by (blast intro: bumper_runs)
qed

lemma loop_work_wait:
  assumes c: "wait_signal_contract T idle skip" and p: "bump_protocol (idle b) (skip b) bumped stored sent ch True" "idle b = 0"
  shows "loop_work (idle (wait_op T 1 b)) (skip (wait_op T 1 b)) sent False < loop_work (idle b) (skip b) sent True"
proof (cases "skip b = 0")
  case True
  then have "idle (wait_op T 1 b) = 1 \<and> skip (wait_op T 1 b) = 0"
    using contract_wait [OF c, of b 1] p(2) by simp
  with p True show ?thesis by (simp add: loop_work_def)
next
  case False
  then have "skip b = 1" using p by (simp add: bump_protocol_def)
  then have "idle (wait_op T 1 b) = 0 \<and> skip (wait_op T 1 b) = 0"
    using contract_skip [OF c, of b 1] p(2) by simp
  with p \<open>skip b = 1\<close> show ?thesis by (simp add: loop_work_def)
qed

lemma loop_work_signal:
  assumes c: "wait_signal_contract T idle skip" and p: "bump_protocol (idle b) (skip b) bumped stored False ch w"
  shows "loop_work (idle (fst (signal_op T 1 b))) (skip (fst (signal_op T 1 b))) True w \<le> loop_work (idle b) (skip b) False w"
proof -
  obtain b' r where s: "signal_op T 1 b = (b', r)" by fastforce
  have k: "skip b = 0" using p by (auto simp: bump_protocol_def)
  show ?thesis
  proof (cases "idle b = 0")
    case True
    then have "idle b' = 0 \<and> skip b' = 1"
      using contract_remember [OF c _ s] k by simp
    with True s k show ?thesis by (simp add: loop_work_def)
  next
    case False
    then have "idle b = 1" using p by (simp add: bump_protocol_def)
    then have "idle b' = 0 \<and> skip b' = 0"
      using contract_wake [OF c _ _ s] k by simp
    with False s k show ?thesis by (simp add: loop_work_def)
  qed
qed

lemma loop_work_bounds: "10 \<le> loop_work i k se w" "loop_work i k se w \<le> 18"
  by (simp_all add: loop_work_def of_bool_def)

lemma hello_step_works:
  assumes c: "wait_signal_contract T idle skip" and i: "world_inv idle skip s"
    and r: "hello_world s \<noteq> H_finished" "idle (hello_base s) = 0"
  shows "hello_work idle skip (hello_multiplex_impl T s) < hello_work idle skip s"
    and "bumper_work idle skip (hello_multiplex_impl T s) \<le> bumper_work idle skip s"
proof -
  note b = loop_work_bounds
  have hi: "hello_inv idle skip s" and bi: "bumper_inv idle skip s" using i by (simp_all add: world_inv_def)
  show "hello_work idle skip (hello_multiplex_impl T s) < hello_work idle skip s"
  proof (cases "hello_world s")
    case H_start
    then show ?thesis using b(2) [THEN le_less_trans] by (simp add: hello_work_def hello_multiplex_impl_def)
  next
    case H_check
    then show ?thesis using r by (simp add: hello_work_def hello_multiplex_impl_def loop_work_def)
  next
    case H_wait
    with hi r show ?thesis
      using loop_work_wait [OF c, of "hello_base s"] by (auto simp: hello_inv_def hello_work_def hello_multiplex_impl_def)
  qed (use r in \<open>simp_all add: hello_work_def hello_multiplex_impl_def\<close>)
  show "bumper_work idle skip (hello_multiplex_impl T s) \<le> bumper_work idle skip s"
  proof (cases "hello_world s")
    case H_done_signal
    with bi show ?thesis
      using loop_work_signal [OF c, of "bumper_base s"]
      by (cases "bumper s") (auto simp: bumper_inv_def bumper_work_def hello_multiplex_impl_def)
  qed (cases "bumper s"; simp add: bumper_work_def hello_multiplex_impl_def)+
qed

lemma bumper_step_works:
  assumes c: "wait_signal_contract T idle skip" and i: "world_inv idle skip s"
    and r: "bumper s \<noteq> B_finished" "idle (bumper_base s) = 0"
  shows "bumper_work idle skip (bumper_multiplex_impl T s) < bumper_work idle skip s"
    and "hello_work idle skip (bumper_multiplex_impl T s) \<le> hello_work idle skip s"
proof -
  note b = loop_work_bounds
  have hi: "hello_inv idle skip s" and bi: "bumper_inv idle skip s" using i by (simp_all add: world_inv_def)
  show "bumper_work idle skip (bumper_multiplex_impl T s) < bumper_work idle skip s"
  proof (cases "bumper s")
    case B_start_signal
    then show ?thesis using b(2) [THEN le_less_trans] by (simp add: bumper_work_def bumper_multiplex_impl_def)
  next
    case B_check
    then show ?thesis using r by (simp add: bumper_work_def bumper_multiplex_impl_def loop_work_def)
  next
    case B_wait
    with bi r show ?thesis
      using loop_work_wait [OF c, of "bumper_base s"] by (auto simp: bumper_inv_def bumper_work_def bumper_multiplex_impl_def)
  qed (use r in \<open>simp_all add: bumper_work_def bumper_multiplex_impl_def\<close>)
  show "hello_work idle skip (bumper_multiplex_impl T s) \<le> hello_work idle skip s"
  proof (cases "bumper s")
    case B_start_signal
    with hi show ?thesis
      using loop_work_signal [OF c, of "hello_base s"]
      by (cases "hello_world s") (auto simp: hello_inv_def hello_work_def bumper_multiplex_impl_def)
  qed (cases "hello_world s"; simp add: hello_work_def bumper_multiplex_impl_def)+
qed

lemma world_step_works:
  assumes c: "wait_signal_contract T idle skip" and i: "world_inv idle skip s" and s: "world_step T s s'"
  shows "hello_work idle skip s' + bumper_work idle skip s' < hello_work idle skip s + bumper_work idle skip s"
  using s
  by (rule world_stepE)
    (use hello_step_works [OF c i] bumper_step_works [OF c i] contract_waiting [OF c] in \<open>auto intro: add_less_le_mono add_le_less_mono\<close>)

text \<open>A base class with its contract, and a new task of it.\<close>

definition fresh_task :: "'s task_ops \<Rightarrow> ('s \<Rightarrow> condition_type) \<Rightarrow> ('s \<Rightarrow> condition_type) \<Rightarrow> 's \<Rightarrow> bool" where
  "fresh_task T idle skip new \<longleftrightarrow> wait_signal_contract T idle skip \<and> idle new = 0 \<and> skip new = 0"

interpretation hello_tasks: terminating "\<lambda>s. fresh_task T idle skip new \<and> s = start_world new" "world_step T"
  "\<lambda>s. wait_signal_contract T idle skip \<and> world_inv idle skip s" "\<lambda>s. hello_work idle skip s + bumper_work idle skip s"
  for T :: "'s task_ops" and idle skip new
  by unfold_locales (auto simp: fresh_task_def intro: start_world_inv world_step_inv world_step_works)

lemma start_world_work: "hello_work idle skip (start_world new) + bumper_work idle skip (start_world new) = 61"
  by (simp add: start_world_eq hello_work_def bumper_work_def)

lemma world_runs_bounded:
  assumes "fresh_task T idle skip new" "(world_step T ^^ n) (start_world new) s"
  shows "n \<le> 61 \<and> world_inv idle skip s"
  using hello_tasks.run_from_start [of n T "start_world new" s idle skip new] assms start_world_work [of idle skip new] by auto

section \<open>Properties\<close>

text \<open>No wake-up is lost: with any base class that keeps the contract of \<^verbatim>\<open>wait\<close> and \<^verbatim>\<open>signal\<close>, and
  under every interleaving of the two tasks, there is always a task that can run until both have
  finished, and after at most 61 actions both have finished; then, and only then,
  \<^verbatim>\<open>number_of_tasks\<close> is zero.\<close>

theorem hello_world_terminates:
  assumes "wait_signal_contract T idle skip" "idle new = 0" "skip new = 0"
    and "(world_step T ^^ n) (start_world new) s"
  shows "n \<le> 61 \<and> (number_of_tasks s = 0 \<longleftrightarrow> hello_world s = H_finished \<and> bumper s = B_finished) \<and>
    ((\<exists>s'. world_step T s s') \<longleftrightarrow> number_of_tasks s \<noteq> 0)"
proof -
  have i: "world_inv idle skip s" and n: "n \<le> 61"
    using world_runs_bounded [of T idle skip new n s] assms by (simp_all add: fresh_task_def)
  have t: "number_of_tasks s = 0 \<longleftrightarrow> hello_world s = H_finished \<and> bumper s = B_finished"
    using i by (auto simp: world_inv_def tasks_inv_def of_bool_def split: if_splits)
  with n world_progress [OF assms(1) i] show ?thesis by (auto elim: world_stepE)
qed

theorem hello_world_terminates_witness:
  "let s = start_world \<lparr>idle_mask = 0, skip_mask = 0\<rparr> in
     (\<exists>s'. world_step mask_ops s s') \<longleftrightarrow> number_of_tasks s \<noteq> 0"
  using hello_world_terminates [OF mask_ops_contract, of "\<lparr>idle_mask = 0, skip_mask = 0\<rparr>" 0]
  by (simp add: Let_def)

text \<open>A signal can reach a task that no longer exists: \<^verbatim>\<open>HelloWorld\<close> may see \<^verbatim>\<open>m_bumped\<close>, bump back and
  finish, which destroys it, between the two actions of \<^verbatim>\<open>hello_world->bump()\<close>.\<close>

theorem bump_can_signal_destroyed_task:
  "\<exists>s. reach (\<lambda>s. s = start_world \<lparr>idle_mask = 0, skip_mask = 0\<rparr>) (world_step mask_ops) s \<and>
     hello_world s = H_finished \<and> dangling s"
proof -
  let ?R = "reach (\<lambda>s. s = start_world \<lparr>idle_mask = 0, skip_mask = 0\<rparr>) (world_step mask_ops)"
  let ?w = "\<lambda>h hb b bb k n d. \<lparr>hello_world = h, hello_bumped = hb, hello_base = \<lparr>idle_mask = 0, skip_mask = 0\<rparr>,
    bumper = b, bumper_bumped = bb, bumper_base = \<lparr>idle_mask = 0, skip_mask = k\<rparr>, number_of_tasks = n, dangling = d\<rparr>"
  have hello: "?R s \<Longrightarrow> hello_world s \<noteq> H_finished \<Longrightarrow> \<not> waiting_op mask_ops (hello_base s) \<Longrightarrow> ?R (hello_multiplex_impl mask_ops s)" for s
    by (blast intro: reach_step hello_runs)
  have bump: "?R s \<Longrightarrow> bumper s \<noteq> B_finished \<Longrightarrow> \<not> waiting_op mask_ops (bumper_base s) \<Longrightarrow> ?R (bumper_multiplex_impl mask_ops s)" for s
    by (blast intro: reach_step bumper_runs)
  note defs = hello_multiplex_impl_def bumper_multiplex_impl_def mask_ops_def
  have "?R (?w H_start False B_start_bump False 0 2 False)"
    by (rule reach_init) (simp add: start_world_eq)
  from hello [OF this] have "?R (?w H_check False B_start_bump False 0 2 False)" by (simp add: defs)
  from bump [OF this] have "?R (?w H_check True B_start_signal False 0 2 False)" by (simp add: defs)
  from hello [OF this] have "?R (?w H_done_bump True B_start_signal False 0 2 False)" by (simp add: defs)
  from hello [OF this] have "?R (?w H_done_signal True B_start_signal True 0 2 False)" by (simp add: defs)
  from hello [OF this] have "?R (?w H_done_finish True B_start_signal True 1 2 False)" by (simp add: defs)
  from hello [OF this] have "?R (?w H_finished True B_start_signal True 1 1 False)" by (simp add: defs)
  from bump [OF this] show ?thesis by (intro exI conjI) (assumption | simp add: defs)+
qed

end
