(* ===== verification/Hello_Main.thy ===== *)
theory Hello_Main
  imports Hello_World
begin

text \<open>
  \<^verbatim>\<open>main\<close> of \<^verbatim>\<open>src/helloworld.cxx\<close> beside the two tasks: a task takes part after \<^verbatim>\<open>main\<close> has called its \<^verbatim>\<open>run\<close>, and \<^verbatim>\<open>main\<close>
  polls \<^verbatim>\<open>number_of_tasks\<close>. The engine runs no task, so \<^verbatim>\<open>engine.mainloop()\<close> changes nothing.
\<close>

section \<open>main\<close>

text \<open>The control points: before the two calls of \<^verbatim>\<open>run\<close>, in the loop with counter \<^verbatim>\<open>n\<close>, and after it.\<close>

datatype main_pc = Run_hello | Run_bumper | Poll nat | Main_left

record 's app =
  app_world :: "'s world"
  main_at :: main_pc

definition start_app :: "'s \<Rightarrow> 's app" where
  "start_app new = \<lparr>app_world = start_world new, main_at = Run_hello\<rparr>"

definition hello_main :: "'s app \<Rightarrow> 's app" where
  "hello_main s =
     s\<lparr>main_at :=
       (case main_at s of
          Run_hello \<Rightarrow> Run_bumper
        | Run_bumper \<Rightarrow> Poll 0
        | Poll n \<Rightarrow> if n < 100 \<and> number_of_tasks (app_world s) > 0 then Poll (n + 1) else Main_left
        | Main_left \<Rightarrow> Main_left)\<rparr>"

inductive app_step :: "'s task_ops \<Rightarrow> 's app \<Rightarrow> 's app \<Rightarrow> bool" for T :: "'s task_ops" where
  main_runs: "main_at s \<noteq> Main_left \<Longrightarrow> app_step T s (hello_main s)"
| pool_runs_hello: "main_at s \<noteq> Run_hello \<Longrightarrow> hello_world (app_world s) \<noteq> H_finished \<Longrightarrow>
    \<not> waiting_op T (hello_base (app_world s)) \<Longrightarrow> app_step T s (s\<lparr>app_world := hello_multiplex_impl T (app_world s)\<rparr>)"
| pool_runs_bumper: "main_at s \<noteq> Run_hello \<Longrightarrow> main_at s \<noteq> Run_bumper \<Longrightarrow> bumper (app_world s) \<noteq> B_finished \<Longrightarrow>
    \<not> waiting_op T (bumper_base (app_world s)) \<Longrightarrow> app_step T s (s\<lparr>app_world := bumper_multiplex_impl T (app_world s)\<rparr>)"

inductive_cases app_stepE: "app_step T s s'"

section \<open>The work left\<close>

definition main_work :: "main_pc \<Rightarrow> nat" where
  "main_work p = (case p of Run_hello \<Rightarrow> 103 | Run_bumper \<Rightarrow> 102 | Poll n \<Rightarrow> 101 - n | Main_left \<Rightarrow> 0)"

definition poll_ok :: "main_pc \<Rightarrow> bool" where
  "poll_ok p \<longleftrightarrow> (case p of Poll n \<Rightarrow> n \<le> 100 | _ \<Rightarrow> True)"

lemma hello_main_works:
  "poll_ok (main_at s) \<Longrightarrow> main_at s \<noteq> Main_left \<Longrightarrow>
    main_work (main_at (hello_main s)) < main_work (main_at s) \<and> poll_ok (main_at (hello_main s))"
  by (auto simp: hello_main_def main_work_def poll_ok_def split: main_pc.splits)

lemma app_step_cases:
  assumes "app_step T s s'"
  obtains "s' = hello_main s" "main_at s \<noteq> Main_left" "app_world s' = app_world s"
    | "main_at s' = main_at s" "world_step T (app_world s) (app_world s')"
  using assms by (rule app_stepE) (auto simp: hello_main_def intro: hello_runs bumper_runs)

definition app_work :: "('s \<Rightarrow> condition_type) \<Rightarrow> ('s \<Rightarrow> condition_type) \<Rightarrow> 's app \<Rightarrow> nat" where
  "app_work idle skip s = hello_work idle skip (app_world s) + bumper_work idle skip (app_world s) + main_work (main_at s)"

interpretation hello_app: terminating "\<lambda>s. fresh_task T idle skip new \<and> s = start_app new" "app_step T"
  "\<lambda>s. wait_signal_contract T idle skip \<and> world_inv idle skip (app_world s) \<and> poll_ok (main_at s)" "app_work idle skip"
  for T :: "'s task_ops" and idle skip new
proof
  show "wait_signal_contract T idle skip \<and> world_inv idle skip (app_world s) \<and> poll_ok (main_at s)"
    if "fresh_task T idle skip new \<and> s = start_app new" for s
    using that start_world_inv [of idle new skip] by (simp add: fresh_task_def start_app_def poll_ok_def)
  fix s t assume i: "wait_signal_contract T idle skip \<and> world_inv idle skip (app_world s) \<and> poll_ok (main_at s)" and st: "app_step T s t"
  from st show "wait_signal_contract T idle skip \<and> world_inv idle skip (app_world t) \<and> poll_ok (main_at t)"
    by (cases rule: app_step_cases) (use i hello_main_works [of s] world_step_inv [of T idle skip] in auto)
  from st show "app_work idle skip t < app_work idle skip s"
    by (cases rule: app_step_cases) (use i hello_main_works [of s] world_step_works [of T idle skip] in \<open>auto simp: app_work_def\<close>)
qed

section \<open>Properties\<close>



text \<open>
  The loop of main does not wait till both tasks have finished, as its comment says: it gives up after 100
  turns, and main then ends while the tasks still exist.
\<close>

theorem main_can_leave_early:
  "\<exists>s. reach (\<lambda>s. s = start_app new) (app_step T) s \<and> main_at s = Main_left \<and> number_of_tasks (app_world s) = 2"
proof -
  let ?R = "reach (\<lambda>s. s = start_app new) (app_step T)"
  let ?s = "\<lambda>p. (start_app new)\<lparr>main_at := p\<rparr>"
  have two: "number_of_tasks (app_world (?s p)) = 2" for p by (simp add: start_app_def start_world_eq)
  have go: "?R (?s p) \<Longrightarrow> p \<noteq> Main_left \<Longrightarrow> ?R (hello_main (?s p))" for p by (rule reach_step) (auto intro: main_runs)
  have "?R (?s Run_hello)" by (rule reach_init) (simp add: start_app_def)
  from go [OF this] have "?R (?s Run_bumper)" by (simp add: hello_main_def)
  from go [OF this] have 0: "?R (?s (Poll 0))" by (simp add: hello_main_def)
  have "?R (?s (Poll n))" if "n \<le> 100" for n
    using that
  proof (induction n)
    case (Suc n)
    then have "?R (hello_main (?s (Poll n)))" by (intro go) auto
    then show ?case using Suc.prems two [of "Poll n"] by (simp add: hello_main_def)
  qed (rule 0)
  from go [OF this [OF order_refl]] have "?R (?s Main_left)" by (simp add: hello_main_def)
  then show ?thesis using two by (intro exI [of _ "?s Main_left"]) simp
qed

end
