(* ===== verification/Run_Thread.thy ===== *)
theory Run_Thread
  imports Prelude
begin

text \<open>
  The task of \<^verbatim>\<open>src/runthread.cxx\<close>, which has two functions executed by the thread pool, one after
  the other. The queue of the thread pool is a parameter: every call of \<^verbatim>\<open>dispatch()\<close> returns some
  queue length, and the call has no effect when that length is the capacity.
\<close>

section \<open>factorial\<close>

text \<open>The loop \<^verbatim>\<open>while (n > 1) r *= n--\<close>; the product of two \<^verbatim>\<open>int\<close>s must fit.\<close>

function factorial_loop :: "int \<Rightarrow> int \<Rightarrow> int result" where
  "factorial_loop n r = (if n > 1 then bindE (to_int (r * n)) (\<lambda>r'. factorial_loop (n - 1) r') else Inr r)"
  by pat_completeness auto
termination
  by (relation "measure (\<lambda>(n, r). nat n)") auto

declare factorial_loop.simps [simp del]

definition factorial :: "int \<Rightarrow> int result" where
  "factorial n = factorial_loop n 1"

section \<open>The task\<close>

datatype task_state =
    Task_start | Task_dispatch_factorial | Task_hello | Task_dispatch_say_hello | Task_done

definition capacity :: int where
  "capacity = 2"

text \<open>
  The packaged tasks: the argument that was stored, whether the function was put into the queue,
  and how often it was.
\<close>

record thread_task =
  factorial_argument :: "int option"
  factorial_dispatched :: nat
  hello_stored :: bool
  hello_dispatched :: nat
  stdout :: string
  finished :: bool

definition new_thread_task :: thread_task where
  "new_thread_task = \<lparr>factorial_argument = None, factorial_dispatched = 0, hello_stored = False,
     hello_dispatched = 0, stdout = '''', finished = False\<rparr>"

definition thread_state_str_impl :: "task_state \<Rightarrow> string" where
  "thread_state_str_impl run_state =
     (case run_state of Task_start \<Rightarrow> ''Task_start'' | Task_dispatch_factorial \<Rightarrow> ''Task_dispatch_factorial''
      | Task_hello \<Rightarrow> ''Task_hello'' | Task_dispatch_say_hello \<Rightarrow> ''Task_dispatch_say_hello''
      | Task_done \<Rightarrow> ''Task_done'')"

text \<open>\<^verbatim>\<open>multiplex_impl\<close>: \<^verbatim>\<open>len\<close> is what \<^verbatim>\<open>dispatch()\<close> returns in this run, if it is called.\<close>

definition dispatch_factorial :: "int \<Rightarrow> thread_task \<Rightarrow> thread_task \<times> task_state" where
  "dispatch_factorial len t =
     (if len = capacity then (t, Task_dispatch_factorial)
      else (t\<lparr>factorial_dispatched := factorial_dispatched t + 1\<rparr>, Task_hello))"

definition dispatch_say_hello :: "int \<Rightarrow> thread_task \<Rightarrow> thread_task \<times> task_state" where
  "dispatch_say_hello len t =
     (if len = capacity then (t, Task_dispatch_say_hello)
      else (t\<lparr>hello_dispatched := hello_dispatched t + 1\<rparr>, Task_done))"

text \<open>The function \<^verbatim>\<open>get\<close> stands for \<^verbatim>\<open>AIPackagedTask::get\<close>.\<close>

definition thread_multiplex_impl :: "(thread_task \<Rightarrow> int result) \<Rightarrow> int \<Rightarrow> task_state \<Rightarrow> thread_task \<Rightarrow> (thread_task \<times> task_state) result" where
  "thread_multiplex_impl get len run_state t =
     (case run_state of
        Task_start \<Rightarrow> Inr (dispatch_factorial len (t\<lparr>factorial_argument := Some 5\<rparr>))
      | Task_dispatch_factorial \<Rightarrow> Inr (dispatch_factorial len t)
      | Task_hello \<Rightarrow> Inr (dispatch_say_hello len (t\<lparr>hello_stored := True\<rparr>))
      | Task_dispatch_say_hello \<Rightarrow> Inr (dispatch_say_hello len t)
      | Task_done \<Rightarrow>
          bindE (get t) (\<lambda>v.
            Inr (t\<lparr>stdout := stdout t @ ''The result of 5! = '' @ show_int v @ [CHR 0x0A], finished := True\<rparr>, Task_done)))"

text \<open>
  The task is run until it has finished; \<^verbatim>\<open>lengths\<close> are the results of the calls of \<^verbatim>\<open>dispatch()\<close>.
  \<^const>\<open>None\<close> when they are used up before.
\<close>

fun run_thread_task :: "(thread_task \<Rightarrow> int result) \<Rightarrow> int list \<Rightarrow> task_state \<Rightarrow> thread_task \<Rightarrow> thread_task option result" where
  "run_thread_task get lengths Task_done t = bindE (thread_multiplex_impl get 0 Task_done t) (\<lambda>(t', st). Inr (Some t'))"
| "run_thread_task get [] st t = Inr None"
| "run_thread_task get (len # lengths) st t =
     bindE (thread_multiplex_impl get len st t) (\<lambda>(t', st'). run_thread_task get lengths st' t')"

section \<open>What the task relies on\<close>

text \<open>A packaged task that has an argument and was put into the queue delivers what its function
  returns for that argument.\<close>

definition packaged_task_contract :: "(thread_task \<Rightarrow> int result) \<Rightarrow> bool" where
  "packaged_task_contract get \<longleftrightarrow>
     (\<forall>t n. factorial_argument t = Some n \<and> factorial_dispatched t \<ge> 1 \<longrightarrow> get t = factorial n)"

definition get_factorial :: "thread_task \<Rightarrow> int result" where
  "get_factorial t =
     (case factorial_argument t of
        None \<Rightarrow> Inl Exception
      | Some n \<Rightarrow> if factorial_dispatched t = 0 then Inl Exception else factorial n)"

section \<open>Lemmas\<close>

lemma fact_step: "n > 1 \<Longrightarrow> fact (nat n) = (n * fact (nat (n - 1)) :: int)"
  by (simp add: fact_num_eq_if nat_diff_distrib)

lemma fact_small: "\<not> n > 1 \<Longrightarrow> fact (nat n) = (1 :: int)"
proof -
  assume "\<not> n > 1"
  then have "nat n = 0 \<or> nat n = 1" by auto
  then show ?thesis by auto
qed

lemma factorial_loop_cases:
  assumes "1 \<le> r"
  shows "factorial_loop n r = Inl Arithmetic_overflow \<and> 2147483647 < r * fact (nat n) \<or>
    factorial_loop n r = Inr (r * fact (nat n)) \<and> (r * fact (nat n) \<le> 2147483647 \<or> n \<le> 1)"
  using assms
proof (induction n r rule: factorial_loop.induct)
  case (1 n r)
  show ?case
  proof (cases "n > 1")
    case False
    then show ?thesis by (simp add: factorial_loop.simps [of n] fact_small)
  next
    case True
    have f: "r * fact (nat n) = r * n * fact (nat (n - 1))"
      using fact_step [OF True] by (simp add: mult.assoc)
    have p: "1 \<le> r * n" using 1(2) True by (metis dual_order.strict_implies_order mult_mono' mult_1 zero_le_one)
    have "r * n * 1 \<le> r * n * fact (nat (n - 1))"
      using p by (intro mult_left_mono) (simp_all add: fact_ge_1)
    then have le: "r * n \<le> r * fact (nat n)" by (simp only: f mult_1_right)
    show ?thesis
    proof (cases "r * n \<le> 2147483647")
      case fits: True
      then have "to_int (r * n) = Inr (r * n)" using p by simp
      with 1(1) [OF True, of "r * n"] p f fits True show ?thesis
        by (auto simp: factorial_loop.simps [of n] fact_small)
    next
      case False
      then have "to_int (r * n) = Inl Arithmetic_overflow" by (simp add: to_int_def)
      with True False le show ?thesis by (simp add: factorial_loop.simps [of n])
    qed
  qed
qed

lemma factorial_value: "n \<le> 12 \<Longrightarrow> factorial n = Inr (fact (nat n))"
proof -
  assume "n \<le> 12"
  then have "(fact (nat n) :: int) \<le> fact 12" by (intro fact_mono) auto
  also have "\<dots> = 479001600" by (simp add: fact_numeral)
  finally show ?thesis using factorial_loop_cases [of 1 n] by (auto simp: factorial_def)
qed

lemma factorial_overflow: "13 \<le> n \<Longrightarrow> factorial n = Inl Arithmetic_overflow"
proof -
  assume n: "13 \<le> n"
  have "(6227020800 :: int) = fact 13" by (simp add: fact_numeral)
  also have "\<dots> \<le> fact (nat n)" using n by (intro fact_mono) auto
  finally show ?thesis using n factorial_loop_cases [of 1 n] by (auto simp: factorial_def)
qed

lemma show_120: "show_int 120 = ''120''"
  by code_simp

lemma full_queue_waits:
  "thread_multiplex_impl get capacity Task_dispatch_factorial t = Inr (t, Task_dispatch_factorial)"
  "thread_multiplex_impl get capacity Task_dispatch_say_hello t = Inr (t, Task_dispatch_say_hello)"
  by (simp_all add: thread_multiplex_impl_def dispatch_factorial_def dispatch_say_hello_def)

lemma replicate_full:
  "run_thread_task get (replicate j capacity @ ls) Task_dispatch_factorial t = run_thread_task get ls Task_dispatch_factorial t"
  "run_thread_task get (replicate j capacity @ ls) Task_dispatch_say_hello t = run_thread_task get ls Task_dispatch_say_hello t"
  by (induction j) (simp_all add: full_queue_waits)

lemma full_then_factorial:
  assumes "a \<noteq> capacity"
  shows "run_thread_task get (replicate j capacity @ a # ls) Task_start t =
    run_thread_task get ls Task_hello (t\<lparr>factorial_argument := Some 5, factorial_dispatched := factorial_dispatched t + 1\<rparr>)"
  using assms
  by (cases j) (simp_all add: thread_multiplex_impl_def dispatch_factorial_def replicate_full)

lemma full_then_hello:
  assumes "b \<noteq> capacity"
  shows "run_thread_task get (replicate k capacity @ b # ls) Task_hello t =
    run_thread_task get ls Task_done (t\<lparr>hello_stored := True, hello_dispatched := hello_dispatched t + 1\<rparr>)"
  using assms
  by (cases k) (simp_all add: thread_multiplex_impl_def dispatch_say_hello_def replicate_full)

section \<open>Properties\<close>

text \<open>\<^verbatim>\<open>factorial\<close> returns n! as long as that fits in an \<^verbatim>\<open>int\<close>, that is up to n = 12 (and 1 for every
  n below 2); for every larger n the multiplication overflows.\<close>

theorem factorial_correct:
  "factorial n = (if n \<le> 12 then Inr (fact (nat n)) else Inl Arithmetic_overflow)"
  by (simp add: factorial_value factorial_overflow)

text \<open>However often the queue of the thread pool is full, the task tries again until there is
  room: it dispatches each of its two functions exactly once and ends with the printed factorial
  of five.\<close>

theorem thread_task_finishes:
  assumes "packaged_task_contract get" "a \<noteq> capacity" "b \<noteq> capacity"
  shows "\<exists>t. run_thread_task get (replicate j capacity @ a # replicate k capacity @ b # rest) Task_start new_thread_task = Inr (Some t) \<and>
    finished t \<and> factorial_dispatched t = 1 \<and> hello_dispatched t = 1 \<and>
    stdout t = ''The result of 5! = 120'' @ [CHR 0x0A]"
  using assms
  by (simp add: full_then_factorial full_then_hello thread_multiplex_impl_def packaged_task_contract_def factorial_value
      new_thread_task_def fact_numeral show_120)

theorem thread_task_finishes_witness:
  "\<exists>t. run_thread_task get_factorial (replicate 3 capacity @ 0 # replicate 1 capacity @ 1 # []) Task_start new_thread_task = Inr (Some t) \<and>
    finished t \<and> factorial_dispatched t = 1 \<and> hello_dispatched t = 1 \<and>
    stdout t = ''The result of 5! = 120'' @ [CHR 0x0A]"
  by (rule thread_task_finishes) (simp_all add: capacity_def packaged_task_contract_def get_factorial_def)

end
