(* ===== verification/Run_Thread_Main.thy ===== *)
theory Run_Thread_Main
  imports Run_Thread
begin

text \<open>
  The whole program \<^verbatim>\<open>src/runthread.cxx\<close> under every interleaving: the task of \<^verbatim>\<open>Run_Thread\<close>, the queue of its two functions, any number of worker
  threads that execute them, the gate between the functions, and \<^verbatim>\<open>main\<close>. Of the submodules it is used that \<^verbatim>\<open>dispatch\<close> returns the length of the
  queue before the call, that the task then waits until its function has returned, that the queue is first in, first out, and that \<^verbatim>\<open>wait\<close>
  on the gate returns when the gate is open.
\<close>

section \<open>The program\<close>

datatype job = Job_factorial int | Job_sayhello

text \<open>A worker thread: \<^verbatim>\<open>factorial\<close> before the gate is opened and after, \<^verbatim>\<open>sayhello\<close> before the gate is passed and after.\<close>

datatype worker = Idle | Factorial_open int | Factorial_loop int | Hello_gate | Hello_print

record program =
  task :: thread_task
  state :: task_state
  task_waits :: bool
  task_queue :: "job list"
  workers :: "nat \<Rightarrow> worker"
  gate_open :: bool
  factorial_result :: "int option"
  main_left :: bool

definition program_start :: program where
  "program_start =
     \<lparr>task = new_thread_task, state = Task_start, task_waits = False, task_queue = [], workers = (\<lambda>_. Idle), gate_open = False,
      factorial_result = None, main_left = False\<rparr>"

text \<open>\<^verbatim>\<open>AIPackagedTask::get\<close>, which must not be called before the function has returned.\<close>

definition result_of :: "int option \<Rightarrow> thread_task \<Rightarrow> int result" where
  "result_of r t = (case r of None \<Rightarrow> Inl Exception | Some v \<Rightarrow> Inr v)"

text \<open>A run of the task: what \<^verbatim>\<open>multiplex_impl\<close> dispatches is put into the queue, and the task waits for it.\<close>

definition task_run :: "program \<Rightarrow> program result" where
  "task_run s =
     bindE (thread_multiplex_impl (result_of (factorial_result s)) (int (length (task_queue s))) (state s) (task s)) (\<lambda>(t, st).
       let s1 = s\<lparr>task := t, state := st\<rparr> in
       if factorial_dispatched t > factorial_dispatched (task s) then
         (case factorial_argument t of
            None \<Rightarrow> Inl Exception
          | Some n \<Rightarrow> Inr (s1\<lparr>task_queue := task_queue s1 @ [Job_factorial n], task_waits := True\<rparr>))
       else if hello_dispatched t > hello_dispatched (task s) then
         Inr (s1\<lparr>task_queue := task_queue s1 @ [Job_sayhello], task_waits := True\<rparr>)
       else Inr s1)"

text \<open>An action of a worker thread; \<^const>\<open>None\<close> while it waits for a job or for the gate.\<close>

definition worker_act :: "nat \<Rightarrow> program \<Rightarrow> program result option" where
  "worker_act i s =
     (let go = (\<lambda>w s. s\<lparr>workers := (workers s)(i := w)\<rparr>) in
      case workers s i of
        Idle \<Rightarrow>
          (case task_queue s of
             [] \<Rightarrow> None
           | Job_factorial n # q \<Rightarrow> Some (Inr (go (Factorial_open n) (s\<lparr>task_queue := q\<rparr>)))
           | Job_sayhello # q \<Rightarrow> Some (Inr (go Hello_gate (s\<lparr>task_queue := q\<rparr>))))
      | Factorial_open n \<Rightarrow> Some (Inr (go (Factorial_loop n) (s\<lparr>gate_open := True\<rparr>)))
      | Factorial_loop n \<Rightarrow> Some (bindE (factorial n) (\<lambda>r. Inr (go Idle (s\<lparr>factorial_result := Some r, task_waits := False\<rparr>))))
      | Hello_gate \<Rightarrow> if gate_open s then Some (Inr (go Hello_print s)) else None
      | Hello_print \<Rightarrow>
          Some (Inr (go Idle (s\<lparr>task := (task s)\<lparr>stdout := stdout (task s) @ ''Hello!'' @ [CHR 0x0A]\<rparr>, task_waits := False\<rparr>))))"

text \<open>The program with \<^verbatim>\<open>k\<close> worker threads. \<^verbatim>\<open>main\<close> polls until the task has finished.\<close>

inductive program_step :: "nat \<Rightarrow> program \<Rightarrow> program \<Rightarrow> bool" for k where
  task_runs: "\<not> task_waits s \<Longrightarrow> \<not> finished (task s) \<Longrightarrow> task_run s = Inr s' \<Longrightarrow> program_step k s s'"
| worker_acts: "i < k \<Longrightarrow> worker_act i s = Some (Inr s') \<Longrightarrow> program_step k s s'"
| main_leaves: "finished (task s) \<Longrightarrow> \<not> main_left s \<Longrightarrow> program_step k s (s\<lparr>main_left := True\<rparr>)"

section \<open>The stages of the program\<close>

text \<open>The task after it has dispatched one function and both, and what is printed.\<close>

definition task_at :: "nat \<Rightarrow> nat \<Rightarrow> string \<Rightarrow> bool \<Rightarrow> thread_task" where
  "task_at f h out fin =
     \<lparr>factorial_argument = (if f = 0 then None else Some 5), factorial_dispatched = f, hello_stored = (0 < h), hello_dispatched = h, stdout = out, finished = fin\<rparr>"

definition hello_line :: string where
  "hello_line = ''Hello!'' @ [CHR 0x0A]"

definition result_line :: string where
  "result_line = ''The result of 5! = '' @ show_int 120 @ [CHR 0x0A]"

text \<open>The state of the program in each stage, with the worker thread \<^verbatim>\<open>i\<close> that has the job.\<close>

definition stage :: "nat \<Rightarrow> nat \<Rightarrow> program" where
  "stage p i =
     \<lparr>task = (if p = 0 then task_at 0 0 [] False else if p \<le> 4 then task_at 1 0 [] False else if p \<le> 7 then task_at 1 1 [] False
        else if p = 8 then task_at 1 1 hello_line False else task_at 1 1 (hello_line @ result_line) True),
      state = (if p = 0 then Task_start else if p \<le> 4 then Task_hello else Task_done),
      task_waits = (p \<in> {1, 2, 3, 5, 6, 7}),
      task_queue = (if p = 1 then [Job_factorial 5] else if p = 5 then [Job_sayhello] else []),
      workers = (\<lambda>_. Idle)(i := if p = 2 then Factorial_open 5 else if p = 3 then Factorial_loop 5 else if p = 6 then Hello_gate
        else if p = 7 then Hello_print else Idle),
      gate_open = (p \<ge> 3), factorial_result = (if p \<le> 3 then None else Some 120), main_left = (p = 10)\<rparr>"

definition program_ok :: "nat \<Rightarrow> program \<Rightarrow> bool" where
  "program_ok k s \<longleftrightarrow> (\<exists>p i. p \<le> 10 \<and> i < k \<and> s = stage p i)"

lemma program_ok_stage: "p \<le> 10 \<Longrightarrow> i < k \<Longrightarrow> program_ok k (stage p i)"
  by (auto simp: program_ok_def)

lemma program_start_stage: "program_start = stage 0 0"
  by (auto simp: program_start_def stage_def task_at_def new_thread_task_def)

text \<open>The number of the stage, and how many stages are left.\<close>

definition stage_number :: "nat \<Rightarrow> program \<Rightarrow> nat" where
  "stage_number k s =
     (case state s of
        Task_start \<Rightarrow> 0
      | Task_hello \<Rightarrow> if \<not> task_waits s then 4 else if task_queue s \<noteq> [] then 1 else if gate_open s then 3 else 2
      | _ \<Rightarrow> if main_left s then 10 else if finished (task s) then 9 else if \<not> task_waits s then 8 else if task_queue s \<noteq> [] then 5
          else if \<exists>i < k. workers s i = Hello_print then 7 else 6)"

definition program_work :: "nat \<Rightarrow> program \<Rightarrow> nat" where
  "program_work k s = 10 - stage_number k s"

lemma upto_10E: "p \<le> 10 \<Longrightarrow> p \<in> {0, 1, 2, 3, 4, 5, 6, 7, 8, 9, 10 :: nat}"
  by (simp, presburger)

lemma idle_update [simp]: "(\<lambda>_. c)(i := c) = (\<lambda>_. c)"
  by (simp add: fun_eq_iff)

lemma stage_number [simp]: "p \<le> 10 \<Longrightarrow> i < k \<Longrightarrow> stage_number k (stage p i) = p"
  by (drule upto_10E) (auto simp: stage_number_def stage_def task_at_def)

lemma factorial_5: "factorial 5 = Inr 120"
  by (simp add: factorial_def factorial_loop.simps)

lemmas stage_defs = stage_def task_at_def hello_line_def result_line_def

text \<open>In a stage in which all worker threads are idle it does not matter which one had a job before.\<close>

lemma stage_idle: "p \<in> {0, 1, 4, 5, 8, 9, 10} \<Longrightarrow> stage p i = stage p j"
  by (auto simp: stage_def)

lemma task_stages:
  "task_run (stage 0 i) = Inr (stage 1 i)" "task_run (stage 4 i) = Inr (stage 5 i)" "task_run (stage 8 i) = Inr (stage 9 i)"
  by (simp_all add: task_run_def stage_defs thread_multiplex_impl_def dispatch_factorial_def dispatch_say_hello_def capacity_def result_of_def)

lemma worker_stages:
  "worker_act j (stage 1 i) = Some (Inr (stage 2 j))" "worker_act j (stage 2 i) = (if j = i then Some (Inr (stage 3 i)) else None)"
  "worker_act j (stage 3 i) = (if j = i then Some (Inr (stage 4 i)) else None)" "worker_act j (stage 5 i) = Some (Inr (stage 6 j))"
  "worker_act j (stage 6 i) = (if j = i then Some (Inr (stage 7 i)) else None)"
  "worker_act j (stage 7 i) = (if j = i then Some (Inr (stage 8 i)) else None)"
  by (simp_all add: worker_act_def stage_defs factorial_5 new_thread_task_def)

lemma worker_idle: "p \<in> {0, 4, 8, 9, 10} \<Longrightarrow> worker_act j (stage p i) = None"
  by (auto simp: worker_act_def stage_def)

lemma stage_tasks:
  "task_waits (stage p i) \<longleftrightarrow> p \<in> {1, 2, 3, 5, 6, 7}" "finished (task (stage p i)) \<longleftrightarrow> 9 \<le> p" "main_left (stage p i) \<longleftrightarrow> p = 10"
  by (auto simp: stage_def task_at_def)

lemma main_stage: "(stage 9 i)\<lparr>main_left := True\<rparr> = stage 10 i"
  by (simp add: stage_def)

text \<open>Every action brings the program to its next stage, and before the last stage there is one.\<close>

lemma program_step_stage:
  assumes "program_step k (stage p i) s'" "p \<le> 10" "i < k"
  shows "p < 10 \<and> (\<exists>j < k. s' = stage (p + 1) j)"
  using assms(1)
proof cases
  case task_runs
  then have "p \<in> {0, 4, 8}" using upto_10E [OF assms(2)] unfolding stage_tasks by auto
  then show ?thesis using task_runs(3) task_stages assms(3) by auto
next
  case (worker_acts j)
  then have "p \<in> {1, 2, 3, 5, 6, 7}" using upto_10E [OF assms(2)] worker_idle [of p j i] by auto
  then show ?thesis using worker_acts by (auto simp: worker_stages simp del: One_nat_def split: if_splits)
next
  case main_leaves
  then have "p = 9" using upto_10E [OF assms(2)] unfolding stage_tasks by auto
  then show ?thesis using main_leaves(1) main_stage assms(3) by auto
qed

lemma program_stage_step: "p < 10 \<Longrightarrow> i < k \<Longrightarrow> \<exists>s'. program_step k (stage p i) s'"
proof -
  assume p: "p < 10" and i: "i < k"
  then consider "p \<in> {0, 4, 8}" | "p \<in> {1, 2, 3, 5, 6, 7}" | "p = 9" by force
  then show ?thesis
  proof cases
    case 1
    then obtain s' where "task_run (stage p i) = Inr s'" using task_stages by auto
    then show ?thesis using 1 by (intro exI task_runs) (auto simp: stage_tasks)
  next
    case 2
    then show ?thesis using worker_stages [of i i] i by (auto intro: worker_acts)
  next
    case 3
    then show ?thesis using main_leaves [of "stage 9 i" k] by (auto simp: stage_tasks)
  qed
qed

interpretation program: terminating "\<lambda>s. 0 < k \<and> s = program_start" "program_step k" "program_ok k" "program_work k" for k
proof
  show "program_ok k s" if "0 < k \<and> s = program_start" for s
    using that by (auto simp: program_start_stage intro: program_ok_stage)
  fix s t assume "program_ok k s" and step: "program_step k s t"
  then obtain p i where s: "p \<le> 10" "i < k" "s = stage p i" by (auto simp: program_ok_def)
  with program_step_stage step obtain j where t: "p < 10" "j < k" "t = stage (p + 1) j" by blast
  show "program_ok k t" using t by (auto intro: program_ok_stage)
  show "program_work k t < program_work k s" using s t by (simp add: program_work_def)
qed

section \<open>Properties\<close>

text \<open>
  C38. With at least one worker thread, under every interleaving, the program goes on until \<^verbatim>\<open>main\<close> has left, which takes at most ten actions. No action
  fails, the queue is never full, so that the task never has to dispatch a function twice, and at the end \<^verbatim>\<open>sayhello\<close> has printed its line before the task
  printed the factorial.
\<close>

theorem run_thread_program:
  assumes "0 < k" "(program_step k ^^ n) program_start s"
  shows "n \<le> 10 \<and> length (task_queue s) < nat capacity \<and> state s \<notin> {Task_dispatch_factorial, Task_dispatch_say_hello} \<and>
    (\<forall>i < k. \<forall>e. worker_act i s \<noteq> Some (Inl e)) \<and>
    (if \<exists>s'. program_step k s s' then n < 10 else main_left s \<and> stdout (task s) = hello_line @ result_line)"
proof -
  have "program_ok k s \<and> n + program_work k s \<le> 10"
    using program.run_from_start [of n k program_start s] assms by (auto simp: program_work_def)
  then obtain p i where s: "p \<le> 10" "i < k" "s = stage p i" "n \<le> p" by (auto simp: program_ok_def program_work_def)
  have "worker_act j s \<noteq> Some (Inl e)" for j e
    using upto_10E [OF s(1)] unfolding s(3) by (auto simp: worker_stages worker_idle simp del: One_nat_def split: if_splits)
  moreover have "length (task_queue s) < nat capacity" "state s \<notin> {Task_dispatch_factorial, Task_dispatch_say_hello}"
    using s(3) by (simp_all add: stage_def capacity_def)
  moreover have "if \<exists>s'. program_step k s s' then n < 10 else main_left s \<and> stdout (task s) = hello_line @ result_line"
  proof -
    have "(\<exists>s'. program_step k s s') \<longleftrightarrow> p < 10" using program_step_stage [of k p i] program_stage_step [of p i k] s by blast
    then show ?thesis using s by (auto simp: stage_def task_at_def)
  qed
  ultimately show ?thesis using s by simp
qed

text \<open>The first two actions with one worker thread.\<close>

theorem run_thread_program_witness:
  "\<exists>s. (program_step 1 ^^ 2) program_start s \<and> length (task_queue s) < nat capacity \<and> (\<exists>s'. program_step 1 s s')"
proof -
  have "program_step 1 (stage 0 0) (stage 1 0)" using task_stages(1) by (intro task_runs) (simp_all add: stage_tasks)
  moreover have "program_step 1 (stage 1 0) (stage 2 0)" using worker_stages(1) [of 0 0] by (auto intro: worker_acts [of 0])
  ultimately have r: "(program_step 1 ^^ 2) program_start (stage 2 0)" unfolding program_start_stage numeral_2_eq_2 by auto
  from run_thread_program [OF _ r] show ?thesis using r by (intro exI [of _ "stage 2 0"]) (auto simp: stage_tasks split: if_splits)
qed

end
