(* ===== verification/Regex.thy ===== *)
theory Regex
  imports Prelude
begin

text \<open>
  The part of \<^verbatim>\<open>std::regex\<close> (ECMAScript grammar, no multiline) that \<^verbatim>\<open>src/rewrite_header.cxx\<close> uses:
  regular expressions with groups, a backtracking matcher that lists all ways to match in the
  order in which they are tried, and \<^verbatim>\<open>regex_match\<close>, \<^verbatim>\<open>regex_search\<close>, \<^verbatim>\<open>regex_replace\<close> and the token
  iterator on top of it.
\<close>

section \<open>Characters\<close>

definition is_space :: "char \<Rightarrow> bool" where
  "is_space c \<longleftrightarrow> c \<in> {CHR '' '', CHR 0x09, CHR 0x0A, CHR 0x0B, CHR 0x0C, CHR 0x0D}"

definition is_digit :: "char \<Rightarrow> bool" where
  "is_digit c \<longleftrightarrow> 48 \<le> (of_char c :: nat) \<and> (of_char c :: nat) \<le> 57"

definition is_lower :: "char \<Rightarrow> bool" where
  "is_lower c \<longleftrightarrow> 97 \<le> (of_char c :: nat) \<and> (of_char c :: nat) \<le> 122"

definition is_upper :: "char \<Rightarrow> bool" where
  "is_upper c \<longleftrightarrow> 65 \<le> (of_char c :: nat) \<and> (of_char c :: nat) \<le> 90"

definition to_upper :: "char \<Rightarrow> char" where
  "to_upper c = (if is_lower c then char_of ((of_char c :: nat) - 32) else c)"

definition to_lower :: "char \<Rightarrow> char" where
  "to_lower c = (if is_upper c then char_of ((of_char c :: nat) + 32) else c)"

section \<open>Regular expressions\<close>

text \<open>A quantified expression is greedy; a group is numbered by its opening parenthesis.\<close>

datatype regex =
    Eps
  | Cls "char \<Rightarrow> bool"
  | Bol
  | Eol
  | Seq regex regex
  | Alt regex regex
  | Star regex
  | Group nat regex

definition Opt :: "regex \<Rightarrow> regex" where
  "Opt r = Alt r Eps"

definition Plus :: "regex \<Rightarrow> regex" where
  "Plus r = Seq r (Star r)"

definition Any :: regex where
  "Any = Cls (\<lambda>c. c \<noteq> CHR 0x0A \<and> c \<noteq> CHR 0x0D)"

definition One_of :: "string \<Rightarrow> regex" where
  "One_of cs = Cls (\<lambda>c. c \<in> set cs)"

primrec Lit :: "string \<Rightarrow> regex" where
  "Lit [] = Eps"
| "Lit (c # cs) = Seq (One_of [c]) (Lit cs)"

primrec Seqs :: "regex list \<Rightarrow> regex" where
  "Seqs [] = Eps"
| "Seqs (r # rs) = Seq r (Seqs rs)"

abbreviation Space :: regex where
  "Space \<equiv> Cls is_space"

abbreviation Digit :: regex where
  "Digit \<equiv> Cls is_digit"

section \<open>Matching\<close>

type_synonym captures = "(nat \<times> string) list"

text \<open>
  The ways to match a prefix of \<^verbatim>\<open>s\<close>, the part that is left and the groups, in the order of the
  backtracking. \<^verbatim>\<open>n\<close> is the length of the whole subject; an iteration of a star must consume
  something.
\<close>

function ways :: "regex \<Rightarrow> nat \<Rightarrow> string \<Rightarrow> captures \<Rightarrow> (string \<times> captures) list" where
  "ways Eps n s cs = [(s, cs)]"
| "ways (Cls p) n s cs = (case s of c # t \<Rightarrow> if p c then [(t, cs)] else [] | [] \<Rightarrow> [])"
| "ways Bol n s cs = (if length s = n then [(s, cs)] else [])"
| "ways Eol n s cs = (if s = [] then [(s, cs)] else [])"
| "ways (Seq r1 r2) n s cs = concat (map (\<lambda>(t, ds). ways r2 n t ds) (ways r1 n s cs))"
| "ways (Alt r1 r2) n s cs = ways r1 n s cs @ ways r2 n s cs"
| "ways (Star r) n s cs =
     concat (map (\<lambda>(t, ds). if length t < length s then ways (Star r) n t ds else []) (ways r n s cs)) @ [(s, cs)]"
| "ways (Group i r) n s cs =
     map (\<lambda>(t, ds). (t, (i, take (length s - length t) s) # ds)) (ways r n s cs)"
  by pat_completeness auto
termination
  by (relation "measures [\<lambda>(r, n, s, cs). size r, \<lambda>(r, n, s, cs). length s]") auto

definition capture :: "captures \<Rightarrow> nat \<Rightarrow> string" where
  "capture cs i = (case map_of cs i of Some t \<Rightarrow> t | None \<Rightarrow> [])"

definition regex_match :: "regex \<Rightarrow> string \<Rightarrow> captures option" where
  "regex_match r s = map_option snd (List.find (\<lambda>(t, cs). t = []) (ways r (length s) s []))"

text \<open>
  \<^verbatim>\<open>regex_search\<close>: the leftmost match; the text before it, the match itself, the rest and the
  groups.
\<close>

primrec search_from :: "regex \<Rightarrow> nat \<Rightarrow> string \<Rightarrow> (string \<times> string \<times> string \<times> captures) option" where
  "search_from r n [] =
     (case ways r n [] [] of (t, cs) # _ \<Rightarrow> Some ([], [], t, cs) | [] \<Rightarrow> None)"
| "search_from r n (c # s) =
     (case ways r n (c # s) [] of
        (t, cs) # _ \<Rightarrow> Some ([], take (length (c # s) - length t) (c # s), t, cs)
      | [] \<Rightarrow> map_option (\<lambda>(pre, m, t, cs). (c # pre, m, t, cs)) (search_from r n s))"

definition regex_search :: "regex \<Rightarrow> string \<Rightarrow> captures option" where
  "regex_search r s = map_option (\<lambda>(pre, m, t, cs). cs) (search_from r (length s) s)"

text \<open>
  Successive matches, as \<^verbatim>\<open>sregex_iterator\<close> finds them: the text before each match, the match and its
  groups, and the text after the last one. The expressions of the program that are iterated do not
  match the empty string, which the guard asks for.
\<close>

function all_matches :: "regex \<Rightarrow> nat \<Rightarrow> string \<Rightarrow> (string \<times> string \<times> captures) list \<times> string" where
  "all_matches r n s =
     (case search_from r n s of
        Some (pre, m, t, cs) \<Rightarrow>
          if length t < length s
          then (let (ms, suffix) = all_matches r n t in ((pre, m, cs) # ms, suffix))
          else ([], s)
      | None \<Rightarrow> ([], s))"
  by pat_completeness auto
termination
  by (relation "measure (\<lambda>(r, n, s). length s)") auto

declare all_matches.simps [simp del]

text \<open>The replacement text: \<^verbatim>\<open>$$\<close> is a dollar, \<^verbatim>\<open>$&\<close> the match.\<close>

fun format_replacement :: "string \<Rightarrow> string \<Rightarrow> string" where
  "format_replacement m [] = []"
| "format_replacement m [c] = [c]"
| "format_replacement m (c # d # fmt) =
     (if c = CHR ''$'' \<and> d = CHR ''$'' then CHR ''$'' # format_replacement m fmt
      else if c = CHR ''$'' \<and> d = CHR ''&'' then m @ format_replacement m fmt
      else c # format_replacement m (d # fmt))"

definition regex_replace :: "string \<Rightarrow> regex \<Rightarrow> string \<Rightarrow> string" where
  "regex_replace s r fmt =
     (let (ms, suffix) = all_matches r (length s) s in
      concat (map (\<lambda>(pre, m, cs). pre @ format_replacement m fmt) ms) @ suffix)"

text \<open>\<^verbatim>\<open>sregex_token_iterator\<close> with index -1: the texts between the matches.\<close>

definition regex_split :: "string \<Rightarrow> regex \<Rightarrow> string list" where
  "regex_split s r =
     (let (ms, suffix) = all_matches r (length s) s in
      if ms = [] then [s] else map fst ms @ (if suffix = [] then [] else [suffix]))"

section \<open>Lemmas\<close>

lemma regex_replace_no_match: "search_from r (length s) s = None \<Longrightarrow> regex_replace s r fmt = s"
  by (simp add: regex_replace_def all_matches.simps [of r])

end
