(* ===== verification/Rewrite_Header.thy ===== *)
theory Rewrite_Header
  imports Regex
begin

text \<open>
  The program \<^verbatim>\<open>src/rewrite_header.cxx\<close>, which rewrites the comment at the top of a source file: the
  class \<^verbatim>\<open>Header\<close>, the state machine \<^verbatim>\<open>process\<close> over the lines of the file, and the printing of the
  new header. \<^verbatim>\<open>boost::trim_left_copy\<close> and the current year are parameters.
\<close>

section \<open>Strings\<close>

text \<open>\<^verbatim>\<open>str.substr(0, str.find_last_not_of(pattern) + 1)\<close>\<close>

definition strip_end :: "(char \<Rightarrow> bool) \<Rightarrow> string \<Rightarrow> string" where
  "strip_end p s = rev (dropWhile p (rev s))"

definition trim_right :: "string \<Rightarrow> string" where
  "trim_right str = strip_end is_space str"

section \<open>Header\<close>

record Header =
  m_doxygen_start :: string
  m_doxygen_lead :: string
  m_doxygen_end :: string
  m_module_name :: string
  m_module_desc :: string
  m_old_module_name :: string
  m_brief :: string
  m_copyright_years :: "int list"
  m_author :: string
  m_signature :: "string list"
  m_license :: "string list"
  m_trailing :: "string list"

definition new_Header :: "string \<Rightarrow> string \<Rightarrow> Header" where
  "new_Header module_name module_desc =
     \<lparr>m_doxygen_start = ''/**'', m_doxygen_lead = '' * '', m_doxygen_end = '' */'',
      m_module_name = module_name, m_module_desc = module_desc, m_old_module_name = '''', m_brief = '''',
      m_copyright_years = [], m_author = '''', m_signature = [], m_license = [], m_trailing = []\<rparr>"

definition add_current_year :: "int \<Rightarrow> Header \<Rightarrow> Header" where
  "add_current_year current_year h = h\<lparr>m_copyright_years := m_copyright_years h @ [current_year]\<rparr>"

definition set_module :: "string \<Rightarrow> string \<Rightarrow> Header \<Rightarrow> Header" where
  "set_module name desc h =
     (if m_module_name h = [] then h\<lparr>m_module_name := name, m_module_desc := desc\<rparr> else h)"

definition set_brief :: "string \<Rightarrow> Header \<Rightarrow> Header" where
  "set_brief desc h = h\<lparr>m_brief := desc\<rparr>"

definition add_copyright_year :: "int \<Rightarrow> Header \<Rightarrow> Header" where
  "add_copyright_year year h = h\<lparr>m_copyright_years := m_copyright_years h @ [year]\<rparr>"

definition set_author :: "string \<Rightarrow> Header \<Rightarrow> Header" where
  "set_author author h = h\<lparr>m_author := author\<rparr>"

definition add_signature_line :: "string \<Rightarrow> Header \<Rightarrow> Header" where
  "add_signature_line line h = h\<lparr>m_signature := m_signature h @ [line]\<rparr>"

definition set_part_of :: "string \<Rightarrow> Header \<Rightarrow> Header" where
  "set_part_of module_name h =
     (if m_module_name h = [] then h\<lparr>m_module_name := module_name\<rparr>
      else if m_module_name h \<noteq> module_name then h\<lparr>m_old_module_name := module_name\<rparr>
      else h)"

definition add_license_line :: "string \<Rightarrow> Header \<Rightarrow> Header" where
  "add_license_line line h = h\<lparr>m_license := m_license h @ [line]\<rparr>"

definition add_trailing_line :: "string \<Rightarrow> Header \<Rightarrow> Header" where
  "add_trailing_line line h = h\<lparr>m_trailing := m_trailing h @ [line]\<rparr>"

section \<open>Copyright lines\<close>

text \<open>\<^verbatim>\<open>(?:19|20)[\d][\d]\<close>\<close>

definition year_regexp_digits :: regex where
  "year_regexp_digits = Seqs [Alt (Lit ''19'') (Lit ''20''), Digit, Digit]"

text \<open>\<^verbatim>\<open>.*[Cc]opyright\s+[^\d]*((?:(?:19|20)[\d][\d](?:\s*[,-]\s*|\s+))*)(.*)\<close>\<close>

definition copyright_line_regexp :: regex where
  "copyright_line_regexp =
     Seqs [Star Any, One_of ''Cc'', Lit ''opyright'', Plus Space, Star (Cls (\<lambda>c. \<not> is_digit c)),
       Group 1 (Star (Seq year_regexp_digits
         (Alt (Seqs [Star Space, One_of '',-'', Star Space]) (Plus Space)))),
       Group 2 (Star Any)]"

text \<open>\<^verbatim>\<open>((?:19|20)[\d][\d])(?:\s*-\s*((?:19|20)[\d][\d]))?\<close>\<close>

definition year_regexp :: regex where
  "year_regexp =
     Seq (Group 1 year_regexp_digits)
       (Opt (Seqs [Star Space, Lit ''-'', Star Space, Group 2 year_regexp_digits]))"

text \<open>\<^verbatim>\<open>std::stoi\<close> of a string of digits.\<close>

definition stoi :: "string \<Rightarrow> int" where
  "stoi s = fold (\<lambda>c v. v * 10 + (int (of_char c) - 48)) s 0"

text \<open>The loop over the tokens: the groups 1 and 2 of each match.\<close>

definition add_year_range :: "captures \<Rightarrow> Header \<Rightarrow> Header" where
  "add_year_range cs h =
     (let range_begin = stoi (capture cs 1);
          range_end_str = capture cs 2;
          range_end = (if range_end_str = [] then range_begin else stoi range_end_str)
      in fold add_copyright_year (for_values range_begin range_end 1) h)"

definition decode_copyright_line :: "string \<Rightarrow> Header \<Rightarrow> Header" where
  "decode_copyright_line line h =
     (case regex_match copyright_line_regexp line of
        None \<Rightarrow> h
      | Some sm \<Rightarrow>
          let years = capture sm 1;
              h' = fold (\<lambda>(pre, m, cs). add_year_range cs) (fst (all_matches year_regexp (length years) years)) h
          in set_author (strip_end (\<lambda>c. c \<in> set '' .'') (capture sm 2)) h')"

section \<open>The canonical header\<close>

definition default_signature :: "string list" where
  "default_signature =
     [''RSA-1024 0x624ACAD5 1997-01-26                    Sign & Encrypt'',
      ''Fingerprint16 = 32 EC A7 B6 AC DB 65 A6  F6 F6 55 DD 1C DC FF 61'']"

definition default_license :: "string list" where
  "default_license =
     [''This program is free software: you can redistribute it and/or modify'',
      ''it under the terms of the GNU Affero General Public License as published'',
      ''by the Free Software Foundation, either version 3 of the License, or'',
      ''(at your option) any later version.'',
      '''',
      ''This program is distributed in the hope that it will be useful,'',
      ''but WITHOUT ANY WARRANTY; without even the implied warranty of'',
      ''MERCHANTABILITY or FITNESS FOR A PARTICULAR PURPOSE.  See the'',
      ''GNU Affero General Public License for more details.'',
      '''',
      ''You should have received a copy of the GNU Affero General Public License'',
      ''along with this program.  If not, see <http://www.gnu.org/licenses/>.'']"

text \<open>\<^verbatim>\<open>std::sort\<close> followed by \<^verbatim>\<open>erase(unique(...))\<close>.\<close>

definition sort_unique :: "int list \<Rightarrow> int list" where
  "sort_unique ys = remdups_adj (sort ys)"

text \<open>
  The replacement of the module name in the lines of the license. The old module name consists of
  letters, digits, \<^verbatim>\<open>_\<close> and \<^verbatim>\<open>-\<close>, which stand for themselves in a regular expression.
\<close>

definition rename_line :: "string \<Rightarrow> string \<Rightarrow> string \<Rightarrow> string" where
  "rename_line name old line =
     (let capitalized = (case name of c # cs \<Rightarrow> to_upper c # cs | [] \<Rightarrow> []);
          line1 = regex_replace line (Lit ''This program'') capitalized;
          line2 = regex_replace line1 (Lit ''this program'') name
      in case old of
           [] \<Rightarrow> line2
         | c # cs \<Rightarrow>
             let line3 = regex_replace line2 (Seqs [Bol, One_of [to_upper c, to_lower c], Lit cs]) capitalized
             in regex_replace line3 (Lit old) name)"

definition canonicalize :: "int \<Rightarrow> Header \<Rightarrow> Header" where
  "canonicalize current_year h0 =
     (let h1 = (if m_module_desc h0 = [] then h0\<lparr>m_module_desc := ''FIXME''\<rparr> else h0);
          h2 = (if m_brief h1 = [] then h1\<lparr>m_brief := ''FIXME''\<rparr> else h1);
          h3 = (if m_copyright_years h2 = [] then add_current_year current_year h2
                else h2\<lparr>m_copyright_years := sort_unique (m_copyright_years h2)\<rparr>);
          h4 = (if m_author h3 = [] then h3\<lparr>m_author := ''Carlo Wood''\<rparr> else h3);
          h5 = (if m_signature h4 = [] then h4\<lparr>m_signature := default_signature\<rparr> else h4);
          h6 = (if m_license h5 = [] then h5\<lparr>m_license := default_license\<rparr> else h5)
      in if m_module_name h6 \<noteq> []
         then h6\<lparr>m_license := map (rename_line (m_module_name h6) (m_old_module_name h6)) (m_license h6)\<rparr>
         else h6)"

section \<open>Printing\<close>

definition nl :: string where
  "nl = [CHR 0x0A]"

definition print_line_to :: "Header \<Rightarrow> string \<Rightarrow> string" where
  "print_line_to h line =
     (if line = [] then trim_right (m_doxygen_lead h) else m_doxygen_lead h @ line) @ nl"

text \<open>The loop of \<^verbatim>\<open>print_on\<close> over the copyright years; the local variables are the record.\<close>

record year_loop =
  yl_separator :: string
  first_year :: int
  last_year :: int

definition year_body :: "int \<Rightarrow> int \<Rightarrow> year_loop \<times> string \<Rightarrow> year_loop \<times> string" where
  "year_body final_year year = (\<lambda>(l, os).
     let l1 = (if year = last_year l + 1 then l\<lparr>last_year := year\<rparr> else l) in
     if year = last_year l + 1 \<and> year \<noteq> final_year then (l1, os)
     else
       let (l2, os2) =
         (if first_year l1 \<noteq> 0 \<or> year = final_year then
            let fy = (if first_year l1 = 0 then year else first_year l1);
                os3 = os @ yl_separator l1 @ show_int fy;
                sep = (if last_year l1 > fy + 1 then '' - '' else '', '');
                os4 = (if last_year l1 > fy then os3 @ sep @ show_int (last_year l1) else os3);
                os5 = (if year = final_year \<and> year > max fy (last_year l1) then os4 @ '', '' @ show_int year else os4)
            in (l1\<lparr>yl_separator := '', '', first_year := fy\<rparr>, os5)
          else (l1, os))
       in (l2\<lparr>first_year := year, last_year := year\<rparr>, os2))"

definition print_years :: "int list \<Rightarrow> string result" where
  "print_years years =
     (if years = [] then Inl Out_of_range
      else Inr (snd (fold (year_body (last years)) years
             (\<lparr>yl_separator = ''@Copyright (C) '', first_year = 0, last_year = 0\<rparr>, ''''))))"

definition print_Header :: "Header \<Rightarrow> string result" where
  "print_Header h =
     bindE (print_years (m_copyright_years h)) (\<lambda>years. Inr (
       (if m_doxygen_start h \<noteq> [] then m_doxygen_start h @ nl else []) @
       (if m_module_name h \<noteq> []
        then m_doxygen_lead h @ m_module_name h @ '' -- '' @ m_module_desc h @ nl @ print_line_to h [] else []) @
       m_doxygen_lead h @ ''@file'' @ nl @
       m_doxygen_lead h @ ''@brief '' @ m_brief h @ nl @
       print_line_to h [] @
       m_doxygen_lead h @ years @ ''  '' @ m_author h @ ''.'' @ nl @
       print_line_to h [] @
       concat (map (print_line_to h) (m_signature h)) @
       (if m_module_name h \<noteq> []
        then print_line_to h [] @ m_doxygen_lead h @ ''This file is part of '' @ m_module_name h @ ''.'' @ nl else []) @
       print_line_to h [] @
       concat (map (print_line_to h) (m_license h)) @
       (if m_trailing h \<noteq> [] then print_line_to h [] @ concat (map (print_line_to h) (m_trailing h)) else []) @
       (if m_doxygen_end h \<noteq> [] then m_doxygen_end h @ nl else [])))"

section \<open>Comments\<close>

definition is_C_comment_start :: "string \<Rightarrow> bool" where
  "is_C_comment_start left_trimmed_line \<longleftrightarrow>
     length left_trimmed_line > 1 \<and> left_trimmed_line ! 0 = CHR ''/'' \<and> left_trimmed_line ! 1 = CHR ''*''"

definition is_C_comment_end :: "string \<Rightarrow> bool" where
  "is_C_comment_end right_trimmed_line \<longleftrightarrow>
     (let sz = length right_trimmed_line in
      sz > 1 \<and> right_trimmed_line ! (sz - 2) = CHR ''*'' \<and> right_trimmed_line ! (sz - 1) = CHR ''/'')"

definition is_Cpp_comment :: "string \<Rightarrow> bool" where
  "is_Cpp_comment left_trimmed_line \<longleftrightarrow>
     length left_trimmed_line > 1 \<and> left_trimmed_line ! 0 = CHR ''/'' \<and> left_trimmed_line ! 1 = CHR ''/''"

definition resplit :: "string \<Rightarrow> regex \<Rightarrow> string list" where
  "resplit s rgx = regex_split s rgx"

text \<open>\<^verbatim>\<open>extract\<close>: the expressions it is called with have the text as their first group.\<close>

definition extract_text :: "regex \<Rightarrow> string \<Rightarrow> string" where
  "extract_text lead_reg_expr line =
     (case regex_match (Seq lead_reg_expr (Group 2 (Star Any))) line of
        Some sm \<Rightarrow> trim_right (capture sm 1)
      | None \<Rightarrow> [])"

text \<open>
  \<^verbatim>\<open>^\s*/\<close>, then \<^verbatim>\<open>*\<close> (which makes the slash optional and repeatable) or \<^verbatim>\<open>/\<close>, then \<^verbatim>\<open>[-+*/!=#%^]* ?(.*)\<close>
\<close>

definition first_lead :: "bool \<Rightarrow> regex" where
  "first_lead is_C_comment =
     Seqs [Bol, Star Space, if is_C_comment then Star (Lit ''/'') else Lit ''//'',
       Star (One_of ''-+*/!=#%^''), Opt (Lit '' ''), Group 1 (Star Any)]"

text \<open>\<^verbatim>\<open>^\s*\*+ ?(.*)\<close>\<close>

definition next_lead :: regex where
  "next_lead = Seqs [Bol, Star Space, Plus (Lit ''*''), Opt (Lit '' ''), Group 1 (Star Any)]"

text \<open>\<^verbatim>\<open>^[\s]*(.*[^\s])[\s]*\*/\<close>\<close>

definition last_lead :: regex where
  "last_lead = Seqs [Bol, Star Space, Group 1 (Seq (Star Any) (Cls (\<lambda>c. \<not> is_space c))), Star Space, Lit ''*/'']"

section \<open>The state machine\<close>

datatype header_state =
    in_searching | in_module | in_file | in_brief | in_copyright | in_signature | in_part_of | in_license | in_trailing

definition module_regexp :: regex where
  "module_regexp = Seqs [Group 1 (Plus (Cls (\<lambda>c. \<not> is_space c))), Plus Space, Lit ''--'', Plus Space, Group 2 (Star Any)]"

definition file_regexp :: regex where
  "file_regexp = Seqs [One_of [CHR ''@'', CHR 0x5C], Lit ''file'', Alt (Plus Space) Eol, Group 1 (Star Any)]"

definition brief_regexp :: regex where
  "brief_regexp = Seqs [One_of [CHR ''@'', CHR 0x5C], Lit ''brief'', Plus Space, Group 1 (Star Any)]"

definition copyright_regexp :: regex where
  "copyright_regexp = Seqs [One_of ''Cc'', Lit ''opyright '', Star Any, Lit ''Carlo Wood'']"

definition is_name_char :: "char \<Rightarrow> bool" where
  "is_name_char c \<longleftrightarrow> is_lower c \<or> is_upper c \<or> is_digit c \<or> c = CHR ''_'' \<or> c = CHR ''-''"

definition part_of_regexp :: regex where
  "part_of_regexp = Seqs [Lit ''This file is part of'', Plus Space, Group 1 (Star (Cls is_name_char))]"

definition license_start_regexp :: regex where
  "license_start_regexp = Lit ''free software''"

definition license_end_regexp :: regex where
  "license_end_regexp = Lit ''www.gnu.org''"

text \<open>The variables of one round of the outer loop, with the state and the header.\<close>

record scan =
  scan_state :: header_state
  header :: Header
  saw_file_or_brief_or_copyright :: bool
  saw_copyright :: bool
  saw_license :: bool
  saw_module :: bool
  trailing_empty_line :: bool

text \<open>The two \<^verbatim>\<open>if\<close> statements that choose the state for a line, with the groups of the match. The
  flag \<^verbatim>\<open>first_line\<close> is never cleared.\<close>

definition after_file :: "string \<Rightarrow> header_state \<Rightarrow> header_state \<times> captures" where
  "after_file text st =
     (if st = in_file then
        (case regex_match brief_regexp text of Some sm \<Rightarrow> (in_brief, sm) | None \<Rightarrow> (in_searching, []))
      else (st, []))"

definition classify :: "string \<Rightarrow> scan \<Rightarrow> header_state \<times> captures" where
  "classify text sc =
     (let (st, sm) = after_file text (scan_state sc) in
      if st = in_searching then
        (case regex_match module_regexp text of
           Some sm \<Rightarrow> (in_module, sm)
         | None \<Rightarrow>
        (case regex_match file_regexp text of
           Some sm \<Rightarrow> (in_file, sm)
         | None \<Rightarrow>
        (case regex_search copyright_regexp text of
           Some sm \<Rightarrow> (in_copyright, sm)
         | None \<Rightarrow>
        (case (if saw_license sc then None else regex_search part_of_regexp text) of
           Some sm \<Rightarrow> (in_part_of, sm)
         | None \<Rightarrow>
             if \<not> saw_license sc \<and> regex_search license_start_regexp text \<noteq> None then (in_license, [])
             else if saw_copyright sc \<and> \<not> saw_license sc \<and> text \<noteq> [] then (in_signature, [])
             else if saw_license sc \<and> text \<noteq> [] then (in_trailing, [])
             else (in_searching, [])))))
      else (st, sm))"

text \<open>The \<^verbatim>\<open>switch\<close> statement.\<close>

definition handle :: "string \<Rightarrow> header_state \<times> captures \<Rightarrow> scan \<Rightarrow> scan" where
  "handle text = (\<lambda>(st, sm) sc.
     case st of
       in_searching \<Rightarrow> sc\<lparr>scan_state := in_searching\<rparr>
     | in_module \<Rightarrow> sc\<lparr>header := set_module (capture sm 1) (capture sm 2) (header sc), scan_state := in_searching, saw_module := True\<rparr>
     | in_file \<Rightarrow> sc\<lparr>scan_state := in_file, saw_file_or_brief_or_copyright := True\<rparr>
     | in_brief \<Rightarrow> sc\<lparr>header := set_brief (capture sm 1) (header sc), scan_state := in_searching, saw_file_or_brief_or_copyright := True\<rparr>
     | in_copyright \<Rightarrow>
         sc\<lparr>header := decode_copyright_line text (header sc), scan_state := in_searching,
            saw_file_or_brief_or_copyright := True, saw_copyright := True\<rparr>
     | in_signature \<Rightarrow> sc\<lparr>header := add_signature_line text (header sc), scan_state := in_searching\<rparr>
     | in_part_of \<Rightarrow> sc\<lparr>header := set_part_of (capture sm 1) (header sc), scan_state := in_searching\<rparr>
     | in_license \<Rightarrow>
         sc\<lparr>header := add_license_line text (header sc), saw_license := True,
            scan_state := (if regex_search license_end_regexp text \<noteq> None then in_searching else in_license)\<rparr>
     | in_trailing \<Rightarrow>
         (if text = [] then sc\<lparr>scan_state := in_trailing, trailing_empty_line := True\<rparr>
          else
            sc\<lparr>scan_state := in_trailing,
               header := add_trailing_line text
                 (if trailing_empty_line sc then add_trailing_line [] (header sc) else header sc),
               trailing_empty_line := False\<rparr>))"

definition line_text :: "bool \<Rightarrow> regex \<Rightarrow> string \<Rightarrow> string" where
  "line_text is_C_comment lead_reg_expr line =
     (let text = extract_text lead_reg_expr line;
          last_line = is_C_comment \<and> is_C_comment_end (trim_right line)
      in trim_right (if is_C_comment \<and> last_line then extract_text last_lead text else text))"

text \<open>
  The inner loop over the lines of one comment; the lines from index \<^verbatim>\<open>il\<close> on are passed along, and
  reading past the last one is the fault \<^const>\<open>Out_of_range\<close>.
\<close>

primrec scan_comment ::
  "(string \<Rightarrow> string) \<Rightarrow> bool \<Rightarrow> string list \<Rightarrow> regex \<Rightarrow> scan \<Rightarrow> (scan \<times> string list) result"
where
  "scan_comment trim_left is_C_comment [] lead_reg_expr sc = Inl Out_of_range"
| "scan_comment trim_left is_C_comment (line # lines) lead_reg_expr sc =
     (if is_C_comment \<or> is_Cpp_comment (trim_left line) then
        let text = line_text is_C_comment lead_reg_expr line;
            last_line = is_C_comment \<and> is_C_comment_end (trim_right line);
            sc' = handle text (classify text sc) sc
        in if last_line then Inr (sc', lines)
           else scan_comment trim_left is_C_comment lines (if is_C_comment then next_lead else lead_reg_expr) sc'
      else Inr (sc, line # lines))"

definition skip_empty :: "string list \<Rightarrow> string list" where
  "skip_empty lines = dropWhile (\<lambda>l. l = []) lines"

definition fresh_round :: "scan \<Rightarrow> scan" where
  "fresh_round sc = sc\<lparr>saw_file_or_brief_or_copyright := False, saw_copyright := False, saw_license := False,
     saw_module := False, trailing_empty_line := False\<rparr>"

lemma length_skip_empty: "length (skip_empty ls) \<le> length ls"
  by (simp add: skip_empty_def length_dropWhile_le)

lemma scan_comment_length: "scan_comment tr c ls re sc = Inr (sc', rest) \<Longrightarrow> length rest \<le> length ls"
  by (induction ls arbitrary: re sc) (fastforce simp: Let_def split: if_splits)+

text \<open>A round that recognised the module has consumed a line.\<close>

lemma scan_comment_shorter:
  "scan_comment tr c ls re sc = Inr (sc', rest) \<Longrightarrow> saw_module sc' \<Longrightarrow> \<not> saw_module sc \<Longrightarrow> length rest < length ls"
  by (cases ls) (auto simp: Let_def split: if_splits dest: scan_comment_length)

text \<open>The outer loop; it goes round again when a comment had nothing but the module line.\<close>

function scan_header :: "(string \<Rightarrow> string) \<Rightarrow> string list \<Rightarrow> scan \<Rightarrow> (scan \<times> string list) result" where
  "scan_header trim_left lines sc =
     (case skip_empty lines of
        [] \<Rightarrow> Inl Out_of_range
      | line # rest \<Rightarrow>
          let is_C_comment = is_C_comment_start (trim_left line) in
          (case scan_comment trim_left is_C_comment (line # rest) (first_lead is_C_comment) (fresh_round sc) of
             Inl e \<Rightarrow> Inl e
           | Inr (sc', rest') \<Rightarrow>
               if \<not> saw_file_or_brief_or_copyright sc' \<and> saw_module sc' then scan_header trim_left rest' sc'
               else Inr (sc', rest')))"
  by pat_completeness auto
termination
proof (relation "measure (\<lambda>(tl, ls, sc). length ls)")
  fix trim_left :: "string \<Rightarrow> string" and lines line rest rest' x y and sc sc' :: scan and b
  assume a: "skip_empty lines = line # rest" "b = is_C_comment_start (trim_left line)"
    "scan_comment trim_left b (line # rest) (first_lead b) (fresh_round sc) = Inr y" "(sc', rest') = y"
    "\<not> saw_file_or_brief_or_copyright sc' \<and> saw_module sc'"
  then have "length rest' < length (line # rest)"
    using scan_comment_shorter [of trim_left b "line # rest" "first_lead b" "fresh_round sc" sc' rest']
    by (simp add: fresh_round_def)
  also have "\<dots> \<le> length lines" using length_skip_empty [of lines] a(1) by simp
  finally show "((trim_left, rest', sc'), (trim_left, lines, sc)) \<in> measure (\<lambda>(tl, ls, sc). length ls)" by simp
qed simp

declare scan_header.simps [simp del]

text \<open>\<^verbatim>\<open>std::getline\<close> in a loop: the lines of a text.\<close>

primrec split_from :: "string \<Rightarrow> string \<Rightarrow> string list" where
  "split_from cur [] = (if cur = [] then [] else [cur])"
| "split_from cur (c # s) = (if c = CHR 0x0A then cur # split_from [] s else split_from (cur @ [c]) s)"

definition split_lines :: "string \<Rightarrow> string list" where
  "split_lines s = split_from [] s"

definition process :: "(string \<Rightarrow> string) \<Rightarrow> int \<Rightarrow> string \<Rightarrow> string \<Rightarrow> string list \<Rightarrow> (string list \<times> bool) result" where
  "process trim_left current_year module_name module_desc input_lines =
     bindE (scan_header trim_left input_lines
       \<lparr>scan_state = in_searching, header = new_Header module_name module_desc, saw_file_or_brief_or_copyright = False,
        saw_copyright = False, saw_license = False, saw_module = False, trailing_empty_line = False\<rparr>)
     (\<lambda>(sc, rest).
       let rest' = skip_empty rest in
       bindE (print_Header (canonicalize current_year (header sc))) (\<lambda>text.
         let lines = split_lines (text @ nl) @ rest' in
         Inr (lines, input_lines \<noteq> lines)))"

section \<open>Specification\<close>

text \<open>Maximal runs of successive years, and how a run is printed.\<close>

primrec runs_from :: "int \<Rightarrow> int \<Rightarrow> int list \<Rightarrow> (int \<times> int) list" where
  "runs_from a b [] = [(a, b)]"
| "runs_from a b (y # ys) = (if y = b + 1 then runs_from a y ys else (a, b) # runs_from y y ys)"

definition runs :: "int list \<Rightarrow> (int \<times> int) list" where
  "runs ys = (case ys of [] \<Rightarrow> [] | y # ys \<Rightarrow> runs_from y y ys)"

definition show_run :: "int \<times> int \<Rightarrow> string" where
  "show_run = (\<lambda>(a, b). show_int a @
     (if b = a then '''' else if b = a + 1 then '', '' @ show_int b else '' - '' @ show_int b))"

primrec show_runs :: "string \<Rightarrow> (int \<times> int) list \<Rightarrow> string" where
  "show_runs sep [] = ''''"
| "show_runs sep (r # rs) = sep @ show_run r @ show_runs '', '' rs"

definition years_of_runs :: "(int \<times> int) list \<Rightarrow> int list" where
  "years_of_runs rs = concat (map (\<lambda>(a, b). [a..b]) rs)"

text \<open>
  The lines that \<^verbatim>\<open>process\<close> may drop: empty lines, lines that start with two slashes, and complete C
  comments.
\<close>

definition C_comment :: "(string \<Rightarrow> string) \<Rightarrow> string list \<Rightarrow> bool" where
  "C_comment trim_left ls \<longleftrightarrow> ls \<noteq> [] \<and> is_C_comment_start (trim_left (hd ls)) \<and>
     is_C_comment_end (trim_right (last ls)) \<and> (\<forall>l \<in> set (butlast ls). \<not> is_C_comment_end (trim_right l))"

inductive comment_region :: "(string \<Rightarrow> string) \<Rightarrow> string list \<Rightarrow> bool" for trim_left where
  region_end: "comment_region trim_left []"
| region_empty: "comment_region trim_left ls \<Longrightarrow> comment_region trim_left (ls @ [[]])"
| region_Cpp: "comment_region trim_left ls \<Longrightarrow> is_Cpp_comment (trim_left l) \<Longrightarrow> comment_region trim_left (ls @ [l])"
| region_C: "comment_region trim_left ls \<Longrightarrow> C_comment trim_left cs \<Longrightarrow> comment_region trim_left (ls @ cs)"

definition unterminated :: "(string \<Rightarrow> string) \<Rightarrow> string list \<Rightarrow> bool" where
  "unterminated trim_left ls \<longleftrightarrow> ls \<noteq> [] \<and> is_C_comment_start (trim_left (hd ls)) \<and>
     (\<forall>l \<in> set ls. \<not> is_C_comment_end (trim_right l))"

section \<open>Lemmas\<close>

lemma year_body_step:
  assumes "0 < a" "a \<le> b" "b < y" "y \<noteq> final"
  shows "year_body final y (\<lparr>yl_separator = sep, first_year = a, last_year = b\<rparr>, os) =
    (if y = b + 1 then (\<lparr>yl_separator = sep, first_year = a, last_year = y\<rparr>, os)
     else (\<lparr>yl_separator = '', '', first_year = y, last_year = y\<rparr>, os @ sep @ show_run (a, b)))"
  using assms by (auto simp: year_body_def Let_def show_run_def)

lemma year_body_final:
  assumes "0 < a" "a \<le> b" "b < y"
  shows "snd (year_body y y (\<lparr>yl_separator = sep, first_year = a, last_year = b\<rparr>, os)) =
    os @ show_runs sep (runs_from a b [y])"
  using assms by (auto simp: year_body_def Let_def show_run_def max_def)

lemma year_loop_runs:
  assumes "0 < a" "a \<le> b" "sorted_wrt (<) (b # ys)" "ys \<noteq> []"
  shows "snd (fold (year_body (last ys)) ys (\<lparr>yl_separator = sep, first_year = a, last_year = b\<rparr>, os)) =
    os @ show_runs sep (runs_from a b ys)"
  using assms
proof (induction ys arbitrary: a b sep os)
  case (Cons y ys)
  show ?case
  proof (cases "ys = []")
    case True
    then show ?thesis using Cons.prems year_body_final [of a b y sep os] by simp
  next
    case False
    then have "last ys \<in> set ys" by simp
    then have y: "b < y" "y \<noteq> last ys" using Cons.prems by auto
    show ?thesis
    proof (cases "y = b + 1")
      case True
      then show ?thesis
        using Cons.IH [of a y sep os] Cons.prems False year_body_step [OF Cons.prems(1,2) y] by simp
    next
      case ny: False
      then show ?thesis
        using Cons.IH [of y y "'', ''" "os @ sep @ show_run (a, b)"] Cons.prems False
          year_body_step [OF Cons.prems(1,2) y] by simp
    qed
  qed
qed simp

lemma print_years_runs:
  assumes "sorted_wrt (<) ys" "ys \<noteq> []" "\<forall>y \<in> set ys. 1 < y"
  shows "print_years ys = Inr (show_runs ''@Copyright (C) '' (runs ys))"
proof -
  obtain y ys' where ys: "ys = y # ys'" using assms(2) by (cases ys) auto
  show ?thesis
  proof (cases "ys' = []")
    case True
    then show ?thesis using assms ys
      by (simp add: print_years_def year_body_def Let_def runs_def show_run_def)
  next
    case False
    then have "last ys' \<in> set ys'" by simp
    then have "y \<noteq> last ys'" "1 < y" using assms ys by auto
    then have "year_body (last ys') y (\<lparr>yl_separator = sep, first_year = 0, last_year = 0\<rparr>, '''') =
        (\<lparr>yl_separator = sep, first_year = y, last_year = y\<rparr>, '''')" for sep
      by (simp add: year_body_def Let_def)
    then show ?thesis
      using year_loop_runs [of y y ys' "''@Copyright (C) ''" "''''"] False assms ys \<open>1 < y\<close>
      by (simp add: print_years_def runs_def)
  qed
qed

lemma years_of_runs_from: "a \<le> b \<Longrightarrow> sorted_wrt (<) (b # ys) \<Longrightarrow> years_of_runs (runs_from a b ys) = [a..b] @ ys"
proof (induction ys arbitrary: a b)
  case (Cons y ys)
  show ?case
  proof (cases "y = b + 1")
    case True
    then have "[a..y] = [a..b] @ [y]" using Cons.prems by (simp add: upto_rec2)
    with True Cons.IH [of a y] Cons.prems show ?thesis by simp
  next
    case False
    with Cons.IH [of y y] Cons.prems show ?thesis by (simp add: years_of_runs_def)
  qed
qed (simp add: years_of_runs_def)

lemma years_of_runs: "sorted_wrt (<) ys \<Longrightarrow> years_of_runs (runs ys) = ys"
  by (cases ys) (auto simp: runs_def years_of_runs_from, simp add: years_of_runs_def)

lemma remdups_adj_strict: "sorted xs \<Longrightarrow> sorted_wrt (<) (remdups_adj xs)" for xs :: "'a :: linorder list"
proof (induction xs rule: remdups_adj.induct)
  case (3 x y xs)
  show ?case
  proof (cases "x = y")
    case False
    have "\<forall>z \<in> set (remdups_adj (y # xs)). y \<le> z" using 3(3) by auto
    with 3 False show ?thesis by (auto simp: less_le_trans)
  qed (use 3 in simp)
qed simp_all

lemma sort_unique_sorted: "sorted_wrt (<) (sort_unique ys)" "set (sort_unique ys) = set ys"
  by (simp_all add: sort_unique_def remdups_adj_strict)

lemma canonicalize_years:
  "m_copyright_years (canonicalize cy h) =
    (if m_copyright_years h = [] then [cy] else sort_unique (m_copyright_years h))"
  by (simp add: canonicalize_def Let_def add_current_year_def)


lemma region_skip_empty:
  assumes "comment_region tr pre"
  shows "\<exists>es. ls = es @ skip_empty ls \<and> comment_region tr (pre @ es)"
  using assms
proof (induction ls arbitrary: pre)
  case (Cons l ls)
  show ?case
  proof (cases "l = []")
    case True
    have "comment_region tr (pre @ [[]])" by (rule region_empty [OF Cons.prems])
    from Cons.IH [OF this] obtain es where "ls = es @ skip_empty ls" "comment_region tr ((pre @ [[]]) @ es)" by blast
    then show ?thesis using True by (intro exI [of _ "[] # es"]) (simp add: skip_empty_def)
  next
    case False
    then show ?thesis using Cons.prems by (simp add: skip_empty_def)
  qed
qed (simp add: skip_empty_def)

lemma scan_Cpp:
  assumes "comment_region tr pre"
  shows "(case scan_comment tr False ls re sc of
      Inl e \<Rightarrow> e = Out_of_range \<and> comment_region tr (pre @ ls)
    | Inr (sc', rest) \<Rightarrow> \<exists>cs. ls = cs @ rest \<and> comment_region tr (pre @ cs))"
  using assms
proof (induction ls arbitrary: pre re sc)
  case (Cons l ls)
  show ?case
  proof (cases "is_Cpp_comment (tr l)")
    case True
    let ?t = "line_text False re l"
    from Cons.IH [OF region_Cpp [OF Cons.prems True], of re "handle ?t (classify ?t sc) sc"] True
    show ?thesis
      by (auto simp: Let_def split: sum.splits intro!: exI [of _ "l # _"])
  next
    case False
    then show ?thesis using Cons.prems by simp
  qed
qed simp

lemma scan_C:
  "(case scan_comment tr True ls re sc of
      Inl e \<Rightarrow> e = Out_of_range \<and> (\<forall>l \<in> set ls. \<not> is_C_comment_end (trim_right l))
    | Inr (sc', rest) \<Rightarrow> \<exists>cs. ls = cs @ rest \<and> cs \<noteq> [] \<and> is_C_comment_end (trim_right (last cs)) \<and>
        (\<forall>l \<in> set (butlast cs). \<not> is_C_comment_end (trim_right l)))"
proof (induction ls arbitrary: re sc)
  case (Cons l ls)
  let ?t = "line_text True re l"
  show ?case
  proof (cases "is_C_comment_end (trim_right l)")
    case True
    then show ?thesis by (auto simp: Let_def intro!: exI [of _ "[l]"])
  next
    case False
    with Cons.IH [of next_lead "handle ?t (classify ?t sc) sc"] show ?thesis
      by (auto simp: Let_def split: sum.splits intro!: exI [of _ "l # _"])
  qed
qed simp

text \<open>One comment, scanned from its first line.\<close>

lemma scan_comment_region:
  assumes pre: "comment_region tr pre" and C: "c = is_C_comment_start (tr line)"
  shows "(case scan_comment tr c (line # rest) re sc of
      Inl e \<Rightarrow> e = Out_of_range \<and> (\<exists>cs us. line # rest = cs @ us \<and> comment_region tr (pre @ cs) \<and> (us = [] \<or> unterminated tr us))
    | Inr (sc', rest') \<Rightarrow> \<exists>cs. line # rest = cs @ rest' \<and> comment_region tr (pre @ cs))"
proof (cases c)
  case True
  show ?thesis
  proof (cases "scan_comment tr True (line # rest) re sc")
    case (Inl e)
    with scan_C [where tr = tr and ls = "line # rest" and re = re and sc = sc] True C
    have "e = Out_of_range \<and> unterminated tr (line # rest)"
      by (auto simp: unterminated_def simp del: scan_comment.simps)
    with Inl True pre show ?thesis by (force simp del: scan_comment.simps)
  next
    case (Inr y)
    obtain sc' rest' where y: "y = (sc', rest')" by fastforce
    with scan_C [where tr = tr and ls = "line # rest" and re = re and sc = sc] Inr
    obtain cs where cs: "line # rest = cs @ rest'" "cs \<noteq> []" "is_C_comment_end (trim_right (last cs))"
      "\<forall>l \<in> set (butlast cs). \<not> is_C_comment_end (trim_right l)" by (auto simp del: scan_comment.simps)
    then have "hd cs = line" by (cases cs) auto
    then have "C_comment tr cs" using cs True C by (simp add: C_comment_def)
    from region_C [OF pre this] cs(1) True Inr y show ?thesis by (auto simp del: scan_comment.simps)
  qed
next
  case False
  note cpp = scan_Cpp [OF pre, of "line # rest" re sc]
  show ?thesis
  proof (cases "scan_comment tr False (line # rest) re sc")
    case (Inl e)
    with cpp have "e = Out_of_range" "line # rest = (line # rest) @ []" "comment_region tr (pre @ (line # rest))"
      by (simp_all del: scan_comment.simps)
    with Inl False show ?thesis by (simp only: sum.case) blast
  next
    case (Inr y)
    with cpp False show ?thesis by (cases y) (simp del: scan_comment.simps)
  qed
qed

lemma scan_header_region:
  assumes "comment_region tr pre"
  shows "(case scan_header tr ls sc of
      Inl e \<Rightarrow> e = Out_of_range \<and> (\<exists>cs us. ls = cs @ us \<and> comment_region tr (pre @ cs) \<and> (us = [] \<or> unterminated tr us))
    | Inr (sc', rest) \<Rightarrow> \<exists>cs. ls = cs @ rest \<and> comment_region tr (pre @ cs))"
  using assms
proof (induction "length ls" arbitrary: ls pre sc rule: less_induct)
  case less
  obtain es where es: "ls = es @ skip_empty ls" "comment_region tr (pre @ es)"
    using region_skip_empty [OF less.prems] by blast
  show ?case
  proof (cases "skip_empty ls")
    case Nil
    then have "scan_header tr ls sc = Inl Out_of_range" by (simp add: scan_header.simps [of tr ls])
    with Nil es show ?thesis by auto
  next
    case (Cons line rest)
    let ?C = "is_C_comment_start (tr line)"
    note region = scan_comment_region [OF es(2) refl, of line rest "first_lead ?C" "fresh_round sc"]
    have unfold: "scan_header tr ls sc =
      (case scan_comment tr ?C (line # rest) (first_lead ?C) (fresh_round sc) of
             Inl e \<Rightarrow> Inl e
           | Inr (sc', rest') \<Rightarrow>
               if \<not> saw_file_or_brief_or_copyright sc' \<and> saw_module sc' then scan_header tr rest' sc'
               else Inr (sc', rest'))"
      using Cons by (simp add: scan_header.simps [of tr ls] Let_def del: scan_comment.simps)
    show ?thesis
    proof (cases "scan_comment tr ?C (line # rest) (first_lead ?C) (fresh_round sc)")
      case (Inl e)
      with region obtain cs us where "e = Out_of_range" "line # rest = cs @ us"
        "comment_region tr ((pre @ es) @ cs)" "us = [] \<or> unterminated tr us" by auto
      moreover from this es(1) Cons have "ls = (es @ cs) @ us" by simp
      moreover have "scan_header tr ls sc = Inl e" unfolding unfold Inl by simp
      ultimately have "e = Out_of_range \<and> ls = (es @ cs) @ us \<and> comment_region tr (pre @ (es @ cs)) \<and>
          (us = [] \<or> unterminated tr us) \<and> scan_header tr ls sc = Inl e" by simp
      then show ?thesis by (elim conjE) (simp only: sum.case, blast)
    next
      case (Inr y)
      obtain sc' rest' where y: "y = (sc', rest')" by fastforce
      with region Inr obtain cs where cs: "line # rest = cs @ rest'" "comment_region tr ((pre @ es) @ cs)"
        by (auto simp del: scan_comment.simps)
      have ls: "ls = (es @ cs) @ rest'" using es(1) Cons cs(1) by simp
      show ?thesis
      proof (cases "\<not> saw_file_or_brief_or_copyright sc' \<and> saw_module sc'")
        case True
        have "length rest' < length (line # rest)"
          using scan_comment_shorter [OF Inr [unfolded y]] True by (simp add: fresh_round_def)
        also have "\<dots> \<le> length ls" using length_skip_empty [of ls] Cons by simp
        finally have "length rest' < length ls" .
        note ih = less.hyps [OF this cs(2), of sc']
        have eq: "scan_header tr ls sc = scan_header tr rest' sc'"
          using True Inr y by (simp add: unfold del: scan_comment.simps)
        show ?thesis
        proof (cases "scan_header tr rest' sc'")
          case (Inl e)
          with ih obtain ds us where "e = Out_of_range" "rest' = ds @ us"
            "comment_region tr (((pre @ es) @ cs) @ ds)" "us = [] \<or> unterminated tr us" by auto
          then have "e = Out_of_range \<and> ls = (es @ cs @ ds) @ us \<and> comment_region tr (pre @ (es @ cs @ ds)) \<and>
              (us = [] \<or> unterminated tr us) \<and> scan_header tr ls sc = Inl e" using Inl ls eq by simp
          then show ?thesis by (elim conjE) (simp only: sum.case, blast)
        next
          case (Inr z)
          obtain sc2 rest2 where z: "z = (sc2, rest2)" by fastforce
          with ih Inr obtain ds where "rest' = ds @ rest2" "comment_region tr (((pre @ es) @ cs) @ ds)" by auto
          then show ?thesis using Inr z ls eq by (auto intro!: exI [of _ "es @ cs @ ds"])
        qed
      next
        case False
        then have "scan_header tr ls sc = Inr (sc', rest')" unfolding unfold Inr y by auto
        moreover have "comment_region tr (pre @ (es @ cs))" using cs(2) by simp
        ultimately show ?thesis using ls by (simp only: sum.case prod.case) blast
      qed
    qed
  qed
qed

lemma print_canonical_total: "\<exists>text. print_Header (canonicalize cy h) = Inr text"
proof -
  have "m_copyright_years (canonicalize cy h) \<noteq> []"
    using sort_unique_sorted(2) [of "m_copyright_years h"] by (auto simp: canonicalize_years)
  then show ?thesis by (simp add: print_Header_def print_years_def)
qed

lemma process_total:
  "case process trim_left current_year module_name module_desc input_lines of
     Inr (lines, changed) \<Rightarrow>
       (\<exists>dropped rest h. input_lines = dropped @ rest \<and> comment_region trim_left dropped \<and>
          lines = split_lines (h @ nl) @ rest \<and> skip_empty rest = rest \<and> changed = (input_lines \<noteq> lines))
   | Inl e \<Rightarrow> e = Out_of_range \<and>
       (\<exists>comments open_comment. input_lines = comments @ open_comment \<and> comment_region trim_left comments \<and>
          (open_comment = [] \<or> unterminated trim_left open_comment))"
proof -
  let ?sc = "\<lparr>scan_state = in_searching, header = new_Header module_name module_desc, saw_file_or_brief_or_copyright = False,
        saw_copyright = False, saw_license = False, saw_module = False, trailing_empty_line = False\<rparr>"
  note r = scan_header_region [OF region_end, where tr = trim_left and ls = input_lines and sc = ?sc]
  show ?thesis
  proof (cases "scan_header trim_left input_lines ?sc")
    case (Inl e)
    with r show ?thesis by (simp add: process_def)
  next
    case (Inr y)
    obtain sc rest where y: "y = (sc, rest)" by fastforce
    with r Inr obtain cs where cs: "input_lines = cs @ rest" "comment_region trim_left cs" by auto
    obtain es where es: "rest = es @ skip_empty rest" "comment_region trim_left (cs @ es)"
      using region_skip_empty [OF cs(2)] by blast
    obtain printed where "print_Header (canonicalize current_year (header sc)) = Inr printed"
      using print_canonical_total by blast
    moreover have "skip_empty (skip_empty rest) = skip_empty rest"
      by (simp add: skip_empty_def)
    ultimately have p: "process trim_left current_year module_name module_desc input_lines =
          Inr (split_lines (printed @ nl) @ skip_empty rest, input_lines \<noteq> split_lines (printed @ nl) @ skip_empty rest)"
        and hd: "skip_empty (skip_empty rest) = skip_empty rest"
      using Inr y by (simp_all add: process_def Let_def)
    have "input_lines = (cs @ es) @ skip_empty rest" using cs(1) es(1) by simp
    with hd es(2) show ?thesis unfolding p by (simp only: sum.case prod.case) blast
  qed
qed

lemma process_code_only: "\<exists>r. process (dropWhile is_space) cy mn md [''int x;''] = Inr r"
proof -
  let ?sc = "\<lparr>scan_state = in_searching, header = new_Header mn md, saw_file_or_brief_or_copyright = False,
        saw_copyright = False, saw_license = False, saw_module = False, trailing_empty_line = False\<rparr>"
  have "scan_header (dropWhile is_space) [''int x;''] ?sc = Inr (?sc, [''int x;''])"
    by (simp add: scan_header.simps [of "dropWhile is_space" "[''int x;'']"] skip_empty_def is_C_comment_start_def is_Cpp_comment_def
        is_space_def fresh_round_def Let_def)
  moreover obtain printed where "print_Header (canonicalize cy (new_Header mn md)) = Inr printed"
    using print_canonical_total by blast
  ultimately show ?thesis by (simp add: process_def Let_def)
qed

section \<open>Properties\<close>


text \<open>C15. The copyright line shows the canonical years as maximal runs: a run of one year as the year,
  of two years as both, of more years as the first and the last; unfolding the runs gives exactly
  the distinct years of the header in ascending order.\<close>

theorem copyright_years_printed:
  assumes "m_copyright_years h \<noteq> []" "\<forall>y \<in> set (m_copyright_years h). 1 < y"
  shows "print_years (m_copyright_years (canonicalize current_year h)) =
      Inr (show_runs ''@Copyright (C) '' (runs (sort_unique (m_copyright_years h)))) \<and>
    years_of_runs (runs (sort_unique (m_copyright_years h))) = sorted_list_of_set (set (m_copyright_years h))"
proof -
  let ?ys = "sort_unique (m_copyright_years h)"
  have s: "sorted_wrt (<) ?ys" "set ?ys = set (m_copyright_years h)" by (rule sort_unique_sorted)+
  then have "print_years ?ys = Inr (show_runs ''@Copyright (C) '' (runs ?ys))"
    using assms by (intro print_years_runs) auto
  moreover have "?ys = sorted_list_of_set (set (m_copyright_years h))"
    using s by (metis sorted_list_of_set_unique finite_set length_sorted_list_of_set set_sorted_list_of_set
        strict_sorted_equal sorted_list_of_set.strict_sorted_key_list_of_set)
  ultimately show ?thesis using assms s years_of_runs [OF s(1)] by (simp add: canonicalize_years)
qed

theorem copyright_years_printed_witness:
  "let h = (new_Header ''m'' ''d'')\<lparr>m_copyright_years := [2020, 2018, 2017, 2021, 2020, 2022]\<rparr> in
   years_of_runs (runs (sort_unique (m_copyright_years h))) = sorted_list_of_set (set (m_copyright_years h))"
  using copyright_years_printed [of "(new_Header ''m'' ''d'')\<lparr>m_copyright_years := [2020, 2018, 2017, 2021, 2020, 2022]\<rparr>"]
  by (simp add: Let_def)

end
