(* ===== verification/Rewrite_Tool.thy ===== *)
theory Rewrite_Tool
  imports Rewrite_Header
begin

text \<open>
  The files and \<^verbatim>\<open>main\<close> of \<^verbatim>\<open>src/rewrite_header.cxx\<close>. A file is the list of its lines. The new contents are written to
  a second file, which then replaces the first one. Everything that can go wrong on the disk is a parameter,
  and an operation that throws still returns the files as it left them. The parser of the command line
  (boost) is a parameter as well; what is printed is left out.
\<close>

section \<open>The disk\<close>

type_synonym files = "string \<rightharpoonup> string list"

text \<open>
  Which files cannot be opened for writing, which lines cannot be written, how many of the last lines are still
  buffered when the file is closed and get lost then, and which files cannot be renamed.
\<close>

record disk =
  fails_open :: "string \<Rightarrow> bool"
  fails_write :: "string \<Rightarrow> nat \<Rightarrow> bool"
  unflushed :: "string \<Rightarrow> nat"
  fails_rename :: "string \<Rightarrow> bool"

type_synonym io = "files \<times> unit result"

definition and_then :: "io \<Rightarrow> (files \<Rightarrow> io) \<Rightarrow> io" where
  "and_then r f = (case r of (fs, Inl e) \<Rightarrow> (fs, Inl e) | (fs, Inr _) \<Rightarrow> f fs)"

section \<open>Reading and writing\<close>

text \<open>\<^verbatim>\<open>open\<close> for reading and the loop that reads the lines.\<close>

definition read_file :: "files \<Rightarrow> string \<Rightarrow> string list result" where
  "read_file fs name = (case fs name of Some lines \<Rightarrow> Inr lines | None \<Rightarrow> Inl Exception)"

text \<open>\<^verbatim>\<open>open\<close> for writing empties the file or makes it.\<close>

definition open_output :: "disk \<Rightarrow> string \<Rightarrow> files \<Rightarrow> io" where
  "open_output io name fs = (if fails_open io name then (fs, Inl Exception) else (fs(name \<mapsto> []), Inr ()))"

definition write_line :: "disk \<Rightarrow> string \<Rightarrow> nat \<Rightarrow> string \<Rightarrow> files \<Rightarrow> io" where
  "write_line io name i line fs =
     (if fails_write io name i then (fs, Inl Exception)
      else (fs(name := map_option (\<lambda>lines. lines @ [line]) (fs name)), Inr ()))"

primrec write_lines :: "disk \<Rightarrow> string \<Rightarrow> nat \<Rightarrow> string list \<Rightarrow> files \<Rightarrow> io" where
  "write_lines io name i [] fs = (fs, Inr ())"
| "write_lines io name i (line # lines) fs = and_then (write_line io name i line fs) (write_lines io name (i + 1) lines)"

text \<open>The destructor of the stream, which does not report what it could not write.\<close>

definition close_output :: "disk \<Rightarrow> string \<Rightarrow> files \<Rightarrow> files" where
  "close_output io name fs = fs(name := map_option (\<lambda>lines. take (length lines - unflushed io name) lines) (fs name))"

definition rename_file :: "disk \<Rightarrow> string \<Rightarrow> string \<Rightarrow> files \<Rightarrow> io" where
  "rename_file io old new fs = (if fails_rename io old then (fs, Inl Exception) else ((fs(new := fs old))(old := None), Inr ()))"

definition write_file :: "disk \<Rightarrow> string \<Rightarrow> string list \<Rightarrow> files \<Rightarrow> io" where
  "write_file io name lines fs =
     and_then (open_output io name fs) (\<lambda>fs1.
       case write_lines io name 0 lines fs1 of (fs2, r) \<Rightarrow> (close_output io name fs2, r))"

section \<open>The loop over the files\<close>

definition rewrite_file ::
  "disk \<Rightarrow> (string \<Rightarrow> string) \<Rightarrow> int \<Rightarrow> string \<Rightarrow> string \<Rightarrow> string \<Rightarrow> files \<Rightarrow> io"
where
  "rewrite_file io trim_left current_year module_name module_desc input_file_name fs =
     (case bindE (read_file fs input_file_name) (process trim_left current_year module_name module_desc) of
        Inl e \<Rightarrow> (fs, Inl e)
      | Inr (lines, changed) \<Rightarrow>
          if changed then
            let output_file_name = input_file_name @ ''.new'' in
            and_then (write_file io output_file_name lines fs) (rename_file io output_file_name input_file_name)
          else (fs, Inr ()))"

primrec rewrite_files ::
  "disk \<Rightarrow> (string \<Rightarrow> string) \<Rightarrow> int \<Rightarrow> string \<Rightarrow> string \<Rightarrow> string list \<Rightarrow> files \<Rightarrow> io"
where
  "rewrite_files io trim_left current_year module_name module_desc [] fs = (fs, Inr ())"
| "rewrite_files io trim_left current_year module_name module_desc (name # names) fs =
     and_then (rewrite_file io trim_left current_year module_name module_desc name fs)
       (rewrite_files io trim_left current_year module_name module_desc names)"

section \<open>main\<close>

text \<open>The options of the command line; none has a default.\<close>

record variables_map =
  opt_help :: bool
  opt_module_name :: "string option"
  opt_module_desc :: "string option"
  opt_input_file :: "string list option"

definition vm_count :: "variables_map \<Rightarrow> string \<Rightarrow> bool" where
  "vm_count vm name =
     (if name = ''help'' then opt_help vm
      else if name = ''module-name'' then opt_module_name vm \<noteq> None
      else if name = ''module-desc'' then opt_module_desc vm \<noteq> None
      else if name = ''input-file'' then opt_input_file vm \<noteq> None
      else False)"

definition option_dependency :: "variables_map \<Rightarrow> string \<Rightarrow> string \<Rightarrow> unit result" where
  "option_dependency vm for_what required_option =
     (if vm_count vm for_what \<and> \<not> vm_count vm required_option then Inl Exception else Inr ())"

text \<open>\<^verbatim>\<open>options::module_name\<close> and \<^verbatim>\<open>options::module_desc\<close>, which are empty without the options.\<close>

definition module_options :: "variables_map \<Rightarrow> string \<times> string" where
  "module_options vm = (case (opt_module_name vm, opt_module_desc vm) of (Some n, Some d) \<Rightarrow> (n, d) | _ \<Rightarrow> ([], []))"

text \<open>How the program ends: with an exit status, by an exception that nobody catches, or in undefined behaviour.\<close>

datatype ending = Exit int | Uncaught | Undefined fault

definition rewrite_main ::
  "disk \<Rightarrow> (string list \<Rightarrow> variables_map option) \<Rightarrow> (string \<Rightarrow> string) \<Rightarrow> int \<Rightarrow> string list \<Rightarrow> files \<Rightarrow> files \<times> ending"
where
  "rewrite_main io parse trim_left current_year argv fs =
     (case parse argv of
        None \<Rightarrow> (fs, Uncaught)
      | Some vm \<Rightarrow>
          if vm_count vm ''help'' then (fs, Exit 0)
          else
            case bindE (option_dependency vm ''module-name'' ''module-desc'') (\<lambda>_. option_dependency vm ''module-desc'' ''module-name'') of
              Inl e \<Rightarrow> (fs, Uncaught)
            | Inr _ \<Rightarrow>
                (case opt_input_file vm of
                   None \<Rightarrow> (fs, Exit 1)
                 | Some non_options \<Rightarrow>
                     let (module_name, module_desc) = module_options vm;
                         (fs1, r) = rewrite_files io trim_left current_year module_name module_desc non_options fs
                     in (fs1, case r of Inr _ \<Rightarrow> Exit 0 | Inl e \<Rightarrow> if e = Exception then Exit 1 else Undefined e)))"

section \<open>What happens to the files\<close>

lemma and_then_simps [simp]: "and_then (fs, Inl e) f = (fs, Inl e)" "and_then (fs, Inr u) f = f fs"
  by (simp_all add: and_then_def)

lemma and_then_eq: "and_then r f = (fs', u) \<longleftrightarrow> (\<exists>e. r = (fs', Inl e) \<and> u = Inl e) \<or> (\<exists>fs1. r = (fs1, Inr ()) \<and> f fs1 = (fs', u))"
  by (cases r; cases "snd r") (auto simp: and_then_def)

lemmas io_defs = read_file_def open_output_def write_line_def close_output_def rename_file_def

lemma write_lines_effect:
  "fs name = Some old \<Longrightarrow> write_lines io name i lines fs = (fs', r) \<Longrightarrow>
    (\<exists>new. fs' = fs(name \<mapsto> old @ new) \<and> (r = Inr () \<and> new = lines \<or> r = Inl Exception))"
proof (induction lines arbitrary: i fs old)
  case (Cons line lines)
  show ?case
  proof (cases "fails_write io name i")
    case True
    then show ?thesis using Cons.prems by (auto simp: write_line_def intro!: exI [of _ "[]"])
  next
    case False
    then have "write_lines io name (i + 1) lines (fs(name \<mapsto> old @ [line])) = (fs', r)"
      using Cons.prems by (simp add: write_line_def)
    from Cons.IH [OF _ this] show ?thesis by fastforce
  qed
qed (auto simp: fun_upd_idem)

lemma write_file_effect:
  assumes "write_file io name lines fs = (fs', r)"
  shows "(fs' = fs \<or> (\<exists>new. fs' = fs(name \<mapsto> new))) \<and>
    (r = Inr () \<and> fs' = fs(name \<mapsto> take (length lines - unflushed io name) lines) \<or> r = Inl Exception)"
proof (cases "fails_open io name")
  case False
  then obtain fs2 where w: "write_lines io name 0 lines (fs(name \<mapsto> [])) = (fs2, r)" "fs' = close_output io name fs2"
    using assms by (auto simp: write_file_def open_output_def split: prod.splits)
  from write_lines_effect [OF _ w(1)] w(2) show ?thesis by (auto simp: close_output_def)
qed (use assms in \<open>auto simp: write_file_def open_output_def\<close>)

lemma replace_effect:
  assumes "and_then (write_file io (name @ ''.new'') new fs) (rename_file io (name @ ''.new'') name) = (fs', r)"
  shows "r = Inl Exception \<and> (fs' = fs \<or> (\<exists>n. fs' = fs(name @ ''.new'' \<mapsto> n))) \<or>
    r = Inr () \<and> fs' = fs(name \<mapsto> take (length new - unflushed io (name @ ''.new'')) new, name @ ''.new'' := None)"
proof -
  obtain fs1 r1 where w: "write_file io (name @ ''.new'') new fs = (fs1, r1)" by fastforce
  from write_file_effect [OF w] consider "r1 = Inl Exception" "fs1 = fs \<or> (\<exists>n. fs1 = fs(name @ ''.new'' \<mapsto> n))"
    | "r1 = Inr ()" "fs1 = fs(name @ ''.new'' \<mapsto> take (length new - unflushed io (name @ ''.new'')) new)" by auto
  then show ?thesis using assms w by cases (auto simp: rename_file_def fun_upd_twist split: if_splits)
qed

text \<open>The files after one turn of the loop, however it ends.\<close>

lemma rewrite_file_effect:
  assumes "rewrite_file io tr cy mn md name fs = (fs', r)"
  obtains (unread) "fs name = None" "r = Inl Exception" "fs' = fs"
    | (crash) lines where "fs name = Some lines" "r = Inl Out_of_range" "process tr cy mn md lines = Inl Out_of_range" "fs' = fs"
    | (failed) lines new where "fs name = Some lines" "r = Inl Exception" "fs' = fs \<or> fs' = fs(name @ ''.new'' \<mapsto> new)"
    | (same) lines where "fs name = Some lines" "process tr cy mn md lines = Inr (lines, False)" "r = Inr ()" "fs' = fs"
    | (changed) lines new where "fs name = Some lines" "process tr cy mn md lines = Inr (new, True)" "r = Inr ()"
        "fs' = fs(name \<mapsto> take (length new - unflushed io (name @ ''.new'')) new, name @ ''.new'' := None)"
proof (cases "fs name")
  case None
  then have "r = Inl Exception" "fs' = fs" using assms by (auto simp: rewrite_file_def read_file_def)
  with None show thesis by (rule unread)
next
  case (Some lines)
  note total = process_total [where trim_left = tr and current_year = cy and input_lines = lines, of mn md]
  consider (crashes) "process tr cy mn md lines = Inl Out_of_range" | (keeps) "process tr cy mn md lines = Inr (lines, False)"
    | (changes) new where "process tr cy mn md lines = Inr (new, True)"
    using total by (cases "process tr cy mn md lines") (force split: prod.splits)+
  then show thesis
  proof cases
    case crashes
    then have "r = Inl Out_of_range" "fs' = fs" using assms Some by (auto simp: rewrite_file_def read_file_def)
    with Some crashes show thesis by (intro crash)
  next
    case keeps
    then have "r = Inr ()" "fs' = fs" using assms Some by (auto simp: rewrite_file_def read_file_def)
    with Some keeps show thesis by (intro same)
  next
    case (changes new)
    then have "and_then (write_file io (name @ ''.new'') new fs) (rename_file io (name @ ''.new'') name) = (fs', r)"
      using assms Some by (simp add: rewrite_file_def read_file_def Let_def)
    from replace_effect [OF this] show thesis using failed [OF Some] changed [OF Some changes] by blast
  qed
qed

text \<open>A file keeps its code: it holds what it held, or a new header before the code.\<close>

definition keeps_code :: "(string \<Rightarrow> string) \<Rightarrow> string list option \<Rightarrow> string list option \<Rightarrow> bool" where
  "keeps_code trim_left old new \<longleftrightarrow>
     (case old of
        None \<Rightarrow> new = None
      | Some lines \<Rightarrow> \<exists>dropped rest h. lines = dropped @ rest \<and> comment_region trim_left dropped \<and> new = Some (h @ rest))"

lemma keeps_code_refl [simp]: "keeps_code tr f f"
  using region_end [of tr] by (cases f) (fastforce simp: keeps_code_def)+

lemma process_keeps: "process tr cy mn md lines = Inr (new, ch) \<Longrightarrow> keeps_code tr (Some lines) (Some new)"
  using process_total [where trim_left = tr and current_year = cy and input_lines = lines, of mn md] by (auto simp: keeps_code_def)

lemma rewrite_file_frame:
  assumes "rewrite_file io tr cy mn md name fs = (fs', r)" "other \<noteq> name" "other \<noteq> name @ ''.new''"
  shows "fs' other = fs other"
  using assms(1) by (cases rule: rewrite_file_effect) (use assms in auto)

lemma rewrite_file_named:
  assumes "rewrite_file io tr cy mn md name fs = (fs', r)" "unflushed io (name @ ''.new'') = 0"
  shows "keeps_code tr (fs name) (fs' name)"
  using assms(1) by (cases rule: rewrite_file_effect) (use assms(2) process_keeps in auto)

section \<open>All files\<close>

text \<open>No file is named twice, and none is the temporary file of another.\<close>

definition separate :: "string list \<Rightarrow> bool" where
  "separate names \<longleftrightarrow> distinct names \<and> (\<forall>a \<in> set names. \<forall>b \<in> set names. b \<noteq> a @ ''.new'')"

definition faultless :: "disk \<Rightarrow> bool" where
  "faultless io \<longleftrightarrow> (\<forall>name. \<not> fails_open io name \<and> (\<forall>i. \<not> fails_write io name i) \<and> \<not> fails_rename io name)"

lemma write_lines_faultless: "faultless io \<Longrightarrow> write_lines io name i lines fs = (fs', r) \<Longrightarrow> r = Inr ()"
  by (induction lines arbitrary: i fs) (auto simp: write_line_def faultless_def)

lemma rewrite_file_faultless:
  assumes "faultless io" "rewrite_file io tr cy mn md name fs = (fs', Inl Exception)"
  shows "fs name = None"
proof (rule ccontr)
  assume "fs name \<noteq> None"
  then obtain lines where l: "fs name = Some lines" by auto
  note total = process_total [where trim_left = tr and current_year = cy and input_lines = lines, of mn md]
  have "faultless io \<Longrightarrow> \<not> fails_open io n \<and> \<not> fails_rename io n" for n by (simp add: faultless_def)
  with assms l total show False
    by (auto simp: rewrite_file_def read_file_def write_file_def open_output_def rename_file_def Let_def
        split: sum.splits prod.splits if_splits dest: write_lines_faultless [OF assms(1)])
qed

text \<open>A file was rewritten: it holds what \<^verbatim>\<open>process\<close> returns for what it held.\<close>

definition rewritten ::
  "(string \<Rightarrow> string) \<Rightarrow> int \<Rightarrow> string \<Rightarrow> string \<Rightarrow> string list option \<Rightarrow> string list option \<Rightarrow> bool"
where
  "rewritten trim_left current_year module_name module_desc old new \<longleftrightarrow>
     (case (old, new) of
        (Some lines, Some lines') \<Rightarrow> (\<exists>changed. process trim_left current_year module_name module_desc lines = Inr (lines', changed))
      | _ \<Rightarrow> False)"

lemma rewrite_files_frame:
  assumes "rewrite_files io tr cy mn md names fs = (fs', r)" "other \<notin> set names" "\<forall>name \<in> set names. other \<noteq> name @ ''.new''"
  shows "fs' other = fs other"
  using assms
proof (induction names arbitrary: fs)
  case (Cons name names)
  obtain fs1 r1 where 1: "rewrite_file io tr cy mn md name fs = (fs1, r1)" by fastforce
  have "fs1 other = fs other" using rewrite_file_frame [OF 1] Cons.prems by auto
  with Cons 1 show ?case by (auto simp: and_then_eq)
qed simp

lemma separate_Cons:
  assumes "separate (name # names)"
  shows "separate names" "name \<notin> set names" "n \<in> set names \<Longrightarrow> n \<noteq> name @ ''.new''" "n \<in> set names \<Longrightarrow> name \<noteq> n @ ''.new''"
  using assms by (auto simp: separate_def)

lemma rewrite_files_keep_code:
  assumes "rewrite_files io tr cy mn md names fs = (fs', r)" "separate names" "\<forall>name. unflushed io name = 0" "n \<in> set names"
  shows "keeps_code tr (fs n) (fs' n)"
  using assms
proof (induction names arbitrary: fs)
  case (Cons name names)
  note sep = separate_Cons [OF Cons.prems(2)]
  obtain fs1 r1 where 1: "rewrite_file io tr cy mn md name fs = (fs1, r1)" by fastforce
  show ?case
  proof (cases "n = name")
    case True
    have "fs' name = fs1 name"
      using Cons.prems(1) 1 rewrite_files_frame [of io tr cy mn md names fs1 fs' r name] sep by (auto simp: and_then_eq)
    then show ?thesis using True rewrite_file_named [OF 1] Cons.prems(3) by simp
  next
    case False
    then have n: "n \<in> set names" using Cons.prems(4) by simp
    have "fs1 n = fs n" using rewrite_file_frame [OF 1 False] sep(3) [OF n] by simp
    then show ?thesis using Cons.prems(1,3) Cons.IH [OF _ sep(1) _ n, of fs1] 1 by (auto simp: and_then_eq)
  qed
qed simp

text \<open>A file that makes \<^verbatim>\<open>process\<close> read past its end.\<close>

definition only_comments :: "(string \<Rightarrow> string) \<Rightarrow> string list \<Rightarrow> bool" where
  "only_comments trim_left lines \<longleftrightarrow>
     (\<exists>comments open_comment. lines = comments @ open_comment \<and> comment_region trim_left comments \<and>
        (open_comment = [] \<or> unterminated trim_left open_comment))"

lemma process_crash: "process tr cy mn md lines = Inl e \<Longrightarrow> e = Out_of_range \<and> only_comments tr lines"
  using process_total [where trim_left = tr and current_year = cy and input_lines = lines, of mn md] by (simp add: only_comments_def)

definition ends_well ::
  "disk \<Rightarrow> (string \<Rightarrow> string) \<Rightarrow> int \<Rightarrow> string \<Rightarrow> string \<Rightarrow> string list \<Rightarrow> files \<Rightarrow> files \<Rightarrow> unit result \<Rightarrow> bool"
where
  "ends_well io trim_left current_year module_name module_desc names fs fs' r \<longleftrightarrow>
     (case r of
        Inr _ \<Rightarrow> \<forall>n \<in> set names. rewritten trim_left current_year module_name module_desc (fs n) (fs' n)
      | Inl e \<Rightarrow>
          e = Exception \<and> (faultless io \<longrightarrow> (\<exists>n \<in> set names. fs n = None)) \<or>
          e = Out_of_range \<and> (\<exists>n \<in> set names. \<exists>lines. fs n = Some lines \<and> only_comments trim_left lines))"

lemma rewrite_file_ends_well:
  assumes "rewrite_file io tr cy mn md name fs = (fs', r)" "unflushed io (name @ ''.new'') = 0"
  shows "ends_well io tr cy mn md [name] fs fs' r"
  using assms(1)
proof (cases rule: rewrite_file_effect)
  case (failed lines new)
  then show ?thesis using assms rewrite_file_faultless [of io tr cy mn md name fs fs'] by (auto simp: ends_well_def)
next
  case (crash lines)
  then show ?thesis using process_crash by (auto simp: ends_well_def)
qed (use assms(2) in \<open>auto simp: ends_well_def rewritten_def\<close>)

lemma rewrite_files_end_well:
  assumes "rewrite_files io tr cy mn md names fs = (fs', r)" "separate names" "\<forall>name. unflushed io name = 0"
  shows "ends_well io tr cy mn md names fs fs' r"
  using assms
proof (induction names arbitrary: fs)
  case (Cons name names)
  note sep = separate_Cons [OF Cons.prems(2)]
  obtain fs1 r1 where 1: "rewrite_file io tr cy mn md name fs = (fs1, r1)" by fastforce
  have w1: "ends_well io tr cy mn md [name] fs fs1 r1" using rewrite_file_ends_well [OF 1] Cons.prems(3) by simp
  have same: "fs1 n = fs n" if "n \<in> set names" for n using rewrite_file_frame [OF 1, of n] sep that by auto
  show ?case
  proof (cases r1)
    case (Inl e)
    then show ?thesis using Cons.prems(1) 1 w1 by (auto simp: ends_well_def)
  next
    case (Inr u)
    then have rest: "rewrite_files io tr cy mn md names fs1 = (fs', r)" using Cons.prems(1) 1 by simp
    have w: "ends_well io tr cy mn md names fs1 fs' r" by (rule Cons.IH [OF rest sep(1) Cons.prems(3)])
    have "fs' name = fs1 name" using rewrite_files_frame [OF rest, of name] sep by auto
    then show ?thesis using w w1 Inr same by (auto simp: ends_well_def split: sum.splits)
  qed
qed (auto simp: ends_well_def)

section \<open>Properties\<close>

definition named_files :: "variables_map \<Rightarrow> string list" where
  "named_files vm = (case opt_input_file vm of None \<Rightarrow> [] | Some names \<Rightarrow> names)"

lemma rewrite_main_cases:
  assumes "rewrite_main io parse tr cy argv fs = (fs', e)" "parse argv = Some vm"
  obtains (early) "fs' = fs" "e = Exit 0 \<and> opt_help vm \<or> e = Exit 1 \<and> opt_input_file vm = None \<or>
      e = Uncaught \<and> \<not> opt_help vm \<and> (opt_module_name vm = None) \<noteq> (opt_module_desc vm = None)"
    | (rewriting) mn md r where "module_options vm = (mn, md)" "rewrite_files io tr cy mn md (named_files vm) fs = (fs', r)"
      "e = (case r of Inr _ \<Rightarrow> Exit 0 | Inl f \<Rightarrow> if f = Exception then Exit 1 else Undefined f)"
  using assms
  by (auto simp: rewrite_main_def vm_count_def option_dependency_def named_files_def Let_def split: if_splits option.splits prod.splits)



text \<open>Rewriting a file keeps its code, and the temporary file is gone when the contents changed.\<close>

theorem rewrite_file_keeps_code:
  assumes "rewrite_file io trim_left current_year module_name module_desc name fs = (fs', Inr ())" "unflushed io (name @ ''.new'') = 0"
  shows "keeps_code trim_left (fs name) (fs' name) \<and> (fs' = fs \<or> fs' (name @ ''.new'') = None)"
proof
  show "keeps_code trim_left (fs name) (fs' name)" using rewrite_file_named [OF assms] .
  show "fs' = fs \<or> fs' (name @ ''.new'') = None" using assms(1) by (cases rule: rewrite_file_effect) auto
qed

text \<open>
  The stream is closed by its destructor, which does not report that what was buffered could not be written.
  The truncated file then replaces the original, and the code is lost although the tool reports success.
\<close>

theorem buffered_lines_lost:
  assumes "process trim_left current_year module_name module_desc lines = Inr (new, True)" "faultless io"
    and "fs name = Some lines" "length new \<le> unflushed io (name @ ''.new'')"
  shows "\<exists>fs'. rewrite_file io trim_left current_year module_name module_desc name fs = (fs', Inr ()) \<and> fs' name = Some []"
proof -
  obtain fs' r where r: "rewrite_file io trim_left current_year module_name module_desc name fs = (fs', r)" by fastforce
  then show ?thesis
  proof (cases rule: rewrite_file_effect)
    case (failed l n)
    with r have "rewrite_file io trim_left current_year module_name module_desc name fs = (fs', Inl Exception)" by simp
    from rewrite_file_faultless [OF assms(2) this] assms(3) show ?thesis by simp
  qed (use r assms in auto)
qed

end
