(* ===== verification/Timers.thy ===== *)
theory Timers
  imports Prelude
begin

text \<open>
  The two reference implementations of running timers in \<^verbatim>\<open>src/timer_test.cxx\<close>, a multimap and a
  priority queue, which the program, compiled with \<^verbatim>\<open>TEST_ALL_THREE\<close>, runs side by side and compares. Both implement the same
  interface; the order in which \<^verbatim>\<open>std::priority_queue\<close> delivers equal elements is not specified and
  is a parameter.
\<close>

section \<open>Timers\<close>

text \<open>
  A timer is known by its index in the vector of timers. Its call-back either is one of the
  functions \<^verbatim>\<open>expire0\<close>, \<^verbatim>\<open>expire1\<close> (which only set \<^verbatim>\<open>output\<close>) or stops another timer.
\<close>

type_synonym time_point = int

datatype call_back = Expire | Stop_timer nat

definition loopsize :: int where
  "loopsize = 10000000"

definition now :: "int \<Rightarrow> time_point" where
  "now n = c_div 10000000000 loopsize * n"

definition max_interval_index :: int where
  "max_interval_index = 38"

text \<open>The array \<^verbatim>\<open>durations\<close>, in nanoseconds.\<close>

definition durations :: "int list" where
  "durations = map ((*) 1000)
     [100, 150, 200, 250, 500,
      1000, 2000, 3000, 4000, 5000, 6000, 8000,
      10000, 12000, 15000, 20000, 25000, 30000, 50000,
      100000, 200000, 500000,
      1000000, 1200000, 1500000, 1800000, 2000000, 2200000, 2500000,
      5000000, 7000000,
      3000000, 4000000, 5000000, 6000000, 7000000, 8000000, 9000000, 10000000]"

section \<open>The multimap\<close>

text \<open>
  A node of the multimap has a key, an identity (what an iterator points at) and the pointer to
  the timer, which is null after the timer was cancelled. A handle is an iterator; \<^const>\<open>None\<close> is the
  end iterator.
\<close>

record map_node =
  node_key :: time_point
  node_id :: nat
  node_timer :: "nat option"

record TimerImpl0 =
  m_handle0 :: "nat option"
  m_expiration_point0 :: time_point
  m_call_back0 :: call_back

record RunningTimers0 =
  timers0 :: "nat \<Rightarrow> TimerImpl0"
  m_map :: "map_node list"
  next_id :: nat
  running_timers_0 :: int
  expired_timers_0 :: int
  canceled_removed_0 :: int
  canceled_timers_0 :: int
  last_time_point :: time_point
  last_sequence_0 :: nat

definition new_timers0 :: RunningTimers0 where
  "new_timers0 =
     \<lparr>timers0 = (\<lambda>_. \<lparr>m_handle0 = None, m_expiration_point0 = 0, m_call_back0 = Expire\<rparr>), m_map = [], next_id = 0,
      running_timers_0 = 0, expired_timers_0 = 0, canceled_removed_0 = 0, canceled_timers_0 = 0,
      last_time_point = 0, last_sequence_0 = 0\<rparr>"

definition is_running0 :: "nat \<Rightarrow> RunningTimers0 \<Rightarrow> bool" where
  "is_running0 i s \<longleftrightarrow> m_handle0 (timers0 s i) \<noteq> None"

text \<open>\<^verbatim>\<open>TimerHandleImpl<0>::set_not_running\<close>\<close>

definition set_not_running0 :: "nat \<Rightarrow> RunningTimers0 \<Rightarrow> RunningTimers0 result" where
  "set_not_running0 i s =
     (case m_handle0 (timers0 s i) of
        None \<Rightarrow> Inl Assertion_failed
      | Some it \<Rightarrow>
          if \<exists>n \<in> set (m_map s). node_id n = it \<and> node_timer n \<noteq> None then
            Inr (s\<lparr>canceled_timers_0 := canceled_timers_0 s + 1,
                   running_timers_0 := running_timers_0 s - 1,
                   m_map := map (\<lambda>n. if node_id n = it then n\<lparr>node_timer := None\<rparr> else n) (m_map s),
                   timers0 := (timers0 s)(i := (timers0 s i)\<lparr>m_handle0 := None\<rparr>)\<rparr>)
          else Inl Assertion_failed)"

definition is_current0 :: "nat \<Rightarrow> RunningTimers0 \<Rightarrow> bool result" where
  "is_current0 i s =
     (case m_handle0 (timers0 s i) of
        None \<Rightarrow> Inl Assertion_failed
      | Some it \<Rightarrow> Inr (case m_map s of n # _ \<Rightarrow> node_id n = it | [] \<Rightarrow> False))"

text \<open>\<^verbatim>\<open>emplace\<close> puts a node behind those with an equal key.\<close>

primrec emplace :: "map_node \<Rightarrow> map_node list \<Rightarrow> map_node list" where
  "emplace n [] = [n]"
| "emplace n (x # xs) = (if node_key n < node_key x then n # x # xs else x # emplace n xs)"

definition push0 :: "nat \<Rightarrow> RunningTimers0 \<Rightarrow> RunningTimers0 \<times> nat" where
  "push0 i s =
     (s\<lparr>running_timers_0 := running_timers_0 s + 1,
        m_map := emplace \<lparr>node_key = m_expiration_point0 (timers0 s i), node_id = next_id s, node_timer = Some i\<rparr> (m_map s),
        next_id := next_id s + 1\<rparr>,
      next_id s)"

definition start0 :: "nat \<Rightarrow> int \<Rightarrow> call_back \<Rightarrow> time_point \<Rightarrow> RunningTimers0 \<Rightarrow> RunningTimers0 result" where
  "start0 i interval cb tnow s =
     bindE (assertE (\<not> is_running0 i s)) (\<lambda>_.
       let s1 = s\<lparr>timers0 := (timers0 s)(i := (timers0 s i)\<lparr>m_expiration_point0 := tnow + interval, m_call_back0 := cb\<rparr>)\<rparr>;
           (s2, it) = push0 i s1;
           s3 = s2\<lparr>timers0 := (timers0 s2)(i := (timers0 s2 i)\<lparr>m_handle0 := Some it\<rparr>)\<rparr>
       in bindE (is_current0 i s3) (\<lambda>_. Inr s3))"

definition stop0 :: "nat \<Rightarrow> RunningTimers0 \<Rightarrow> RunningTimers0 result" where
  "stop0 i s =
     (if is_running0 i s then bindE (is_current0 i s) (\<lambda>update. set_not_running0 i s)
      else Inr s)"

definition call0 :: "call_back \<Rightarrow> RunningTimers0 \<Rightarrow> RunningTimers0 result" where
  "call0 cb s = (case cb of Expire \<Rightarrow> Inr s | Stop_timer j \<Rightarrow> stop0 j s)"

definition expire0 :: "nat \<Rightarrow> RunningTimers0 \<Rightarrow> RunningTimers0 result" where
  "expire0 i s =
     bindE (assertE (is_running0 i s)) (\<lambda>_.
     bindE (set_not_running0 i s) (\<lambda>s1.
     bindE (call0 (m_call_back0 (timers0 s1 i))
              (s1\<lparr>last_time_point := m_expiration_point0 (timers0 s1 i), last_sequence_0 := i + 1\<rparr>)) (\<lambda>s2.
       Inr (s2\<lparr>expired_timers_0 := expired_timers_0 s2 + 1\<rparr>))))"

definition erase :: "nat \<Rightarrow> RunningTimers0 \<Rightarrow> RunningTimers0" where
  "erase it s = s\<lparr>m_map := filter (\<lambda>n. node_id n \<noteq> it) (m_map s)\<rparr>"

text \<open>
  \<^verbatim>\<open>expire_next\<close>: both loops remove the first node in every round, so that the number of nodes
  bounds the number of rounds.
\<close>

primrec expire_first0 :: "nat \<Rightarrow> RunningTimers0 \<Rightarrow> (RunningTimers0 \<times> time_point) result" where
  "expire_first0 0 s = Inl Assertion_failed"
| "expire_first0 (Suc k) s =
     (case m_map s of
        [] \<Rightarrow> Inl Assertion_failed
      | b # _ \<Rightarrow>
          (case node_timer b of
             Some i \<Rightarrow>
               let current = m_expiration_point0 (timers0 s i) in
               bindE (expire0 i s) (\<lambda>s1. Inr (erase (node_id b) s1, current))
           | None \<Rightarrow> expire_first0 k (erase (node_id b) (s\<lparr>canceled_removed_0 := canceled_removed_0 s + 1\<rparr>))))"

primrec expire_same0 :: "nat \<Rightarrow> time_point \<Rightarrow> RunningTimers0 \<Rightarrow> RunningTimers0 result" where
  "expire_same0 0 current s = Inr s"
| "expire_same0 (Suc k) current s =
     (case m_map s of
        [] \<Rightarrow> Inr s
      | b # _ \<Rightarrow>
          (case node_timer b of
             Some i \<Rightarrow>
               bindE (assertE (m_expiration_point0 (timers0 s i) \<ge> current)) (\<lambda>_.
                 if m_expiration_point0 (timers0 s i) \<noteq> current then Inr s
                 else bindE (expire0 i s) (\<lambda>s1. expire_same0 k current (erase (node_id b) s1)))
           | None \<Rightarrow> expire_same0 k current (erase (node_id b) (s\<lparr>canceled_removed_0 := canceled_removed_0 s + 1\<rparr>))))"

definition expire_next0 :: "RunningTimers0 \<Rightarrow> RunningTimers0 result" where
  "expire_next0 s =
     bindE (expire_first0 (length (m_map s)) s) (\<lambda>(s1, current). expire_same0 (length (m_map s1)) current s1)"

section \<open>The priority queue\<close>

record TimerImpl1 =
  m_handle1 :: bool
  m_expiration_point1 :: time_point
  m_call_back1 :: call_back
  m_canceled_1 :: bool

record RunningTimers1 =
  timers1 :: "nat \<Rightarrow> TimerImpl1"
  m_pqueue :: "(time_point \<times> nat) list"

type_synonym pick = "(time_point \<times> nat) list \<Rightarrow> nat"

definition new_timers1 :: RunningTimers1 where
  "new_timers1 =
     \<lparr>timers1 = (\<lambda>_. \<lparr>m_handle1 = False, m_expiration_point1 = 0, m_call_back1 = Expire, m_canceled_1 = False\<rparr>),
      m_pqueue = []\<rparr>"

definition pq_top :: "pick \<Rightarrow> RunningTimers1 \<Rightarrow> (time_point \<times> nat) result" where
  "pq_top pick s = (if m_pqueue s = [] then Inl Out_of_range else Inr (m_pqueue s ! pick (m_pqueue s)))"

definition pq_pop :: "pick \<Rightarrow> RunningTimers1 \<Rightarrow> RunningTimers1" where
  "pq_pop pick s = (let q = m_pqueue s; k = pick q in s\<lparr>m_pqueue := take k q @ drop (Suc k) q\<rparr>)"

definition is_current1 :: "pick \<Rightarrow> nat \<Rightarrow> RunningTimers1 \<Rightarrow> bool result" where
  "is_current1 pick i s = bindE (pq_top pick s) (\<lambda>d. Inr (m_handle1 (timers1 s i) \<and> snd d = i))"

definition start1 :: "pick \<Rightarrow> nat \<Rightarrow> int \<Rightarrow> call_back \<Rightarrow> time_point \<Rightarrow> RunningTimers1 \<Rightarrow> RunningTimers1 result" where
  "start1 pick i interval cb tnow s =
     bindE (assertE (\<not> m_handle1 (timers1 s i))) (\<lambda>_.
       let t = (timers1 s i)\<lparr>m_expiration_point1 := tnow + interval, m_call_back1 := cb, m_handle1 := True, m_canceled_1 := False\<rparr>;
           s1 = s\<lparr>timers1 := (timers1 s)(i := t), m_pqueue := m_pqueue s @ [(tnow + interval, i)]\<rparr>
       in bindE (is_current1 pick i s1) (\<lambda>_. Inr s1))"

definition stop1 :: "pick \<Rightarrow> nat \<Rightarrow> RunningTimers1 \<Rightarrow> RunningTimers1 result" where
  "stop1 pick i s =
     (if m_handle1 (timers1 s i) then
        bindE (is_current1 pick i s) (\<lambda>update.
        bindE (assertE (\<not> m_canceled_1 (timers1 s i))) (\<lambda>_.
          Inr (s\<lparr>timers1 := (timers1 s)(i := (timers1 s i)\<lparr>m_canceled_1 := True, m_handle1 := False\<rparr>)\<rparr>)))
      else Inr s)"

definition call1 :: "pick \<Rightarrow> call_back \<Rightarrow> RunningTimers1 \<Rightarrow> RunningTimers1 result" where
  "call1 pick cb s = (case cb of Expire \<Rightarrow> Inr s | Stop_timer j \<Rightarrow> stop1 pick j s)"

text \<open>\<^verbatim>\<open>expire\<close> compares with \<^verbatim>\<open>last_time_point\<close>, which the multimap has set.\<close>

definition expire1 :: "pick \<Rightarrow> time_point \<Rightarrow> nat \<Rightarrow> RunningTimers1 \<Rightarrow> RunningTimers1 result" where
  "expire1 pick ltp i s =
     bindE (assertE (m_handle1 (timers1 s i))) (\<lambda>_.
     bindE (assertE (\<not> m_canceled_1 (timers1 s i))) (\<lambda>_.
     bindE (assertE (ltp = m_expiration_point1 (timers1 s i))) (\<lambda>_.
       call1 pick (m_call_back1 (timers1 s i)) (s\<lparr>timers1 := (timers1 s)(i := (timers1 s i)\<lparr>m_handle1 := False\<rparr>)\<rparr>))))"

primrec expire_first1 :: "pick \<Rightarrow> time_point \<Rightarrow> nat \<Rightarrow> RunningTimers1 \<Rightarrow> (RunningTimers1 \<times> time_point) result" where
  "expire_first1 pick ltp 0 s = Inl Assertion_failed"
| "expire_first1 pick ltp (Suc k) s =
     bindE (assertE (m_pqueue s \<noteq> [])) (\<lambda>_.
     bindE (pq_top pick s) (\<lambda>(t, i).
       if \<not> m_canceled_1 (timers1 s i) then
         let current = m_expiration_point1 (timers1 s i) in
         bindE (expire1 pick ltp i s) (\<lambda>s1.
           let s2 = pq_pop pick s1 in
           if m_canceled_1 (timers1 s2 i) then expire_first1 pick ltp k s2 else Inr (s2, current))
       else expire_first1 pick ltp k (pq_pop pick s)))"

primrec expire_same1 :: "pick \<Rightarrow> time_point \<Rightarrow> nat \<Rightarrow> time_point \<Rightarrow> RunningTimers1 \<Rightarrow> RunningTimers1 result" where
  "expire_same1 pick ltp 0 current s = Inr s"
| "expire_same1 pick ltp (Suc k) current s =
     (if m_pqueue s = [] then Inr s
      else
        bindE (pq_top pick s) (\<lambda>(t, i).
          if \<not> m_canceled_1 (timers1 s i) then
            bindE (assertE (m_expiration_point1 (timers1 s i) \<ge> current)) (\<lambda>_.
              if m_expiration_point1 (timers1 s i) \<noteq> current then Inr s
              else bindE (expire1 pick ltp i s) (\<lambda>s1. expire_same1 pick ltp k current (pq_pop pick s1)))
          else expire_same1 pick ltp k current (pq_pop pick s)))"

definition expire_next1 :: "pick \<Rightarrow> time_point \<Rightarrow> RunningTimers1 \<Rightarrow> RunningTimers1 result" where
  "expire_next1 pick ltp s =
     bindE (expire_first1 pick ltp (length (m_pqueue s)) s)
       (\<lambda>(s1, current). expire_same1 pick ltp (length (m_pqueue s1)) current s1)"

section \<open>The test\<close>

text \<open>
  The state of \<^verbatim>\<open>generate\<close>: the two implementations and the number \<^verbatim>\<open>nt\<close> of timers used.
\<close>

record generator =
  impl0 :: RunningTimers0
  impl1 :: RunningTimers1
  nt :: nat

definition start_both :: "pick \<Rightarrow> nat \<Rightarrow> int \<Rightarrow> call_back \<Rightarrow> time_point \<Rightarrow> generator \<Rightarrow> generator result" where
  "start_both pick i interval cb tnow g =
     bindE (start0 i interval cb tnow (impl0 g)) (\<lambda>a.
     bindE (start1 pick i interval cb tnow (impl1 g)) (\<lambda>b. Inr (g\<lparr>impl0 := a, impl1 := b\<rparr>)))"

definition expire_both :: "pick \<Rightarrow> generator \<Rightarrow> generator result" where
  "expire_both pick g =
     bindE (expire_next0 (impl0 g)) (\<lambda>a.
     bindE (expire_next1 pick (last_time_point a) (impl1 g)) (\<lambda>b. Inr (g\<lparr>impl0 := a, impl1 := b\<rparr>)))"

text \<open>The body of the first loop for the random interval index \<^verbatim>\<open>index\<close>.\<close>

definition generate_body :: "pick \<Rightarrow> int \<Rightarrow> int \<Rightarrow> generator \<Rightarrow> generator result" where
  "generate_body pick n index g =
     bindE (get_at durations index) (\<lambda>interval.
     let i = nt g in
     bindE (start_both pick i interval Expire (now n) (g\<lparr>nt := i + 1\<rparr>)) (\<lambda>g1.
       if n mod 2 = 0 \<and> index > 0 then
         bindE (get_at durations (index - 1)) (\<lambda>interval2.
         bindE (start_both pick (i + 1) interval2 (Stop_timer i) (now n) g1) (\<lambda>g2.
           expire_both pick (g2\<lparr>nt := i + 2\<rparr>)))
       else Inr g1))"

primrec generate_loop :: "pick \<Rightarrow> int \<Rightarrow> int list \<Rightarrow> generator \<Rightarrow> generator result" where
  "generate_loop pick n [] g = Inr g"
| "generate_loop pick n (index # random_intervals) g =
     bindE (generate_body pick n index g) (generate_loop pick (n + 1) random_intervals)"

text \<open>How many timers of type Y the first loop creates, as counted when the random numbers are drawn.\<close>

primrec extra_timers :: "int \<Rightarrow> int list \<Rightarrow> nat" where
  "extra_timers n [] = 0"
| "extra_timers n (index # random_intervals) =
     (if n mod 2 = 0 \<and> index > 0 then Suc (extra_timers (n + 1) random_intervals)
      else extra_timers (n + 1) random_intervals)"

definition ne :: int where
  "ne = min 131215 loopsize"

definition generate :: "pick \<Rightarrow> int list \<Rightarrow> generator result" where
  "generate pick random_intervals =
     generate_loop pick 0 (take (nat ne) random_intervals) \<lparr>impl0 = new_timers0, impl1 = new_timers1, nt = 0\<rparr>"

section \<open>Specification\<close>

text \<open>
  What both implementations implement: the running timers with their expiration points and
  call-backs. Expiring timer \<^term>\<open>i\<close> removes it and, when its call-back stops another timer, that one;
  \<^verbatim>\<open>expire_all t\<close> expires the timers of time \<^term>\<open>t\<close> one by one in any order. Where no timer stops another
  timer of the same time, the order does not matter and \<^verbatim>\<open>after_expiry\<close> is the result.
\<close>

type_synonym active = "nat \<rightharpoonup> time_point \<times> call_back"

definition abs_expire :: "nat \<Rightarrow> active \<Rightarrow> active" where
  "abs_expire i r =
     (case r i of
        Some (t, Stop_timer j) \<Rightarrow> r(i := None, j := None)
      | _ \<Rightarrow> r(i := None))"

inductive expire_all :: "time_point \<Rightarrow> active \<Rightarrow> active \<Rightarrow> bool" for t where
  all_expired: "(\<And>i cb. r i \<noteq> Some (t, cb)) \<Longrightarrow> expire_all t r r"
| expire_one: "r i = Some (t, cb) \<Longrightarrow> expire_all t (abs_expire i r) r' \<Longrightarrow> expire_all t r r'"

definition is_min :: "time_point \<Rightarrow> active \<Rightarrow> bool" where
  "is_min t r \<longleftrightarrow> (\<exists>i cb. r i = Some (t, cb)) \<and> (\<forall>i u cb. r i = Some (u, cb) \<longrightarrow> t \<le> u)"

definition no_ties :: "active \<Rightarrow> bool" where
  "no_ties r \<longleftrightarrow> (\<forall>i j t u cb. r j = Some (t, Stop_timer i) \<and> r i = Some (u, cb) \<longrightarrow> t \<noteq> u)"

definition after_expiry :: "time_point \<Rightarrow> active \<Rightarrow> active" where
  "after_expiry t r = (\<lambda>i.
     if (\<exists>cb. r i = Some (t, cb)) \<or> (\<exists>j. r j = Some (t, Stop_timer i)) then None else r i)"

text \<open>
  The multimap: which timers run, and the invariant that ties handles and nodes together.
\<close>

definition active_of :: "(nat \<Rightarrow> TimerImpl0) \<Rightarrow> active" where
  "active_of T i =
     (case m_handle0 (T i) of None \<Rightarrow> None | Some _ \<Rightarrow> Some (m_expiration_point0 (T i), m_call_back0 (T i)))"

definition active0 :: "RunningTimers0 \<Rightarrow> active" where
  "active0 s = active_of (timers0 s)"

definition nodes_ok :: "(nat \<Rightarrow> TimerImpl0) \<Rightarrow> map_node list \<Rightarrow> bool" where
  "nodes_ok T ns \<longleftrightarrow>
     sorted (map node_key ns) \<and> distinct (map node_id ns) \<and>
     (\<forall>n \<in> set ns. \<forall>i. node_timer n = Some i \<longrightarrow>
        m_handle0 (T i) = Some (node_id n) \<and> m_expiration_point0 (T i) = node_key n) \<and>
     (\<forall>i it. m_handle0 (T i) = Some it \<longrightarrow> (\<exists>n \<in> set ns. node_id n = it \<and> node_timer n = Some i))"

definition inv0 :: "RunningTimers0 \<Rightarrow> bool" where
  "inv0 s \<longleftrightarrow> nodes_ok (timers0 s) (m_map s) \<and> (\<forall>n \<in> set (m_map s). node_id n < next_id s)"

definition null_node :: "nat \<Rightarrow> map_node \<Rightarrow> map_node" where
  "null_node it n = (if node_id n = it then n\<lparr>node_timer := None\<rparr> else n)"

text \<open>What stopping and expiring a timer do to the list of nodes: only timers are set to null.\<close>

definition fades :: "map_node \<Rightarrow> map_node \<Rightarrow> bool" where
  "fades n n' \<longleftrightarrow> node_id n' = node_id n \<and> (node_timer n' = None \<or> node_timer n' = node_timer n)"

definition same_nodes :: "RunningTimers0 \<Rightarrow> RunningTimers0 \<Rightarrow> bool" where
  "same_nodes s s' \<longleftrightarrow> list_all2 fades (m_map s) (m_map s')"

text \<open>
  The priority queue: \<^verbatim>\<open>top\<close> is some element with the smallest time point. The invariant allows
  an entry whose timer was cancelled; \<^verbatim>\<open>startable1\<close> says that a timer has no such left-over entry.
\<close>

definition pick_ok :: "pick \<Rightarrow> bool" where
  "pick_ok pick \<longleftrightarrow> (\<forall>q. q \<noteq> [] \<longrightarrow> pick q < length q \<and> (\<forall>x \<in> set q. fst (q ! pick q) \<le> fst x))"

definition active1 :: "RunningTimers1 \<Rightarrow> active" where
  "active1 s i =
     (if m_handle1 (timers1 s i) then Some (m_expiration_point1 (timers1 s i), m_call_back1 (timers1 s i)) else None)"

definition entries_ok :: "(nat \<Rightarrow> TimerImpl1) \<Rightarrow> (time_point \<times> nat) list \<Rightarrow> bool" where
  "entries_ok T q \<longleftrightarrow> distinct (map snd q) \<and>
     (\<forall>t i. (t, i) \<in> set q \<longrightarrow> m_handle1 (T i) = (\<not> m_canceled_1 (T i))) \<and>
     (\<forall>t i. (t, i) \<in> set q \<longrightarrow> m_handle1 (T i) \<longrightarrow> m_expiration_point1 (T i) = t) \<and>
     (\<forall>i. m_handle1 (T i) \<longrightarrow> i \<in> snd ` set q)"

definition inv1 :: "RunningTimers1 \<Rightarrow> bool" where
  "inv1 s \<longleftrightarrow> entries_ok (timers1 s) (m_pqueue s)"

definition startable1 :: "RunningTimers1 \<Rightarrow> nat \<Rightarrow> bool" where
  "startable1 s i \<longleftrightarrow> \<not> m_handle1 (timers1 s i) \<and> i \<notin> snd ` set (m_pqueue s)"

definition remove_at :: "nat \<Rightarrow> 'a list \<Rightarrow> 'a list" where
  "remove_at k q = take k q @ drop (Suc k) q"

definition stopped :: "nat \<Rightarrow> (nat \<Rightarrow> TimerImpl1) \<Rightarrow> nat \<Rightarrow> TimerImpl1" where
  "stopped j T = T(j := (T j)\<lparr>m_canceled_1 := m_canceled_1 (T j) \<or> m_handle1 (T j), m_handle1 := False\<rparr>)"

text \<open>
  One such choice: the first of the smallest elements.
\<close>

primrec first_min :: "(time_point \<times> nat) list \<Rightarrow> nat" where
  "first_min [] = 0"
| "first_min (x # xs) = (if list_all (\<lambda>y. fst x \<le> fst y) xs then 0 else Suc (first_min xs))"

text \<open>
  The two implementations of the test in step: both hold the same running timers, timers from
  \<^term>\<open>k\<close> on were never started, and call-backs stop only timers below \<^term>\<open>k\<close>.
\<close>

definition targets_old :: "nat \<Rightarrow> active \<Rightarrow> bool" where
  "targets_old k r \<longleftrightarrow> (\<forall>i x. r i = Some x \<longrightarrow> i < k) \<and> (\<forall>j t i. r j = Some (t, Stop_timer i) \<longrightarrow> i < k)"

definition in_step :: "nat \<Rightarrow> generator \<Rightarrow> bool" where
  "in_step k g \<longleftrightarrow> inv0 (impl0 g) \<and> inv1 (impl1 g) \<and> active1 (impl1 g) = active0 (impl0 g) \<and>
     (\<forall>i \<ge> k. startable1 (impl1 g) i) \<and> no_ties (active0 (impl0 g)) \<and> targets_old k (active0 (impl0 g))"

text \<open>The call-back of a new timer: it leaves other timers alone or stops an older one that expires at another time.\<close>

definition fresh_call_back :: "nat \<Rightarrow> time_point \<Rightarrow> call_back \<Rightarrow> active \<Rightarrow> bool" where
  "fresh_call_back i t cb r \<longleftrightarrow>
     (case cb of Expire \<Rightarrow> True | Stop_timer j \<Rightarrow> j < i \<and> (\<forall>u c. r j = Some (u, c) \<longrightarrow> u \<noteq> t))"

section \<open>The interface\<close>

text \<open>
  The interface of a set of running timers. The laws say what \<^verbatim>\<open>start\<close>, \<^verbatim>\<open>stop\<close> and \<^verbatim>\<open>expire_next\<close>
  do to the running timers and that they fail no assertion; \<^verbatim>\<open>startable\<close> says which timers may be
  started. \<^verbatim>\<open>expire_next\<close> gets the time at which the next timer expires, which one of the two
  implementations compares with.
\<close>

locale running_timers =
  fixes inv :: "'s \<Rightarrow> bool"
    and active :: "'s \<Rightarrow> active"
    and startable :: "'s \<Rightarrow> nat \<Rightarrow> bool"
    and start :: "nat \<Rightarrow> int \<Rightarrow> call_back \<Rightarrow> time_point \<Rightarrow> 's \<Rightarrow> 's result"
    and stop :: "nat \<Rightarrow> 's \<Rightarrow> 's result"
    and expire_next :: "time_point \<Rightarrow> 's \<Rightarrow> 's result"
  assumes start_law: "inv s \<Longrightarrow> startable s i \<Longrightarrow>
      \<exists>s'. start i interval cb tnow s = Inr s' \<and> inv s' \<and> active s' = (active s)(i \<mapsto> (tnow + interval, cb)) \<and>
        (\<forall>j. j \<noteq> i \<longrightarrow> startable s j \<longrightarrow> startable s' j)"
    and stop_law: "inv s \<Longrightarrow>
      \<exists>s'. stop i s = Inr s' \<and> inv s' \<and> active s' = (active s)(i := None) \<and> (\<forall>j. startable s j \<longrightarrow> startable s' j)"
    and expire_law: "inv s \<Longrightarrow> is_min t (active s) \<Longrightarrow>
      \<exists>s'. expire_next t s = Inr s' \<and> inv s' \<and> expire_all t (active s) (active s') \<and>
        (\<forall>j. startable s j \<longrightarrow> startable s' j)"

lemma abs_expire_no_ties: "no_ties r \<Longrightarrow> no_ties (abs_expire i r)"
  by (auto simp: no_ties_def abs_expire_def split: option.splits call_back.splits if_splits)

lemma abs_expire_after:
  assumes "r i = Some (t, cb)" "no_ties r"
  shows "after_expiry t (abs_expire i r) = after_expiry t r"
proof (cases cb)
  case Expire
  with assms have "(\<exists>j. j \<noteq> i \<and> r j = Some (t, Stop_timer x)) = (\<exists>j. r j = Some (t, Stop_timer x))" for x
    by (metis call_back.distinct(1) option.inject prod.inject)
  with assms Expire show ?thesis by (auto simp: after_expiry_def abs_expire_def fun_eq_iff)
next
  case (Stop_timer k)
  have "r k \<noteq> Some (t, c)" for c using assms Stop_timer unfolding no_ties_def by blast
  moreover from this assms Stop_timer
  have "x \<noteq> k \<Longrightarrow> (\<exists>j. j \<noteq> i \<and> j \<noteq> k \<and> r j = Some (t, Stop_timer x)) = (\<exists>j. r j = Some (t, Stop_timer x))" for x
    by (metis call_back.inject option.inject prod.inject)
  ultimately show ?thesis using assms Stop_timer by (auto simp: after_expiry_def abs_expire_def fun_eq_iff)
qed

lemma expire_all_result:
  assumes "expire_all t r r'" "no_ties r"
  shows "r' = after_expiry t r"
  using assms
proof (induction rule: expire_all.induct)
  case (all_expired r)
  then show ?case by (auto simp: after_expiry_def fun_eq_iff)
next
  case (expire_one r i cb r')
  then show ?case by (simp add: abs_expire_no_ties abs_expire_after)
qed

lemma after_expiry_no_ties: "no_ties r \<Longrightarrow> no_ties (after_expiry t r)"
  by (auto simp: no_ties_def after_expiry_def split: if_splits)

lemma abs_expire_subset: "abs_expire i r j = Some x \<Longrightarrow> r j = Some x"
  by (auto simp: abs_expire_def split: option.splits call_back.splits if_splits)

lemma expire_all_shrinks: "expire_all t r r' \<Longrightarrow> r i = None \<Longrightarrow> r' i = None"
  by (induction rule: expire_all.induct) (auto simp: abs_expire_def split: option.splits call_back.splits)

section \<open>The multimap implements the interface\<close>

lemma active_of_upd [simp]:
  "active_of (T(i := x)) = (active_of T)(i := case m_handle0 x of None \<Rightarrow> None | Some _ \<Rightarrow> Some (m_expiration_point0 x, m_call_back0 x))"
  by (auto simp: active_of_def fun_eq_iff split: option.splits)

lemma active_of_Some:
  "active_of T i = Some (t, cb) \<longleftrightarrow> (\<exists>it. m_handle0 (T i) = Some it) \<and> m_expiration_point0 (T i) = t \<and> m_call_back0 (T i) = cb"
  "active_of T i = None \<longleftrightarrow> m_handle0 (T i) = None"
  by (auto simp: active_of_def split: option.splits)

lemma null_node_simps [simp]:
  "node_key (null_node it n) = node_key n" "node_id (null_node it n) = node_id n"
  "node_timer (null_node it n) = (if node_id n = it then None else node_timer n)"
  by (simp_all add: null_node_def)

lemma nodes_ok_timer:
  "nodes_ok T ns \<Longrightarrow> n \<in> set ns \<Longrightarrow> node_timer n = Some i \<Longrightarrow>
     m_handle0 (T i) = Some (node_id n) \<and> m_expiration_point0 (T i) = node_key n"
  unfolding nodes_ok_def by blast

lemma nodes_ok_handle:
  "nodes_ok T ns \<Longrightarrow> m_handle0 (T i) = Some it \<Longrightarrow> \<exists>n \<in> set ns. node_id n = it \<and> node_timer n = Some i"
  unfolding nodes_ok_def by blast

lemma nodes_ok_id: "nodes_ok T ns \<Longrightarrow> m \<in> set ns \<Longrightarrow> n \<in> set ns \<Longrightarrow> node_id m = node_id n \<Longrightarrow> m = n"
  unfolding nodes_ok_def by (metis distinct_map inj_onD)

lemma nodes_okI:
  assumes "sorted (map node_key ns)" "distinct (map node_id ns)"
    and "\<And>n i. n \<in> set ns \<Longrightarrow> node_timer n = Some i \<Longrightarrow> m_handle0 (T i) = Some (node_id n) \<and> m_expiration_point0 (T i) = node_key n"
    and "\<And>i it. m_handle0 (T i) = Some it \<Longrightarrow> \<exists>n \<in> set ns. node_id n = it \<and> node_timer n = Some i"
  shows "nodes_ok T ns"
  using assms unfolding nodes_ok_def by blast

lemma nodes_ok_null:
  assumes ok: "nodes_ok T ns" and it: "m_handle0 (T i) = Some it"
  shows "nodes_ok (T(i := (T i)\<lparr>m_handle0 := None\<rparr>)) (map (null_node it) ns)"
proof (rule nodes_okI)
  have e: "map node_key (map (null_node it) ns) = map node_key ns" "map node_id (map (null_node it) ns) = map node_id ns"
    by simp_all
  show "sorted (map node_key (map (null_node it) ns))" "distinct (map node_id (map (null_node it) ns))"
    unfolding e using ok by (simp_all add: nodes_ok_def)
next
  fix n' j assume "n' \<in> set (map (null_node it) ns)" "node_timer n' = Some j"
  then obtain n where n: "n \<in> set ns" "n' = null_node it n" "node_id n \<noteq> it" "node_timer n = Some j"
    by (auto split: if_splits)
  with nodes_ok_timer [OF ok n(1,4)] it have "j \<noteq> i" by auto
  with nodes_ok_timer [OF ok n(1,4)] n show "m_handle0 ((T(i := (T i)\<lparr>m_handle0 := None\<rparr>)) j) = Some (node_id n') \<and>
      m_expiration_point0 ((T(i := (T i)\<lparr>m_handle0 := None\<rparr>)) j) = node_key n'" by simp
next
  fix j it' assume h: "m_handle0 ((T(i := (T i)\<lparr>m_handle0 := None\<rparr>)) j) = Some it'"
  then have j: "j \<noteq> i" "m_handle0 (T j) = Some it'" by (auto split: if_splits)
  obtain n where n: "n \<in> set ns" "node_id n = it'" "node_timer n = Some j" using nodes_ok_handle [OF ok j(2)] by blast
  obtain n0 where n0: "n0 \<in> set ns" "node_id n0 = it" "node_timer n0 = Some i" using nodes_ok_handle [OF ok it] by blast
  have "it' \<noteq> it" using nodes_ok_id [OF ok n(1) n0(1)] n n0 j(1) by auto
  with n show "\<exists>n \<in> set (map (null_node it) ns). node_id n = it' \<and> node_timer n = Some j"
    by (auto intro!: bexI [of _ n])
qed

lemma set_not_running0_ok:
  assumes "inv0 s" "m_handle0 (timers0 s i) = Some it"
  shows "set_not_running0 i s = Inr (s\<lparr>canceled_timers_0 := canceled_timers_0 s + 1,
                   running_timers_0 := running_timers_0 s - 1,
                   m_map := map (null_node it) (m_map s),
                   timers0 := (timers0 s)(i := (timers0 s i)\<lparr>m_handle0 := None\<rparr>)\<rparr>)"
proof -
  have "\<exists>n \<in> set (m_map s). node_id n = it \<and> node_timer n \<noteq> None"
    using nodes_ok_handle [of "timers0 s" "m_map s" i it] assms by (auto simp: inv0_def)
  moreover have "map (\<lambda>n. if node_id n = it then n\<lparr>node_timer := None\<rparr> else n) (m_map s) = map (null_node it) (m_map s)"
    by (simp add: null_node_def)
  ultimately show ?thesis using assms(2) by (simp add: set_not_running0_def)
qed

lemma same_nodes_refl: "m_map s = m_map s' \<Longrightarrow> same_nodes s s'"
  by (simp add: same_nodes_def fades_def list_all2_refl)

lemma same_nodes_trans: "same_nodes s t \<Longrightarrow> same_nodes t u \<Longrightarrow> same_nodes s u"
  unfolding same_nodes_def by (rule list_all2_trans [of fades fades]) (auto simp: fades_def)

lemma same_nodes_null: "m_map s' = map (null_node it) (m_map s) \<Longrightarrow> same_nodes s s'"
  by (simp add: same_nodes_def fades_def list_all2_map2 list_all2_refl)

lemma set_not_running0_effect:
  assumes "inv0 s" "active0 s i \<noteq> None"
  shows "\<exists>s'. set_not_running0 i s = Inr s' \<and> inv0 s' \<and> active0 s' = (active0 s)(i := None) \<and> same_nodes s s' \<and>
    last_time_point s' = last_time_point s \<and>
    m_expiration_point0 (timers0 s' i) = m_expiration_point0 (timers0 s i) \<and> m_call_back0 (timers0 s' i) = m_call_back0 (timers0 s i)"
proof -
  obtain it where it: "m_handle0 (timers0 s i) = Some it" using assms(2) by (auto simp: active0_def active_of_Some)
  have ok: "nodes_ok ((timers0 s)(i := (timers0 s i)\<lparr>m_handle0 := None\<rparr>)) (map (null_node it) (m_map s))"
    using assms(1) it by (auto simp: inv0_def intro: nodes_ok_null)
  show ?thesis
    unfolding set_not_running0_ok [OF assms(1) it]
    using ok assms(1) by (simp add: inv0_def active0_def) (rule same_nodes_null [of _ it], simp)
qed

lemma is_current0_ok: "active0 s i \<noteq> None \<Longrightarrow> \<exists>b. is_current0 i s = Inr b"
  by (auto simp: is_current0_def active0_def active_of_Some)

lemma is_running0_active: "is_running0 i s \<longleftrightarrow> active0 s i \<noteq> None"
  by (auto simp: is_running0_def active0_def active_of_Some)

lemma stop0_effect:
  assumes "inv0 s"
  shows "\<exists>s'. stop0 i s = Inr s' \<and> inv0 s' \<and> active0 s' = (active0 s)(i := None) \<and> same_nodes s s' \<and>
    last_time_point s' = last_time_point s"
proof (cases "active0 s i = None")
  case True
  then show ?thesis using assms by (simp add: stop0_def is_running0_active same_nodes_refl fun_upd_idem)
next
  case False
  obtain b where "is_current0 i s = Inr b" using is_current0_ok [OF False] by blast
  with set_not_running0_effect [OF assms False] False show ?thesis
    by (auto simp: stop0_def is_running0_active)
qed

lemma expire0_effect:
  assumes inv: "inv0 s" and act: "active0 s i = Some (t, cb)"
  shows "\<exists>s'. expire0 i s = Inr s' \<and> inv0 s' \<and> active0 s' = abs_expire i (active0 s) \<and> same_nodes s s' \<and> last_time_point s' = t"
proof -
  obtain s1 where s1: "set_not_running0 i s = Inr s1" "inv0 s1" "active0 s1 = (active0 s)(i := None)" "same_nodes s s1"
    "m_expiration_point0 (timers0 s1 i) = t" "m_call_back0 (timers0 s1 i) = cb"
    using set_not_running0_effect [OF inv, of i] act by (auto simp: active0_def active_of_Some)
  let ?s1 = "s1\<lparr>last_time_point := t, last_sequence_0 := i + 1\<rparr>"
  have i1: "inv0 ?s1" "active0 ?s1 = (active0 s)(i := None)" "same_nodes s ?s1"
    using s1 by (simp_all add: inv0_def active0_def) (simp add: same_nodes_def)
  show ?thesis
  proof (cases cb)
    case Expire
    with i1 s1 act show ?thesis
      by (auto simp: expire0_def is_running0_active call0_def abs_expire_def inv0_def active0_def same_nodes_def)
  next
    case (Stop_timer j)
    obtain s2 where s2: "stop0 j ?s1 = Inr s2" "inv0 s2" "active0 s2 = (active0 ?s1)(j := None)" "same_nodes ?s1 s2"
      "last_time_point s2 = t"
      using stop0_effect [OF i1(1), of j] by auto
    let ?s3 = "s2\<lparr>expired_timers_0 := expired_timers_0 s2 + 1\<rparr>"
    have "inv0 ?s3" "active0 ?s3 = active0 s2" "last_time_point ?s3 = t"
      using s2 by (simp_all add: inv0_def active0_def)
    moreover have "same_nodes s ?s3"
      using same_nodes_trans [OF i1(3) same_nodes_trans [OF s2(4) same_nodes_refl]] by simp
    moreover have "active0 s2 = abs_expire i (active0 s)"
      using s2(3) i1(2) act Stop_timer by (simp add: abs_expire_def)
    moreover have "expire0 i s = Inr ?s3"
      using s1 act s2(1) Stop_timer by (simp add: expire0_def is_running0_active call0_def)
    ultimately show ?thesis by auto
  qed
qed

lemma erase_first:
  assumes "inv0 s" "m_map s = b # rest" "node_timer b = None"
  shows "inv0 (erase (node_id b) s)" "active0 (erase (node_id b) s) = active0 s" "m_map (erase (node_id b) s) = rest"
    "last_time_point (erase (node_id b) s) = last_time_point s"
proof -
  have ok: "nodes_ok (timers0 s) (b # rest)" using assms by (simp add: inv0_def)
  then have d: "node_id b \<notin> node_id ` set rest" "distinct (map node_id rest)" "sorted (map node_key rest)"
    by (simp_all add: nodes_ok_def)
  have "filter (\<lambda>n. node_id n \<noteq> node_id b) rest = rest" using d(1) by (simp add: filter_id_conv) (metis imageI)
  then show m: "m_map (erase (node_id b) s) = rest" using assms(2) by (simp add: erase_def)
  have "nodes_ok (timers0 s) rest"
  proof (rule nodes_okI)
    show "\<exists>n \<in> set rest. node_id n = it \<and> node_timer n = Some i" if "m_handle0 (timers0 s i) = Some it" for i it
      using nodes_ok_handle [OF ok that] assms(3) by auto
  qed (use d nodes_ok_timer [OF ok] in auto)
  moreover have "timers0 (erase (node_id b) s) = timers0 s" "next_id (erase (node_id b) s) = next_id s"
    by (simp_all add: erase_def)
  ultimately show "inv0 (erase (node_id b) s)" "active0 (erase (node_id b) s) = active0 s"
    using m assms(1,2) by (simp_all add: inv0_def active0_def)
  show "last_time_point (erase (node_id b) s) = last_time_point s" by (simp add: erase_def)
qed

lemma first_node:
  assumes "inv0 s" "m_map s = b # rest" "node_timer b = Some i"
  shows "\<exists>cb. active0 s i = Some (node_key b, cb)" and "active0 s j = Some (u, c) \<Longrightarrow> node_key b \<le> u"
proof -
  have ok: "nodes_ok (timers0 s) (b # rest)" using assms by (simp add: inv0_def)
  show "\<exists>cb. active0 s i = Some (node_key b, cb)"
    using nodes_ok_timer [OF ok _ assms(3)] by (simp add: active0_def active_of_Some)
  assume a: "active0 s j = Some (u, c)"
  then obtain it where it: "m_handle0 (timers0 s j) = Some it" "m_expiration_point0 (timers0 s j) = u"
    by (auto simp: active0_def active_of_Some)
  obtain n where n: "n \<in> set (b # rest)" "node_timer n = Some j" using nodes_ok_handle [OF ok it(1)] by blast
  have "node_key b \<le> node_key n" using n(1) ok by (auto simp: nodes_ok_def)
  with nodes_ok_timer [OF ok n] it(2) show "node_key b \<le> u" by simp
qed

lemma no_nodes: "inv0 s \<Longrightarrow> m_map s = [] \<Longrightarrow> active0 s i = None"
  using nodes_ok_handle [of "timers0 s" "[]" i]
  by (cases "m_handle0 (timers0 s i)") (auto simp: inv0_def active0_def active_of_Some)

text \<open>Expiring the timer of the first node and removing the node.\<close>

lemma expire_and_erase:
  assumes inv: "inv0 s" and m: "m_map s = b # rest" "node_timer b = Some i"
  obtains s1 where "expire0 i s = Inr s1" "inv0 (erase (node_id b) s1)"
    "active0 (erase (node_id b) s1) = abs_expire i (active0 s)"
    "length (m_map (erase (node_id b) s1)) = length rest" "last_time_point (erase (node_id b) s1) = node_key b"
proof -
  obtain cb where act: "active0 s i = Some (node_key b, cb)" using first_node(1) [OF inv m] by blast
  obtain s1 where s1: "expire0 i s = Inr s1" "inv0 s1" "active0 s1 = abs_expire i (active0 s)" "same_nodes s s1"
    "last_time_point s1 = node_key b"
    using expire0_effect [OF inv act] by blast
  from s1(4) m(1) obtain b' rest' where m1: "m_map s1 = b' # rest'" "fades b b'" "length rest' = length rest"
    by (auto simp: same_nodes_def list_all2_Cons1 dest: list_all2_lengthD)
  have gone: "active0 s1 i = None" using s1(3) by (auto simp: abs_expire_def split: option.splits call_back.splits)
  have "node_timer b' \<noteq> Some i"
    using nodes_ok_timer [of "timers0 s1" "m_map s1" b' i] s1(2) m1(1) gone by (auto simp: inv0_def active0_def active_of_Some)
  then have b': "node_timer b' = None" "node_id b' = node_id b" using m1(2) m(2) by (auto simp: fades_def)
  show thesis
    using that [OF s1(1)] erase_first [OF s1(2) m1(1) b'(1)] s1(3,5) m1(3) b'(2) by simp
qed

lemma no_nodes_expired: "inv0 s \<Longrightarrow> m_map s = [] \<Longrightarrow> expire_all t (active0 s) (active0 s)"
  using no_nodes by (intro all_expired) auto

lemma expire_same0_ok:
  assumes "inv0 s" "length (m_map s) \<le> k" "\<And>i u cb. active0 s i = Some (u, cb) \<Longrightarrow> t \<le> u" "last_time_point s = t"
  shows "\<exists>s'. expire_same0 k t s = Inr s' \<and> inv0 s' \<and> expire_all t (active0 s) (active0 s') \<and> last_time_point s' = t"
  using assms
proof (induction k arbitrary: s)
  case 0
  then show ?case using no_nodes_expired by auto
next
  case (Suc k)
  show ?case
  proof (cases "m_map s")
    case Nil
    then show ?thesis using Suc.prems no_nodes_expired by auto
  next
    case (Cons b rest)
    show ?thesis
    proof (cases "node_timer b")
      case None
      let ?s = "s\<lparr>canceled_removed_0 := canceled_removed_0 s + 1\<rparr>"
      have "inv0 ?s" "m_map ?s = b # rest" "active0 ?s = active0 s" "last_time_point ?s = t"
        using Suc.prems Cons by (simp_all add: inv0_def active0_def)
      with erase_first [of ?s b rest] None Suc.IH [of "erase (node_id b) ?s"] Suc.prems Cons show ?thesis by simp
    next
      case (Some i)
      obtain cb where act: "active0 s i = Some (node_key b, cb)" using first_node(1) [OF Suc.prems(1) Cons Some] by blast
      then have e: "m_expiration_point0 (timers0 s i) = node_key b" by (simp add: active0_def active_of_Some)
      have ge: "t \<le> node_key b" using Suc.prems(3) [OF act] .
      show ?thesis
      proof (cases "node_key b = t")
        case False
        have "active0 s j \<noteq> Some (t, c)" for j c
          using first_node(2) [OF Suc.prems(1) Cons Some, of j t c] ge False by auto
        then show ?thesis using Suc.prems Cons Some e ge False by (auto intro: all_expired)
      next
        case True
        obtain s1 where s1: "expire0 i s = Inr s1" "inv0 (erase (node_id b) s1)"
          "active0 (erase (node_id b) s1) = abs_expire i (active0 s)"
          "length (m_map (erase (node_id b) s1)) = length rest" "last_time_point (erase (node_id b) s1) = node_key b"
          by (rule expire_and_erase [OF Suc.prems(1) Cons Some])
        have "t \<le> u" if "abs_expire i (active0 s) j = Some (u, c)" for j u c
          using Suc.prems(3) [OF abs_expire_subset [OF that]] .
        then obtain s' where "expire_same0 k t (erase (node_id b) s1) = Inr s'" "inv0 s'"
          "expire_all t (abs_expire i (active0 s)) (active0 s')" "last_time_point s' = t"
          using Suc.IH [OF s1(2)] s1 Suc.prems(2) Cons True by auto
        then show ?thesis using Cons Some e s1(1) True act by (auto intro: expire_one)
      qed
    qed
  qed
qed

lemma expire_first0_ok:
  assumes "inv0 s" "length (m_map s) \<le> k" "is_min t (active0 s)"
  shows "\<exists>s' i cb. expire_first0 k s = Inr (s', t) \<and> inv0 s' \<and> active0 s i = Some (t, cb) \<and>
    active0 s' = abs_expire i (active0 s) \<and> last_time_point s' = t"
  using assms
proof (induction k arbitrary: s)
  case 0
  then show ?case using no_nodes by (auto simp: is_min_def)
next
  case (Suc k)
  show ?case
  proof (cases "m_map s")
    case Nil
    then show ?thesis using Suc.prems no_nodes by (auto simp: is_min_def)
  next
    case (Cons b rest)
    show ?thesis
    proof (cases "node_timer b")
      case None
      let ?s = "s\<lparr>canceled_removed_0 := canceled_removed_0 s + 1\<rparr>"
      have "inv0 ?s" "m_map ?s = b # rest" "active0 ?s = active0 s"
        using Suc.prems Cons by (simp_all add: inv0_def active0_def)
      with erase_first [of ?s b rest] None Suc.IH [of "erase (node_id b) ?s"] Suc.prems Cons show ?thesis by simp
    next
      case (Some i)
      obtain cb where act: "active0 s i = Some (node_key b, cb)" using first_node(1) [OF Suc.prems(1) Cons Some] by blast
      have "node_key b \<le> u" if "active0 s j = Some (u, c)" for j u c
        using first_node(2) [OF Suc.prems(1) Cons Some that] .
      with act Suc.prems(3) have t: "node_key b = t" unfolding is_min_def by (metis order_antisym)
      obtain s1 where s1: "expire0 i s = Inr s1" "inv0 (erase (node_id b) s1)"
        "active0 (erase (node_id b) s1) = abs_expire i (active0 s)" "last_time_point (erase (node_id b) s1) = node_key b"
        by (rule expire_and_erase [OF Suc.prems(1) Cons Some])
      moreover have "m_expiration_point0 (timers0 s i) = t" using act t by (simp add: active0_def active_of_Some)
      ultimately show ?thesis using Cons Some act t by (auto simp: Let_def)
    qed
  qed
qed

lemma expire_next0_ok:
  assumes "inv0 s" "is_min t (active0 s)"
  shows "\<exists>s'. expire_next0 s = Inr s' \<and> inv0 s' \<and> expire_all t (active0 s) (active0 s') \<and> last_time_point s' = t"
proof -
  obtain s1 i cb where s1: "expire_first0 (length (m_map s)) s = Inr (s1, t)" "inv0 s1" "active0 s i = Some (t, cb)"
    "active0 s1 = abs_expire i (active0 s)" "last_time_point s1 = t"
    using expire_first0_ok [OF assms(1) le_refl assms(2)] by blast
  have "t \<le> u" if "active0 s1 j = Some (u, c)" for j u c
    using abs_expire_subset [OF that [unfolded s1(4)]] assms(2) unfolding is_min_def by blast
  then obtain s' where "expire_same0 (length (m_map s1)) t s1 = Inr s'" "inv0 s'" "expire_all t (active0 s1) (active0 s')"
    "last_time_point s' = t"
    using expire_same0_ok [OF s1(2) le_refl _ s1(5)] by blast
  then show ?thesis using s1 by (auto simp: expire_next0_def intro: expire_one)
qed

lemma set_emplace [simp]: "set (emplace n xs) = insert n (set xs)"
  by (induction xs) auto

lemma emplace_sorted: "sorted (map node_key xs) \<Longrightarrow> sorted (map node_key (emplace n xs))"
  by (induction xs) auto

lemma emplace_distinct: "distinct (map node_id xs) \<Longrightarrow> node_id n \<notin> node_id ` set xs \<Longrightarrow> distinct (map node_id (emplace n xs))"
  by (induction xs) auto

lemma nodes_ok_emplace:
  assumes ok: "nodes_ok T ns" and i: "m_handle0 (T i) = None" and it: "it \<notin> node_id ` set ns"
    and x: "m_handle0 x = Some it"
  shows "nodes_ok (T(i := x)) (emplace \<lparr>node_key = m_expiration_point0 x, node_id = it, node_timer = Some i\<rparr> ns)"
proof (rule nodes_okI)
  show "sorted (map node_key (emplace \<lparr>node_key = m_expiration_point0 x, node_id = it, node_timer = Some i\<rparr> ns))"
    "distinct (map node_id (emplace \<lparr>node_key = m_expiration_point0 x, node_id = it, node_timer = Some i\<rparr> ns))"
    using ok it by (simp_all add: nodes_ok_def emplace_sorted emplace_distinct)
next
  fix n j assume n: "n \<in> set (emplace \<lparr>node_key = m_expiration_point0 x, node_id = it, node_timer = Some i\<rparr> ns)"
    and j: "node_timer n = Some j"
  from n consider "n = \<lparr>node_key = m_expiration_point0 x, node_id = it, node_timer = Some i\<rparr>" | "n \<in> set ns" by auto
  then show "m_handle0 ((T(i := x)) j) = Some (node_id n) \<and> m_expiration_point0 ((T(i := x)) j) = node_key n"
  proof cases
    case 1
    then show ?thesis using j x by auto
  next
    case 2
    from nodes_ok_timer [OF ok 2 j] i have "j \<noteq> i" by auto
    with nodes_ok_timer [OF ok 2 j] show ?thesis by simp
  qed
next
  fix j it' assume h: "m_handle0 ((T(i := x)) j) = Some it'"
  show "\<exists>n \<in> set (emplace \<lparr>node_key = m_expiration_point0 x, node_id = it, node_timer = Some i\<rparr> ns). node_id n = it' \<and> node_timer n = Some j"
  proof (cases "j = i")
    case True
    then show ?thesis using h x by simp
  next
    case False
    then show ?thesis using nodes_ok_handle [OF ok, of j it'] h by auto
  qed
qed

lemma start0_ok:
  assumes inv: "inv0 s" and i: "active0 s i = None"
  shows "\<exists>s'. start0 i interval cb tnow s = Inr s' \<and> inv0 s' \<and> active0 s' = (active0 s)(i \<mapsto> (tnow + interval, cb)) \<and>
    last_time_point s' = last_time_point s"
proof -
  let ?x = "(timers0 s i)\<lparr>m_expiration_point0 := tnow + interval, m_call_back0 := cb, m_handle0 := Some (next_id s)\<rparr>"
  let ?n = "\<lparr>node_key = tnow + interval, node_id = next_id s, node_timer = Some i\<rparr>"
  let ?s = "s\<lparr>running_timers_0 := running_timers_0 s + 1, m_map := emplace ?n (m_map s), next_id := next_id s + 1,
    timers0 := (timers0 s)(i := ?x)\<rparr>"
  have h: "m_handle0 (timers0 s i) = None" using i by (simp add: active0_def active_of_Some)
  have "next_id s \<notin> node_id ` set (m_map s)" using inv by (auto simp: inv0_def)
  with nodes_ok_emplace [of "timers0 s" "m_map s" i "next_id s" ?x] inv h
  have "nodes_ok ((timers0 s)(i := ?x)) (emplace ?n (m_map s))" by (simp add: inv0_def)
  then have "inv0 ?s" using inv by (auto simp: inv0_def)
  moreover have "active0 ?s = (active0 s)(i \<mapsto> (tnow + interval, cb))" by (simp add: active0_def)
  moreover obtain b where "is_current0 i ?s = Inr b" using is_current0_ok [of ?s i] by (auto simp: active0_def)
  moreover have "start0 i interval cb tnow s = bindE (is_current0 i ?s) (\<lambda>_. Inr ?s)"
    using i by (simp add: start0_def is_running0_active push0_def Let_def)
  ultimately show ?thesis by simp
qed

interpretation multimap: running_timers inv0 active0 "\<lambda>s i. active0 s i = None" start0 stop0 "\<lambda>t. expire_next0"
proof
  show "\<exists>s'. start0 i interval cb tnow s = Inr s' \<and> inv0 s' \<and> active0 s' = (active0 s)(i \<mapsto> (tnow + interval, cb)) \<and>
      (\<forall>j. j \<noteq> i \<longrightarrow> active0 s j = None \<longrightarrow> active0 s' j = None)" if "inv0 s" "active0 s i = None" for s i interval cb tnow
    using start0_ok [OF that] by fastforce
  show "\<exists>s'. stop0 i s = Inr s' \<and> inv0 s' \<and> active0 s' = (active0 s)(i := None) \<and> (\<forall>j. active0 s j = None \<longrightarrow> active0 s' j = None)"
    if "inv0 s" for s i
    using stop0_effect [OF that] by fastforce
  show "\<exists>s'. expire_next0 s = Inr s' \<and> inv0 s' \<and> expire_all t (active0 s) (active0 s') \<and>
      (\<forall>j. active0 s j = None \<longrightarrow> active0 s' j = None)" if "inv0 s" "is_min t (active0 s)" for s t
    using expire_next0_ok [OF that] expire_all_shrinks by blast
qed

section \<open>The priority queue implements the interface\<close>

lemma entries_okI:
  assumes "distinct (map snd q)"
    and "\<And>t i. (t, i) \<in> set q \<Longrightarrow> m_handle1 (T i) = (\<not> m_canceled_1 (T i))"
    and "\<And>t i. (t, i) \<in> set q \<Longrightarrow> m_handle1 (T i) \<Longrightarrow> m_expiration_point1 (T i) = t"
    and "\<And>i. m_handle1 (T i) \<Longrightarrow> i \<in> snd ` set q"
  shows "entries_ok T q"
  using assms unfolding entries_ok_def by blast

lemma entries_okD:
  assumes "entries_ok T q"
  shows "distinct (map snd q)"
    and "(t, i) \<in> set q \<Longrightarrow> m_handle1 (T i) = (\<not> m_canceled_1 (T i))"
    and "(t, i) \<in> set q \<Longrightarrow> m_handle1 (T i) \<Longrightarrow> m_expiration_point1 (T i) = t"
    and "m_handle1 (T i) \<Longrightarrow> i \<in> snd ` set q"
  using assms unfolding entries_ok_def by blast+

lemma entries_unique: "entries_ok T q \<Longrightarrow> (t, i) \<in> set q \<Longrightarrow> (u, i) \<in> set q \<Longrightarrow> u = t"
  by (drule entries_okD(1)) (metis distinct_map fst_conv inj_onD snd_conv)

lemma inv1_entry:
  assumes "inv1 s" "(t, i) \<in> set (m_pqueue s)"
  shows "\<not> m_canceled_1 (timers1 s i) \<Longrightarrow> active1 s i = Some (t, m_call_back1 (timers1 s i))"
    "m_canceled_1 (timers1 s i) \<Longrightarrow> active1 s i = None"
  using entries_okD(2,3) [OF assms(1) [unfolded inv1_def] assms(2)] by (simp_all add: active1_def)

lemma inv1_active:
  assumes "inv1 s" "active1 s i = Some (t, cb)"
  shows "(t, i) \<in> set (m_pqueue s)" "\<not> m_canceled_1 (timers1 s i)"
proof -
  note ok = assms(1) [unfolded inv1_def]
  have h: "m_handle1 (timers1 s i)" "m_expiration_point1 (timers1 s i) = t"
    using assms(2) by (auto simp: active1_def split: if_splits)
  obtain u where u: "(u, i) \<in> set (m_pqueue s)" using entries_okD(4) [OF ok h(1)] by auto
  show "(t, i) \<in> set (m_pqueue s)" using entries_okD(3) [OF ok u h(1)] u h(2) by simp
  show "\<not> m_canceled_1 (timers1 s i)" using entries_okD(2) [OF ok u] h(1) by simp
qed

lemma remove_entry:
  assumes "distinct (map snd q)" "k < length q"
  shows "set (remove_at k q) = set q - {q ! k}" "distinct (map snd (remove_at k q))"
    "length (remove_at k q) = length q - 1"
proof -
  have q: "q = take k q @ q ! k # drop (Suc k) q" by (rule id_take_nth_drop [OF assms(2)])
  then have d: "distinct (map snd (take k q @ q ! k # drop (Suc k) q))" using assms(1) by simp
  then have "q ! k \<notin> set (take k q) \<union> set (drop (Suc k) q)" by auto
  moreover have "set q = insert (q ! k) (set (take k q) \<union> set (drop (Suc k) q))" using arg_cong [OF q, of set] by auto
  ultimately show "set (remove_at k q) = set q - {q ! k}" by (auto simp: remove_at_def)
  show "distinct (map snd (remove_at k q))" using d by (auto simp: remove_at_def)
  show "length (remove_at k q) = length q - 1" using assms(2) by (simp add: remove_at_def)
qed

lemma pq_top_ok:
  assumes "pick_ok pick" "m_pqueue s \<noteq> []"
  obtains t i where "pq_top pick s = Inr (t, i)" "(t, i) \<in> set (m_pqueue s)" "m_pqueue s ! pick (m_pqueue s) = (t, i)"
    "\<And>u j. (u, j) \<in> set (m_pqueue s) \<Longrightarrow> t \<le> u"
proof -
  obtain t i where ti: "m_pqueue s ! pick (m_pqueue s) = (t, i)" by fastforce
  have "pick (m_pqueue s) < length (m_pqueue s) \<and> (\<forall>x \<in> set (m_pqueue s). fst (m_pqueue s ! pick (m_pqueue s)) \<le> fst x)"
    using assms unfolding pick_ok_def by blast
  then have p: "pick (m_pqueue s) < length (m_pqueue s)" "\<And>x. x \<in> set (m_pqueue s) \<Longrightarrow> t \<le> fst x"
    using ti by auto
  show thesis
  proof (rule that [OF _ _ ti])
    show "pq_top pick s = Inr (t, i)" using assms(2) ti by (simp add: pq_top_def)
    show "(t, i) \<in> set (m_pqueue s)" using nth_mem [OF p(1)] ti by simp
    show "t \<le> u" if "(u, j) \<in> set (m_pqueue s)" for u j using p(2) [OF that] by simp
  qed
qed

lemma entries_pop_cancelled:
  assumes ok: "entries_ok T q" and k: "k < length q" "q ! k = (t, i)" "m_canceled_1 (T i)"
  shows "entries_ok T (remove_at k q)"
proof (rule entries_okI)
  note r = remove_entry [OF entries_okD(1) [OF ok] k(1)]
  have ti: "(t, i) \<in> set q" using nth_mem [OF k(1)] k(2) by simp
  show "distinct (map snd (remove_at k q))" by (rule r(2))
  show "m_handle1 (T j) = (\<not> m_canceled_1 (T j))" if "(u, j) \<in> set (remove_at k q)" for u j
    using entries_okD(2) [OF ok, of u j] that r(1) by simp
  show "m_expiration_point1 (T j) = u" if "(u, j) \<in> set (remove_at k q)" "m_handle1 (T j)" for u j
    using entries_okD(3) [OF ok, of u j] that r(1) by simp
  show "j \<in> snd ` set (remove_at k q)" if h: "m_handle1 (T j)" for j
  proof -
    have "j \<noteq> i" using entries_okD(2) [OF ok ti] h k(3) by auto
    then show ?thesis using entries_okD(4) [OF ok h] r(1) k(2) by force
  qed
qed

lemma entries_pop_expired:
  assumes ok: "entries_ok T q" and k: "k < length q" "q ! k = (t, i)"
  shows "entries_ok (T(i := (T i)\<lparr>m_handle1 := False\<rparr>)) (remove_at k q)"
proof (rule entries_okI)
  note r = remove_entry [OF entries_okD(1) [OF ok] k(1)]
  have ti: "(t, i) \<in> set q" using nth_mem [OF k(1)] k(2) by simp
  have other: "(u, j) \<in> set q \<and> j \<noteq> i" if "(u, j) \<in> set (remove_at k q)" for u j
    using entries_unique [OF ok ti, of u] that r(1) k(2) by auto
  show "distinct (map snd (remove_at k q))" by (rule r(2))
  show "m_handle1 ((T(i := (T i)\<lparr>m_handle1 := False\<rparr>)) j) = (\<not> m_canceled_1 ((T(i := (T i)\<lparr>m_handle1 := False\<rparr>)) j))"
    if "(u, j) \<in> set (remove_at k q)" for u j
    using entries_okD(2) [OF ok, of u j] other [OF that] by simp
  show "m_expiration_point1 ((T(i := (T i)\<lparr>m_handle1 := False\<rparr>)) j) = u"
    if "(u, j) \<in> set (remove_at k q)" "m_handle1 ((T(i := (T i)\<lparr>m_handle1 := False\<rparr>)) j)" for u j
    using entries_okD(3) [OF ok, of u j] other [OF that(1)] that(2) by simp
  show "j \<in> snd ` set (remove_at k q)" if "m_handle1 ((T(i := (T i)\<lparr>m_handle1 := False\<rparr>)) j)" for j
    using entries_okD(4) [OF ok, of j] that r(1) k(2) by (force split: if_splits)
qed

lemma entries_stopped: "entries_ok T q \<Longrightarrow> entries_ok (stopped j T) q"
  by (rule entries_okI) (auto simp: stopped_def entries_okD split: if_splits)

lemma entries_start:
  assumes ok: "entries_ok T q" and i: "i \<notin> snd ` set q" and x: "m_handle1 x" "\<not> m_canceled_1 x" "m_expiration_point1 x = t"
  shows "entries_ok (T(i := x)) (q @ [(t, i)])"
proof (rule entries_okI)
  have other: "j \<noteq> i" if "(u, j) \<in> set q" for u j using i that by force
  show "distinct (map snd (q @ [(t, i)]))" using entries_okD(1) [OF ok] i by simp
  show "m_handle1 ((T(i := x)) j) = (\<not> m_canceled_1 ((T(i := x)) j))" if "(u, j) \<in> set (q @ [(t, i)])" for u j
    using entries_okD(2) [OF ok, of u j] x that other by auto
  show "m_expiration_point1 ((T(i := x)) j) = u" if "(u, j) \<in> set (q @ [(t, i)])" "m_handle1 ((T(i := x)) j)" for u j
    using entries_okD(3) [OF ok, of u j] x that other by (auto split: if_splits)
  show "j \<in> snd ` set (q @ [(t, i)])" if "m_handle1 ((T(i := x)) j)" for j
    using entries_okD(4) [OF ok, of j] that by (auto split: if_splits)
qed

lemma stop1_eq:
  assumes "m_pqueue s \<noteq> []" "m_handle1 (timers1 s j) \<Longrightarrow> \<not> m_canceled_1 (timers1 s j)"
  shows "stop1 pick j s = Inr (s\<lparr>timers1 := stopped j (timers1 s)\<rparr>)"
proof (cases "m_handle1 (timers1 s j)")
  case True
  then show ?thesis using assms by (simp add: stop1_def is_current1_def pq_top_def stopped_def)
next
  case False
  then have "stopped j (timers1 s) = timers1 s" by (simp add: stopped_def fun_upd_idem)
  then show ?thesis using False by (simp add: stop1_def)
qed

lemma pop_cancelled:
  assumes "pick_ok pick" "inv1 s" "m_pqueue s \<noteq> []" "m_pqueue s ! pick (m_pqueue s) = (t, i)" "m_canceled_1 (timers1 s i)"
  shows "inv1 (pq_pop pick s)" "active1 (pq_pop pick s) = active1 s" "length (m_pqueue (pq_pop pick s)) = length (m_pqueue s) - 1"
    "\<And>j. startable1 s j \<Longrightarrow> startable1 (pq_pop pick s) j"
proof -
  have k: "pick (m_pqueue s) < length (m_pqueue s)" using assms(1,3) by (auto simp: pick_ok_def)
  have e: "pq_pop pick s = s\<lparr>m_pqueue := remove_at (pick (m_pqueue s)) (m_pqueue s)\<rparr>" by (simp add: pq_pop_def remove_at_def Let_def)
  note ok = assms(2) [unfolded inv1_def]
  note r = remove_entry [OF entries_okD(1) [OF ok] k]
  show "inv1 (pq_pop pick s)" using entries_pop_cancelled [OF ok k assms(4,5)] by (simp add: e inv1_def)
  show "active1 (pq_pop pick s) = active1 s" by (simp add: e active1_def fun_eq_iff)
  show "length (m_pqueue (pq_pop pick s)) = length (m_pqueue s) - 1" by (simp add: e r)
  show "\<And>j. startable1 s j \<Longrightarrow> startable1 (pq_pop pick s) j" by (auto simp: e r startable1_def)
qed

lemma active1_stopped: "active1 (s\<lparr>timers1 := stopped j (timers1 s)\<rparr>) = (active1 s)(j := None)"
  by (auto simp: active1_def stopped_def fun_eq_iff)

lemma expire1_eq:
  assumes "inv1 s" "m_pqueue s \<noteq> []" "active1 s i = Some (t, cb)"
  shows "expire1 pick t i s = Inr (s\<lparr>timers1 :=
    (case cb of Expire \<Rightarrow> (timers1 s)(i := (timers1 s i)\<lparr>m_handle1 := False\<rparr>)
     | Stop_timer j \<Rightarrow> stopped j ((timers1 s)(i := (timers1 s i)\<lparr>m_handle1 := False\<rparr>)))\<rparr>)"
proof -
  have h: "m_handle1 (timers1 s i)" "m_expiration_point1 (timers1 s i) = t" "m_call_back1 (timers1 s i) = cb"
    using assms(3) by (auto simp: active1_def split: if_splits)
  have c: "\<not> m_canceled_1 (timers1 s i)" by (rule inv1_active(2) [OF assms(1,3)])
  have "\<not> m_canceled_1 (timers1 s j)" if "m_handle1 (timers1 s j)" for j
    using inv1_active(2) [OF assms(1), of j] that by (auto simp: active1_def)
  then have "stop1 pick j (s\<lparr>timers1 := (timers1 s)(i := (timers1 s i)\<lparr>m_handle1 := False\<rparr>)\<rparr>) =
      Inr (s\<lparr>timers1 := stopped j ((timers1 s)(i := (timers1 s i)\<lparr>m_handle1 := False\<rparr>))\<rparr>)" for j
    using assms(2) by (subst stop1_eq) (auto split: if_splits)
  then show ?thesis using h c by (simp add: expire1_def call1_def split: call_back.split)
qed

lemma expire_and_pop:
  assumes pick: "pick_ok pick" and inv: "inv1 s" and q: "m_pqueue s \<noteq> []" "m_pqueue s ! pick (m_pqueue s) = (t, i)"
    and act: "active1 s i = Some (t, cb)"
  obtains s1 where "expire1 pick t i s = Inr s1" "inv1 (pq_pop pick s1)" "active1 (pq_pop pick s1) = abs_expire i (active1 s)"
    "length (m_pqueue (pq_pop pick s1)) = length (m_pqueue s) - 1" "\<not> m_canceled_1 (timers1 (pq_pop pick s1) i)"
    "\<And>j. startable1 s j \<Longrightarrow> startable1 (pq_pop pick s1) j"
proof -
  let ?T = "(timers1 s)(i := (timers1 s i)\<lparr>m_handle1 := False\<rparr>)"
  let ?T' = "case cb of Expire \<Rightarrow> ?T | Stop_timer j \<Rightarrow> stopped j ?T"
  let ?q = "remove_at (pick (m_pqueue s)) (m_pqueue s)"
  have k: "pick (m_pqueue s) < length (m_pqueue s)" using pick q(1) by (auto simp: pick_ok_def)
  note ok = inv [unfolded inv1_def]
  note r = remove_entry [OF entries_okD(1) [OF ok] k]
  have e: "pq_pop pick (s\<lparr>timers1 := ?T'\<rparr>) = s\<lparr>timers1 := ?T', m_pqueue := ?q\<rparr>"
    by (simp add: pq_pop_def remove_at_def Let_def)
  have "entries_ok ?T ?q" by (rule entries_pop_expired [OF ok k q(2)])
  then have inv': "inv1 (s\<lparr>timers1 := ?T', m_pqueue := ?q\<rparr>)"
    by (cases cb) (simp_all add: inv1_def entries_stopped)
  have c: "\<not> m_canceled_1 (timers1 s i)" by (rule inv1_active(2) [OF inv act])
  have a: "active1 (s\<lparr>timers1 := ?T', m_pqueue := ?q\<rparr>) = abs_expire i (active1 s)"
    using act by (cases cb) (auto simp: active1_def abs_expire_def stopped_def fun_eq_iff split: if_splits)
  show thesis
  proof (rule that [OF expire1_eq [OF inv q(1) act]], unfold e)
    show "length (m_pqueue (s\<lparr>timers1 := ?T', m_pqueue := ?q\<rparr>)) = length (m_pqueue s) - 1" by (simp add: r)
    show "\<not> m_canceled_1 (timers1 (s\<lparr>timers1 := ?T', m_pqueue := ?q\<rparr>) i)"
      using c by (cases cb) (auto simp: stopped_def)
    show "startable1 (s\<lparr>timers1 := ?T', m_pqueue := ?q\<rparr>) j" if "startable1 s j" for j
      using that r(1) by (cases cb) (auto simp: startable1_def stopped_def)
  qed (fact inv' a)+
qed

lemma empty_queue: "inv1 s \<Longrightarrow> m_pqueue s = [] \<Longrightarrow> active1 s i = None"
  using inv1_active(1) [of s i] by (cases "active1 s i") auto

lemma empty_queue_expired: "inv1 s \<Longrightarrow> m_pqueue s = [] \<Longrightarrow> expire_all t (active1 s) (active1 s)"
  using empty_queue by (intro all_expired) auto

lemma expire_same1_ok:
  assumes "pick_ok pick"
  assumes "inv1 s" "length (m_pqueue s) \<le> k" "\<And>i u cb. active1 s i = Some (u, cb) \<Longrightarrow> t \<le> u"
  shows "\<exists>s'. expire_same1 pick t k t s = Inr s' \<and> inv1 s' \<and> expire_all t (active1 s) (active1 s') \<and>
    (\<forall>j. startable1 s j \<longrightarrow> startable1 s' j)"
  using assms(2-)
proof (induction k arbitrary: s)
  case 0
  then show ?case using empty_queue_expired by auto
next
  case (Suc k)
  show ?case
  proof (cases "m_pqueue s = []")
    case True
    then show ?thesis using Suc.prems empty_queue_expired by auto
  next
    case False
    obtain u i where top: "pq_top pick s = Inr (u, i)" "(u, i) \<in> set (m_pqueue s)" "m_pqueue s ! pick (m_pqueue s) = (u, i)"
      and least: "\<And>v j. (v, j) \<in> set (m_pqueue s) \<Longrightarrow> u \<le> v"
      using pq_top_ok [OF assms(1) False] by metis
    show ?thesis
    proof (cases "m_canceled_1 (timers1 s i)")
      case True
      note pop = pop_cancelled [OF assms(1) Suc.prems(1) False top(3) True]
      have "length (m_pqueue (pq_pop pick s)) \<le> k" using pop(3) Suc.prems(2) by simp
      from Suc.IH [OF pop(1) this] Suc.prems(3) pop(2,4) show ?thesis using False top(1) True by auto
    next
      case nc: False
      let ?cb = "m_call_back1 (timers1 s i)"
      have act: "active1 s i = Some (u, ?cb)" by (rule inv1_entry(1) [OF Suc.prems(1) top(2) nc])
      then have e: "m_expiration_point1 (timers1 s i) = u" by (auto simp: active1_def split: if_splits)
      have ge: "t \<le> u" using Suc.prems(3) [OF act] .
      show ?thesis
      proof (cases "u = t")
        case u: False
        have "active1 s j \<noteq> Some (t, c)" for j c
          using inv1_active(1) [OF Suc.prems(1), of j t c] least [of t j] ge u by auto
        then show ?thesis using Suc.prems(1) False top(1) nc e ge u by (auto intro: all_expired)
      next
        case True
        obtain s1 where s1: "expire1 pick u i s = Inr s1" "inv1 (pq_pop pick s1)"
          "active1 (pq_pop pick s1) = abs_expire i (active1 s)"
          "length (m_pqueue (pq_pop pick s1)) = length (m_pqueue s) - 1"
          "\<And>j. startable1 s j \<Longrightarrow> startable1 (pq_pop pick s1) j"
          using expire_and_pop [OF assms(1) Suc.prems(1) False top(3) act] by metis
        have "t \<le> v" if "active1 (pq_pop pick s1) j = Some (v, c)" for j v c
          using Suc.prems(3) [OF abs_expire_subset [OF that [unfolded s1(3)]]] .
        moreover have "length (m_pqueue (pq_pop pick s1)) \<le> k" using s1(4) Suc.prems(2) by simp
        ultimately obtain s' where "expire_same1 pick t k t (pq_pop pick s1) = Inr s'" "inv1 s'"
          "expire_all t (abs_expire i (active1 s)) (active1 s')" "\<forall>j. startable1 (pq_pop pick s1) j \<longrightarrow> startable1 s' j"
          using Suc.IH [OF s1(2)] s1(3) by metis
        then show ?thesis using False top(1) nc e True s1(1,5) act by (auto intro: expire_one)
      qed
    qed
  qed
qed

lemma expire_first1_ok:
  assumes "pick_ok pick"
  assumes "inv1 s" "length (m_pqueue s) \<le> k" "is_min t (active1 s)"
  shows "\<exists>s' i cb. expire_first1 pick t k s = Inr (s', t) \<and> inv1 s' \<and> active1 s i = Some (t, cb) \<and>
    active1 s' = abs_expire i (active1 s) \<and> (\<forall>j. startable1 s j \<longrightarrow> startable1 s' j)"
  using assms(2-)
proof (induction k arbitrary: s)
  case 0
  then show ?case using empty_queue by (auto simp: is_min_def)
next
  case (Suc k)
  have ne: "m_pqueue s \<noteq> []" using Suc.prems(1,3) empty_queue by (auto simp: is_min_def)
  obtain u i where top: "pq_top pick s = Inr (u, i)" "(u, i) \<in> set (m_pqueue s)" "m_pqueue s ! pick (m_pqueue s) = (u, i)"
    and least: "\<And>v j. (v, j) \<in> set (m_pqueue s) \<Longrightarrow> u \<le> v"
    using pq_top_ok [OF assms(1) ne] by metis
  show ?case
  proof (cases "m_canceled_1 (timers1 s i)")
    case True
    note pop = pop_cancelled [OF assms(1) Suc.prems(1) ne top(3) True]
    have "length (m_pqueue (pq_pop pick s)) \<le> k" using pop(3) Suc.prems(2) by simp
    from Suc.IH [OF pop(1) this] Suc.prems(3) pop(2,4) show ?thesis using ne top(1) True by auto
  next
    case nc: False
    let ?cb = "m_call_back1 (timers1 s i)"
    have act: "active1 s i = Some (u, ?cb)" by (rule inv1_entry(1) [OF Suc.prems(1) top(2) nc])
    then have e: "m_expiration_point1 (timers1 s i) = u" by (auto simp: active1_def split: if_splits)
    have "t \<le> u" using Suc.prems(3) act unfolding is_min_def by blast
    moreover have "u \<le> t" using Suc.prems(3) inv1_active(1) [OF Suc.prems(1)] least unfolding is_min_def by blast
    ultimately have u: "u = t" by simp
    obtain s1 where s1: "expire1 pick u i s = Inr s1" "inv1 (pq_pop pick s1)"
      "active1 (pq_pop pick s1) = abs_expire i (active1 s)" "\<not> m_canceled_1 (timers1 (pq_pop pick s1) i)"
      "\<And>j. startable1 s j \<Longrightarrow> startable1 (pq_pop pick s1) j"
      using expire_and_pop [OF assms(1) Suc.prems(1) ne top(3) act] by metis
    then show ?thesis using ne top(1) nc e u act by (auto simp: Let_def)
  qed
qed

lemma expire_next1_ok:
  assumes "pick_ok pick" "inv1 s" "is_min t (active1 s)"
  shows "\<exists>s'. expire_next1 pick t s = Inr s' \<and> inv1 s' \<and> expire_all t (active1 s) (active1 s') \<and>
    (\<forall>j. startable1 s j \<longrightarrow> startable1 s' j)"
proof -
  obtain s1 i cb where s1: "expire_first1 pick t (length (m_pqueue s)) s = Inr (s1, t)" "inv1 s1" "active1 s i = Some (t, cb)"
    "active1 s1 = abs_expire i (active1 s)" "\<forall>j. startable1 s j \<longrightarrow> startable1 s1 j"
    using expire_first1_ok [OF assms(1,2) le_refl assms(3)] by blast
  have "t \<le> u" if "active1 s1 j = Some (u, c)" for j u c
    using abs_expire_subset [OF that [unfolded s1(4)]] assms(3) unfolding is_min_def by blast
  then obtain s' where "expire_same1 pick t (length (m_pqueue s1)) t s1 = Inr s'" "inv1 s'" "expire_all t (active1 s1) (active1 s')"
    "\<forall>j. startable1 s1 j \<longrightarrow> startable1 s' j"
    using expire_same1_ok [OF assms(1) s1(2) le_refl] by blast
  then show ?thesis using s1 by (auto simp: expire_next1_def intro: expire_one)
qed

lemma stop1_ok:
  assumes "inv1 s"
  shows "\<exists>s'. stop1 pick i s = Inr s' \<and> inv1 s' \<and> active1 s' = (active1 s)(i := None) \<and>
    (\<forall>j. startable1 s j \<longrightarrow> startable1 s' j)"
proof (cases "active1 s i")
  case None
  then have "\<not> m_handle1 (timers1 s i)" by (auto simp: active1_def split: if_splits)
  then show ?thesis using None assms by (simp add: stop1_def fun_upd_idem)
next
  case (Some a)
  obtain t cb where a: "active1 s i = Some (t, cb)" using Some by (cases a) auto
  have "m_pqueue s \<noteq> []" using inv1_active(1) [OF assms a] by auto
  moreover have "\<not> m_canceled_1 (timers1 s i)" by (rule inv1_active(2) [OF assms a])
  ultimately have "stop1 pick i s = Inr (s\<lparr>timers1 := stopped i (timers1 s)\<rparr>)" by (rule stop1_eq)
  moreover have "inv1 (s\<lparr>timers1 := stopped i (timers1 s)\<rparr>)" using assms by (simp add: inv1_def entries_stopped)
  moreover have "startable1 s j \<longrightarrow> startable1 (s\<lparr>timers1 := stopped i (timers1 s)\<rparr>) j" for j
    by (auto simp: startable1_def stopped_def)
  ultimately show ?thesis by (simp add: active1_stopped)
qed

lemma start1_ok:
  assumes "inv1 s" "startable1 s i"
  shows "\<exists>s'. start1 pick i interval cb tnow s = Inr s' \<and> inv1 s' \<and> active1 s' = (active1 s)(i \<mapsto> (tnow + interval, cb)) \<and>
    (\<forall>j. j \<noteq> i \<longrightarrow> startable1 s j \<longrightarrow> startable1 s' j)"
proof -
  let ?x = "(timers1 s i)\<lparr>m_expiration_point1 := tnow + interval, m_call_back1 := cb, m_handle1 := True, m_canceled_1 := False\<rparr>"
  let ?s = "s\<lparr>timers1 := (timers1 s)(i := ?x), m_pqueue := m_pqueue s @ [(tnow + interval, i)]\<rparr>"
  have i: "\<not> m_handle1 (timers1 s i)" "i \<notin> snd ` set (m_pqueue s)" using assms(2) by (simp_all add: startable1_def)
  have "entries_ok ((timers1 s)(i := ?x)) (m_pqueue s @ [(tnow + interval, i)])"
    using assms(1) i(2) by (intro entries_start) (simp_all add: inv1_def)
  then have "inv1 ?s" by (simp add: inv1_def)
  moreover have "start1 pick i interval cb tnow s = Inr ?s"
    using i(1) by (simp add: start1_def is_current1_def pq_top_def Let_def)
  moreover have "active1 ?s = (active1 s)(i \<mapsto> (tnow + interval, cb))" by (auto simp: active1_def fun_eq_iff)
  moreover have "j \<noteq> i \<longrightarrow> startable1 s j \<longrightarrow> startable1 ?s j" for j by (auto simp: startable1_def)
  ultimately show ?thesis by blast
qed

context running_timers
begin

lemma expire_next_ok:
  assumes "inv s" "is_min t (active s)" "no_ties (active s)"
  shows "\<exists>s'. expire_next t s = Inr s' \<and> inv s' \<and> active s' = after_expiry t (active s) \<and>
    (\<forall>j. startable s j \<longrightarrow> startable s' j)"
  using expire_law [OF assms(1,2)] expire_all_result [OF _ assms(3)] by blast

end

locale priority_queue =
  fixes pick :: pick
  assumes pick: "pick_ok pick"

sublocale priority_queue \<subseteq> queued: running_timers inv1 active1 startable1 "start1 pick" "stop1 pick" "expire_next1 pick"
  using pick by unfold_locales (rule start1_ok stop1_ok expire_next1_ok; assumption)+

context priority_queue
begin

lemmas expire_next1_after = queued.expire_next_ok

end

lemma first_min_ok: "q \<noteq> [] \<Longrightarrow> first_min q < length q \<and> (\<forall>x \<in> set q. fst (q ! first_min q) \<le> fst x)"
proof (induction q)
  case (Cons x xs)
  show ?case
  proof (cases "list_all (\<lambda>y. fst x \<le> fst y) xs")
    case True
    then show ?thesis by (auto simp: list_all_iff)
  next
    case False
    then obtain y where y: "y \<in> set xs" "fst y < fst x" by (auto simp: list_all_iff not_le)
    then have "xs \<noteq> []" by auto
    then have IH: "first_min xs < length xs" "\<forall>z \<in> set xs. fst (xs ! first_min xs) \<le> fst z" using Cons.IH by blast+
    with y have "fst (xs ! first_min xs) \<le> fst x" by force
    with IH False show ?thesis by simp
  qed
qed simp

lemma pick_first_min: "pick_ok first_min"
  using first_min_ok unfolding pick_ok_def by blast

interpretation first_of_ties: priority_queue first_min
  by unfold_locales (rule pick_first_min)

section \<open>The test never fails\<close>

lemma is_min_exists:
  assumes "targets_old k r" "r i = Some x"
  shows "\<exists>t. is_min t r"
proof -
  have "dom r \<subseteq> {..<k}" using assms(1) by (auto simp: targets_old_def)
  then have "finite (dom r)" by (rule finite_subset) simp
  then have "finite (fst ` ran r)" by (simp add: finite_ran)
  moreover have "fst ` ran r \<noteq> {}" using assms(2) ranI [of r i x] by auto
  moreover have "t \<in> fst ` ran r \<longleftrightarrow> (\<exists>i cb. r i = Some (t, cb))" for t by (force simp: ran_def)
  ultimately have "is_min (Min (fst ` ran r)) r"
    unfolding is_min_def using Min_in [of "fst ` ran r"] Min_le [of "fst ` ran r"] by blast
  then show ?thesis by blast
qed

lemma no_ties_start:
  assumes "no_ties r" "targets_old i r" "fresh_call_back i t cb r"
  shows "no_ties (r(i \<mapsto> (t, cb))) \<and> targets_old (Suc i) (r(i \<mapsto> (t, cb)))"
proof -
  have "r i = None" using assms(2) by (cases "r i") (auto simp: targets_old_def)
  moreover have "r j \<noteq> Some (u, Stop_timer i)" for j u using assms(2) by (auto simp: targets_old_def)
  ultimately show ?thesis
    using assms by (cases cb) (auto simp: no_ties_def targets_old_def fresh_call_back_def less_Suc_eq)
qed

lemma start_both_in_step:
  assumes g: "in_step i g" and cb: "fresh_call_back i (tnow + interval) cb (active0 (impl0 g))"
  shows "\<exists>g'. start_both pick i interval cb tnow g = Inr g' \<and> in_step (Suc i) g' \<and> nt g' = nt g \<and>
    active0 (impl0 g') = (active0 (impl0 g))(i \<mapsto> (tnow + interval, cb))"
proof -
  have i: "startable1 (impl1 g) i" and no: "active0 (impl0 g) i = None"
    using g by (cases "active0 (impl0 g) i"; auto simp: in_step_def targets_old_def)+
  obtain a where a: "start0 i interval cb tnow (impl0 g) = Inr a" "inv0 a"
    "active0 a = (active0 (impl0 g))(i \<mapsto> (tnow + interval, cb))"
    using start0_ok [of "impl0 g" i interval cb tnow] g no by (auto simp: in_step_def)
  obtain b where b: "start1 pick i interval cb tnow (impl1 g) = Inr b" "inv1 b"
    "active1 b = (active1 (impl1 g))(i \<mapsto> (tnow + interval, cb))" "\<forall>j. j \<noteq> i \<longrightarrow> startable1 (impl1 g) j \<longrightarrow> startable1 b j"
    using start1_ok [of "impl1 g" i pick interval cb tnow] g i by (auto simp: in_step_def)
  show ?thesis using a b g no_ties_start [OF _ _ cb] by (simp add: start_both_def in_step_def)
qed

lemma after_expiry_subset: "after_expiry t r i = Some x \<Longrightarrow> r i = Some x"
  by (auto simp: after_expiry_def split: if_splits)

lemma expire_both_in_step:
  assumes pick: "pick_ok pick" and g: "in_step k g" and i: "active0 (impl0 g) i = Some x"
  shows "\<exists>g'. expire_both pick g = Inr g' \<and> in_step k g' \<and> nt g' = nt g"
proof -
  note inv = g [unfolded in_step_def]
  obtain t where t: "is_min t (active0 (impl0 g))" using is_min_exists [of k "active0 (impl0 g)" i x] i inv by blast
  obtain a where a: "expire_next0 (impl0 g) = Inr a" "inv0 a" "expire_all t (active0 (impl0 g)) (active0 a)" "last_time_point a = t"
    using expire_next0_ok [OF _ t] inv by blast
  obtain b where b: "expire_next1 pick t (impl1 g) = Inr b" "inv1 b" "expire_all t (active1 (impl1 g)) (active1 b)"
    "\<forall>j. startable1 (impl1 g) j \<longrightarrow> startable1 b j"
    using expire_next1_ok [OF pick, of "impl1 g" t] t inv by auto
  have e: "active0 a = after_expiry t (active0 (impl0 g))" "active1 b = after_expiry t (active0 (impl0 g))"
    using expire_all_result [OF a(3)] expire_all_result [OF b(3)] inv by auto
  have "targets_old k (active0 a)"
    using inv after_expiry_subset [of t "active0 (impl0 g)"] unfolding targets_old_def e(1) by blast
  with a b e inv show ?thesis by (simp add: expire_both_def in_step_def after_expiry_no_ties)
qed

lemma adjacent_durations:
  assumes "0 \<le> index" "index \<le> max_interval_index"
  obtains d where "get_at durations index = Inr d" "0 < index \<longrightarrow> (\<exists>d'. get_at durations (index - 1) = Inr d' \<and> d' \<noteq> d)"
proof -
  have "list_all (\<lambda>k. durations ! (k - 1) \<noteq> durations ! k) [1..<39]" by code_simp
  then have ne: "durations ! (k - 1) \<noteq> durations ! k" if "0 < k" "k < 39" for k using that by (auto simp: list_all_iff)
  have len: "length durations = 39" by (simp add: durations_def)
  have k: "nat index < 39" using assms by (simp add: max_interval_index_def)
  have "nat (index - 1) = nat index - 1" by simp
  with that [of "durations ! nat index"] ne [of "nat index"] k len assms show thesis
    by (simp add: get_at_def)
qed

lemma generate_body_in_step:
  assumes pick: "pick_ok pick" and g: "in_step (nt g) g" and index: "0 \<le> index" "index \<le> max_interval_index"
  shows "\<exists>g'. generate_body pick n index g = Inr g' \<and> in_step (nt g') g' \<and> nt g' = nt g + 1 + extra_timers n [index]"
proof -
  let ?i = "nt g"
  obtain d where d: "get_at durations index = Inr d"
    and d': "0 < index \<longrightarrow> (\<exists>d'. get_at durations (index - 1) = Inr d' \<and> d' \<noteq> d)"
    by (rule adjacent_durations [OF index])
  have "in_step ?i (g\<lparr>nt := ?i + 1\<rparr>)" using g by (simp add: in_step_def)
  then obtain g1 where g1: "start_both pick ?i d Expire (now n) (g\<lparr>nt := ?i + 1\<rparr>) = Inr g1" "in_step (Suc ?i) g1"
    "nt g1 = ?i + 1" "active0 (impl0 g1) = (active0 (impl0 g))(?i \<mapsto> (now n + d, Expire))"
    using start_both_in_step [of ?i "g\<lparr>nt := ?i + 1\<rparr>" "now n" d Expire pick] by (auto simp: fresh_call_back_def)
  show ?thesis
  proof (cases "n mod 2 = 0 \<and> index > 0")
    case False
    then show ?thesis using d g1 by (auto simp: generate_body_def Let_def)
  next
    case True
    then obtain d2 where d2: "get_at durations (index - 1) = Inr d2" "d2 \<noteq> d" using d' by blast
    then have "fresh_call_back (Suc ?i) (now n + d2) (Stop_timer ?i) (active0 (impl0 g1))"
      by (simp add: fresh_call_back_def g1(4))
    from start_both_in_step [OF g1(2) this, of pick]
    obtain g2 where g2: "start_both pick (?i + 1) d2 (Stop_timer ?i) (now n) g1 = Inr g2" "in_step (Suc (Suc ?i)) g2"
      "active0 (impl0 g2) (?i + 1) = Some (now n + d2, Stop_timer ?i)"
      by auto
    have "in_step (?i + 2) (g2\<lparr>nt := ?i + 2\<rparr>)" using g2(2) by (simp add: in_step_def)
    from expire_both_in_step [OF pick this, of "?i + 1"] g2(3)
    obtain g3 where "expire_both pick (g2\<lparr>nt := ?i + 2\<rparr>) = Inr g3" "in_step (?i + 2) g3" "nt g3 = ?i + 2" by auto
    then show ?thesis using True d g1(1) d2(1) g2(1) by (simp add: generate_body_def Let_def)
  qed
qed

lemma generate_loop_in_step:
  assumes "pick_ok pick" "in_step (nt g) g" "set indices \<subseteq> {0..max_interval_index}"
  shows "\<exists>g'. generate_loop pick n indices g = Inr g' \<and> in_step (nt g') g' \<and> nt g' = nt g + length indices + extra_timers n indices"
  using assms
proof (induction indices arbitrary: n g)
  case (Cons index indices)
  obtain g1 where g1: "generate_body pick n index g = Inr g1" "in_step (nt g1) g1" "nt g1 = nt g + 1 + extra_timers n [index]"
    using generate_body_in_step [OF Cons.prems(1,2), of index n] Cons.prems(3) by auto
  obtain g' where "generate_loop pick (n + 1) indices g1 = Inr g'" "in_step (nt g') g'" "nt g' = nt g1 + length indices + extra_timers (n + 1) indices"
    using Cons.IH [OF Cons.prems(1) g1(2), of "n + 1"] Cons.prems(3) by auto
  then show ?case using g1 by simp
qed simp

lemma new_timers_facts:
  "inv0 new_timers0" "active0 new_timers0 = Map.empty" "inv1 new_timers1" "active1 new_timers1 = Map.empty"
  "startable1 new_timers1 i"
  by (simp_all add: new_timers0_def new_timers1_def inv0_def nodes_ok_def inv1_def entries_ok_def active0_def
      active_of_def active1_def startable1_def fun_eq_iff)

lemma new_timers_in_step: "in_step 0 \<lparr>impl0 = new_timers0, impl1 = new_timers1, nt = 0\<rparr>"
  by (simp add: in_step_def new_timers_facts no_ties_def targets_old_def)

text \<open>
  C17. The first loop of \<^verbatim>\<open>generate\<close> runs through for every sequence of random interval indices: no
  assertion of either implementation fails, the time points at which they expire timers agree, at
  the end both have the same timers running, and the number of timers used is the number of
  iterations plus the number of extra timers counted before, which is the size of the vectors.
\<close>

theorem generate_agrees:
  assumes "pick_ok pick" "set random_intervals \<subseteq> {0..max_interval_index}"
  shows "\<exists>g. generate pick random_intervals = Inr g \<and> active1 (impl1 g) = active0 (impl0 g) \<and>
    nt g = length (take (nat ne) random_intervals) + extra_timers 0 (take (nat ne) random_intervals)"
proof -
  have "set (take (nat ne) random_intervals) \<subseteq> {0..max_interval_index}" by (rule subset_trans [OF set_take_subset assms(2)])
  from generate_loop_in_step [OF assms(1) _ this, of "\<lparr>impl0 = new_timers0, impl1 = new_timers1, nt = 0\<rparr>" 0] new_timers_in_step
  obtain g where "generate pick random_intervals = Inr g" "in_step (nt g) g"
    "nt g = length (take (nat ne) random_intervals) + extra_timers 0 (take (nat ne) random_intervals)"
    unfolding generate_def by (metis add_0 generator.select_convs(3))
  then show ?thesis unfolding in_step_def by blast
qed

theorem generate_agrees_witness:
  "\<exists>g. generate first_min [3, 0, 31, 5] = Inr g \<and> active1 (impl1 g) = active0 (impl0 g) \<and> nt g = 6"
proof -
  have "take (nat ne) [3, 0, 31, 5] = [3, 0, 31, 5 :: int]" by (simp add: ne_def loopsize_def)
  moreover have "extra_timers 0 [3, 0, 31, 5] = 2" "set [3, 0, 31, 5 :: int] \<subseteq> {0..max_interval_index}"
    by (simp_all add: max_interval_index_def)
  ultimately show ?thesis
    using generate_agrees [OF pick_first_min, of "[3, 0, 31, 5]"] by auto
qed

text \<open>
  C18. \<^verbatim>\<open>expire_next\<close> of the multimap expires exactly the timers with the smallest time point, removes
  those that their call-backs stop, skips the nodes of cancelled timers, and leaves all others.
\<close>

theorem expire_next0_refines:
  assumes "inv0 s" "is_min t (active0 s)" "no_ties (active0 s)"
  shows "\<exists>s'. expire_next0 s = Inr s' \<and> inv0 s' \<and> active0 s' = after_expiry t (active0 s)"
  using multimap.expire_next_ok [OF assms] by blast

theorem expire_next0_refines_witness:
  "\<exists>s1 s2 s3. start0 0 500 Expire 0 new_timers0 = Inr s1 \<and> start0 1 300 (Stop_timer 0) 100 s1 = Inr s2 \<and>
     expire_next0 s2 = Inr s3 \<and> inv0 s3 \<and> active0 s3 = Map.empty"
proof -
  obtain s1 where s1: "start0 0 500 Expire 0 new_timers0 = Inr s1" "inv0 s1" "active0 s1 = [0 \<mapsto> (500, Expire)]"
    using start0_ok [OF new_timers_facts(1), of 0 500 Expire 0] by (auto simp: new_timers_facts)
  obtain s2 where s2: "start0 1 300 (Stop_timer 0) 100 s1 = Inr s2" "inv0 s2"
    "active0 s2 = [0 \<mapsto> (500, Expire), 1 \<mapsto> (400, Stop_timer 0)]"
    using start0_ok [OF s1(2), of 1 300 "Stop_timer 0" 100] s1(3) by auto
  have r: "is_min 400 (active0 s2)" "no_ties (active0 s2)" "after_expiry 400 (active0 s2) = Map.empty"
    unfolding s2(3) by (auto simp: is_min_def no_ties_def after_expiry_def fun_eq_iff split: if_splits)
  show ?thesis using s1(1) s2(1) expire_next0_refines [OF s2(2) r(1,2)] r(3) by auto
qed

text \<open>
  C19. \<^verbatim>\<open>expire_next\<close> of the priority queue does the same, whichever of the smallest elements the queue
  delivers first.
\<close>

theorem expire_next1_refines:
  assumes "pick_ok pick" "inv1 s" "is_min t (active1 s)" "no_ties (active1 s)"
  shows "\<exists>s'. expire_next1 pick t s = Inr s' \<and> inv1 s' \<and> active1 s' = after_expiry t (active1 s)"
  using priority_queue.expire_next1_after [OF priority_queue.intro [OF assms(1)] assms(2-)] by blast

theorem expire_next1_refines_witness:
  "\<exists>s1 s2 s3. start1 first_min 0 500 Expire 0 new_timers1 = Inr s1 \<and> start1 first_min 1 300 (Stop_timer 0) 100 s1 = Inr s2 \<and>
     expire_next1 first_min 400 s2 = Inr s3 \<and> inv1 s3 \<and> active1 s3 = Map.empty"
proof -
  obtain s1 where s1: "start1 first_min 0 500 Expire 0 new_timers1 = Inr s1" "inv1 s1" "active1 s1 = [0 \<mapsto> (500, Expire)]"
    "startable1 s1 1"
    using start1_ok [OF new_timers_facts(3,5), of first_min 0 500 Expire 0] by (auto simp: new_timers_facts)
  obtain s2 where s2: "start1 first_min 1 300 (Stop_timer 0) 100 s1 = Inr s2" "inv1 s2"
    "active1 s2 = [0 \<mapsto> (500, Expire), 1 \<mapsto> (400, Stop_timer 0)]"
    using start1_ok [OF s1(2,4), of first_min 300 "Stop_timer 0" 100] s1(3) by auto
  have r: "is_min 400 (active1 s2)" "no_ties (active1 s2)" "after_expiry 400 (active1 s2) = Map.empty"
    unfolding s2(3) by (auto simp: is_min_def no_ties_def after_expiry_def fun_eq_iff split: if_splits)
  show ?thesis using s1(1) s2(1) expire_next1_refines [OF pick_first_min s2(2) r(1,2)] r(3) by auto
qed

end
