(* ===== verification/Tsc_Kmod.thy ===== *)
theory Tsc_Kmod
  imports Prelude
begin

text \<open>
  The kernel module \<^verbatim>\<open>src/kmod/tsc_kmod.c\<close>, which measures the overhead of reading the time stamp
  counter: the measurements, their statistics in 64-bit words, and the memory that the module
  allocates. The counter and the outcome of every allocation are inputs.
\<close>

section \<open>The kernel\<close>

type_synonym u64 = "64 word"

datatype message =
    Loading
  | Unable_to_allocate_times
  | Unable_to_allocate_row nat
  | Unable_to_allocate_variances
  | Unable_to_allocate_min_values
  | Critical_time nat nat u64 u64
  | Critical_overflow
  | Loop_size nat u64 u64 u64
  | Spurious int
  | Total_variance u64
  | Absolute_max_deviation u64
  | Variance_of_variances u64
  | Variance_of_minimum_values u64
  | Goodbye

text \<open>
  What the calls of the kernel's services leave behind: the live blocks of memory by number, the
  number of the next block, whether the allocation of a block succeeds (an input), and what was
  printed. Freeing a block that is not live is a fault.
\<close>

record kernel =
  live :: "nat list"
  fresh :: nat
  available :: "nat \<Rightarrow> bool"
  klog :: "message list"

definition printk :: "message \<Rightarrow> kernel \<Rightarrow> kernel" where
  "printk m k = k\<lparr>klog := klog k @ [m]\<rparr>"

definition kmalloc :: "kernel \<Rightarrow> nat option \<times> kernel" where
  "kmalloc k =
     (if available k (fresh k) then (Some (fresh k), k\<lparr>live := live k @ [fresh k], fresh := fresh k + 1\<rparr>)
      else (None, k\<lparr>fresh := fresh k + 1\<rparr>))"

definition kfree :: "nat \<Rightarrow> kernel \<Rightarrow> kernel result" where
  "kfree p k = (if p \<in> set (live k) then Inr (k\<lparr>live := remove1 p (live k)\<rparr>) else Inl Null_pointer)"

primrec kfree_all :: "nat list \<Rightarrow> kernel \<Rightarrow> kernel result" where
  "kfree_all [] k = Inr k"
| "kfree_all (p # ps) k = bindE (kfree p k) (kfree_all ps)"

section \<open>Measurements\<close>

definition SIZE_OF_STAT :: nat where
  "SIZE_OF_STAT = 100000"

definition BOUND_OF_LOOP :: nat where
  "BOUND_OF_LOOP = 100"

text \<open>The two halves of the counter before and after.\<close>

record reading =
  cycles_high :: "32 word"
  cycles_low :: "32 word"
  cycles_high1 :: "32 word"
  cycles_low1 :: "32 word"

definition join_words :: "32 word \<Rightarrow> 32 word \<Rightarrow> u64" where
  "join_words high low = or (push_bit 32 (ucast high)) (ucast low)"

definition fill_entry :: "nat \<Rightarrow> nat \<Rightarrow> reading \<Rightarrow> kernel \<Rightarrow> u64 \<times> kernel" where
  "fill_entry j i r k =
     (let start = join_words (cycles_high r) (cycles_low r);
          stop = join_words (cycles_high1 r) (cycles_low1 r)
      in if stop - start < 0 then (0, printk (Critical_time j i start stop) k) else (stop - start, k))"

text \<open>\<^verbatim>\<open>Filltimes\<close>; row \<^term>\<open>j\<close> gets its elements in order.\<close>

primrec fill_row :: "nat \<Rightarrow> (nat \<Rightarrow> reading) \<Rightarrow> nat list \<Rightarrow> kernel \<Rightarrow> u64 list \<times> kernel" where
  "fill_row j tsc [] k = ([], k)"
| "fill_row j tsc (i # is) k =
     (let (t, k1) = fill_entry j i (tsc i) k; (ts, k2) = fill_row j tsc is k1 in (t # ts, k2))"

primrec fill_rows :: "(nat \<Rightarrow> nat \<Rightarrow> reading) \<Rightarrow> nat list \<Rightarrow> kernel \<Rightarrow> u64 list list \<times> kernel" where
  "fill_rows tsc [] k = ([], k)"
| "fill_rows tsc (j # js) k =
     (let (row, k1) = fill_row j (tsc j) [0..<SIZE_OF_STAT] k; (rows, k2) = fill_rows tsc js k1 in (row # rows, k2))"

definition Filltimes :: "(nat \<Rightarrow> nat \<Rightarrow> reading) \<Rightarrow> kernel \<Rightarrow> u64 list list \<times> kernel" where
  "Filltimes tsc k = fill_rows tsc [0..<BOUND_OF_LOOP] k"

section \<open>The variance\<close>

text \<open>
  The two loops of \<^verbatim>\<open>var_calc\<close> with the accumulator and its previous value; \<^const>\<open>None\<close> is the jump to
  \<^verbatim>\<open>overflow\<close>.
\<close>

primrec add_up :: "u64 list \<Rightarrow> u64 \<Rightarrow> u64 \<Rightarrow> (u64 \<times> u64) option" where
  "add_up [] acc previous = Some (acc, previous)"
| "add_up (x # xs) acc previous = (if acc < previous then None else add_up xs (acc + x) acc)"

definition EINVAL :: int where
  "EINVAL = 22"

definition variance_or_overflow :: "u64 list \<Rightarrow> u64 option result" where
  "variance_or_overflow inputs =
     (let size = of_nat (length inputs) in
      case add_up inputs 0 0 of
        None \<Rightarrow> Inr None
      | Some (acc, previous) \<Rightarrow>
          if acc * acc < previous then Inr None
          else
            (case add_up (map (\<lambda>x. x * x) inputs) 0 0 of
               None \<Rightarrow> Inr None
             | Some (temp_var, previous2) \<Rightarrow>
                 if temp_var * size < previous2 then Inr None
                 else if size * size = 0 then Inl Division_by_zero
                 else Inr (Some ((temp_var * size - acc * acc) div (size * size)))))"

definition var_calc :: "u64 list \<Rightarrow> kernel \<Rightarrow> (u64 \<times> kernel) result" where
  "var_calc inputs k =
     bindE (variance_or_overflow inputs) (\<lambda>v.
       Inr (case v of Some x \<Rightarrow> (x, k) | None \<Rightarrow> (word_of_int (- EINVAL), printk Critical_overflow k)))"

section \<open>The module\<close>

record statistics =
  spurious :: int
  prev_min :: u64
  tot_var :: u64
  max_dev_all :: u64
  variances :: "u64 list"
  min_values :: "u64 list"

primrec min_max :: "u64 list \<Rightarrow> u64 \<times> u64 \<Rightarrow> u64 \<times> u64" where
  "min_max [] m = m"
| "min_max (t # ts) m =
     (let min_time = fst m; max_time = snd m in
      min_max ts (if min_time = 0 \<or> min_time > t then t else min_time, if max_time < t then t else max_time))"

definition row_statistics :: "nat \<Rightarrow> u64 list \<Rightarrow> statistics \<Rightarrow> kernel \<Rightarrow> (statistics \<times> kernel) result" where
  "row_statistics j row st k =
     (let (min_time, max_time) = min_max row (0, 0); max_dev = max_time - min_time in
      bindE (var_calc row k) (\<lambda>(variance, k1).
        Inr (st\<lparr>min_values := min_values st @ [min_time],
                spurious := (if prev_min st \<noteq> 0 \<and> prev_min st > min_time then spurious st + 1 else spurious st),
                max_dev_all := (if max_dev > max_dev_all st then max_dev else max_dev_all st),
                variances := variances st @ [variance],
                tot_var := tot_var st + variance,
                prev_min := min_time\<rparr>,
             printk (Loop_size j variance max_dev min_time) k1)))"

primrec all_statistics :: "nat \<Rightarrow> u64 list list \<Rightarrow> statistics \<Rightarrow> kernel \<Rightarrow> (statistics \<times> kernel) result" where
  "all_statistics j [] st k = Inr (st, k)"
| "all_statistics j (row # rows) st k =
     bindE (row_statistics j row st k) (\<lambda>(st1, k1). all_statistics (j + 1) rows st1 k1)"

definition new_statistics :: statistics where
  "new_statistics = \<lparr>spurious = 0, prev_min = 0, tot_var = 0, max_dev_all = 0, variances = [], min_values = []\<rparr>"

text \<open>The rows of \<^verbatim>\<open>times\<close>; when one cannot be allocated, the rows before it are freed.\<close>

primrec alloc_rows :: "nat list \<Rightarrow> nat list \<Rightarrow> kernel \<Rightarrow> (nat list option \<times> kernel) result" where
  "alloc_rows [] rows k = Inr (Some rows, k)"
| "alloc_rows (j # js) rows k =
     (case kmalloc k of
        (None, k1) \<Rightarrow> bindE (kfree_all rows (printk (Unable_to_allocate_row j) k1)) (\<lambda>k2. Inr (None, k2))
      | (Some p, k1) \<Rightarrow> alloc_rows js (rows @ [p]) k1)"

definition measure_all :: "(nat \<Rightarrow> nat \<Rightarrow> reading) \<Rightarrow> kernel \<Rightarrow> kernel result" where
  "measure_all tsc k =
     (let (times_rows, k1) = Filltimes tsc k in
      bindE (all_statistics 0 times_rows new_statistics k1) (\<lambda>(st, k2).
      bindE (var_calc (variances st) k2) (\<lambda>(var_of_vars, k3).
      bindE (var_calc (min_values st) k3) (\<lambda>(var_of_mins, k4).
        Inr (printk (Variance_of_minimum_values var_of_mins) (printk (Variance_of_variances var_of_vars)
              (printk (Absolute_max_deviation (max_dev_all st)) (printk (Total_variance (tot_var st div of_nat BOUND_OF_LOOP))
                (printk (Spurious (spurious st)) k4)))))))))"

definition hello_start :: "(nat \<Rightarrow> nat \<Rightarrow> reading) \<Rightarrow> kernel \<Rightarrow> (int \<times> kernel) result" where
  "hello_start tsc k =
     (case kmalloc (printk Loading k) of
        (None, k1) \<Rightarrow> Inr (0, printk Unable_to_allocate_times k1)
      | (Some times_p, k1) \<Rightarrow>
          bindE (alloc_rows [0..<BOUND_OF_LOOP] [] k1) (\<lambda>(r, k2).
            case r of
              None \<Rightarrow> Inr (0, k2)
            | Some rows \<Rightarrow>
                (case kmalloc k2 of
                   (None, k3) \<Rightarrow> Inr (0, printk Unable_to_allocate_variances k3)
                 | (Some variances_p, k3) \<Rightarrow>
                     (case kmalloc k3 of
                        (None, k4) \<Rightarrow> Inr (0, printk Unable_to_allocate_min_values k4)
                      | (Some min_values_p, k4) \<Rightarrow>
                          bindE (measure_all tsc k4) (\<lambda>k5.
                          bindE (kfree_all rows k5) (\<lambda>k6.
                          bindE (kfree times_p k6) (\<lambda>k7.
                          bindE (kfree variances_p k7) (\<lambda>k8.
                          bindE (kfree min_values_p k8) (\<lambda>k9. Inr (0, k9)))))))))) "

definition hello_end :: "kernel \<Rightarrow> kernel" where
  "hello_end k = printk Goodbye k"

section \<open>Specification\<close>

text \<open>
  The exact sums and the variance that the module means to compute.
\<close>

definition total :: "u64 list \<Rightarrow> nat" where "total xs = sum_list (map unat xs)"

definition squares :: "u64 list \<Rightarrow> nat" where "squares xs = sum_list (map (\<lambda>x. (unat x)\<^sup>2) xs)"

definition variance :: "u64 list \<Rightarrow> nat" where
  "variance xs = (length xs * squares xs - (total xs)\<^sup>2) div (length xs)\<^sup>2"

text \<open>The number of ticks between the two readings, modulo the width of the counter.\<close>

definition ticks :: "reading \<Rightarrow> u64" where
  "ticks r = word_of_int
     ((uint (cycles_high1 r) * 2 ^ 32 + uint (cycles_low1 r)) - (uint (cycles_high r) * 2 ^ 32 + uint (cycles_low r)))"

text \<open>
  Which blocks of memory are live; block numbers are never used twice.
\<close>

definition same_memory :: "kernel \<Rightarrow> kernel \<Rightarrow> bool" where
  "same_memory k k' \<longleftrightarrow> live k' = live k"

definition memory_ok :: "kernel \<Rightarrow> bool" where
  "memory_ok k \<longleftrightarrow> distinct (live k) \<and> (\<forall>p \<in> set (live k). p < fresh k)"

text \<open>What \<^verbatim>\<open>hello_start\<close> leaves allocated, by the first allocation that fails.\<close>

definition leaked :: "kernel \<Rightarrow> nat list" where
  "leaked k =
     (let a = fresh k in
      if \<not> available k a then []
      else if \<exists>j < BOUND_OF_LOOP. \<not> available k (a + 1 + j) then [a]
      else if \<not> available k (a + 1 + BOUND_OF_LOOP) then [a..<a + 1 + BOUND_OF_LOOP]
      else if \<not> available k (a + 2 + BOUND_OF_LOOP) then [a..<a + 2 + BOUND_OF_LOOP]
      else [])"

definition sample_kernel :: kernel where
  "sample_kernel = \<lparr>live = [0, 1], fresh = 2, available = (\<lambda>p. p \<noteq> 12), klog = []\<rparr>"

section \<open>Statistics and memory\<close>

lemma total_simps [simp]: "total [] = 0" "total (x # xs) = unat x + total xs"
  by (simp_all add: total_def)

lemma squares_simps [simp]: "squares [] = 0" "squares (x # xs) = (unat x)\<^sup>2 + squares xs"
  by (simp_all add: squares_def)

lemma cauchy_step: "2 * a * total xs \<le> squares xs + length xs * a\<^sup>2"
proof (induction xs)
  case (Cons x xs)
  have "2 * int a * int (unat x) \<le> (int (unat x))\<^sup>2 + (int a)\<^sup>2"
    using zero_le_power2 [of "int a - int (unat x)"] by (simp add: power2_diff algebra_simps)
  then have "int (2 * a * unat x) \<le> int ((unat x)\<^sup>2 + a\<^sup>2)" by simp
  then have "2 * a * unat x \<le> (unat x)\<^sup>2 + a\<^sup>2" by (simp only: of_nat_le_iff)
  with Cons show ?case by (simp add: algebra_simps)
qed simp

lemma cauchy_schwarz: "(total xs)\<^sup>2 \<le> length xs * squares xs"
proof (induction xs)
  case (Cons x xs)
  then show ?case using cauchy_step [of "unat x" xs] by (simp add: power2_sum algebra_simps)
qed simp

lemma add_up_exact:
  assumes "unat acc + total xs < 2 ^ 64" "previous \<le> acc"
  shows "\<exists>a p. add_up xs acc previous = Some (a, p) \<and> unat a = unat acc + total xs \<and> p \<le> a"
  using assms
proof (induction xs arbitrary: acc previous)
  case (Cons x xs)
  have a: "unat (acc + x) = unat acc + unat x"
    using Cons.prems(1) by (intro unat_add_lem [where 'a = 64, THEN iffD1]) simp
  then have "acc \<le> acc + x" by (simp add: word_le_nat_alt)
  with Cons.IH [of "acc + x" acc] Cons.prems a show ?case by (auto simp: not_less)
qed simp

lemma total_le_square: "total xs \<le> (total xs)\<^sup>2"
  by (simp add: power2_eq_square)

lemma map_square:
  assumes "squares xs < 2 ^ 64"
  shows "total (map (\<lambda>x. x * x) xs) = squares xs"
  using assms
proof (induction xs)
  case (Cons x xs)
  then have "unat (x * x) = (unat x)\<^sup>2"
    unfolding power2_eq_square by (intro unat_mult_lem [where 'a = 64, THEN iffD1]) (simp add: power2_eq_square)
  with Cons show ?case by simp
qed simp

text \<open>
  C21. \<^verbatim>\<open>var_calc\<close> computes the variance of its inputs, without any wrap-around and without reporting an
  overflow, whenever the number of inputs times the sum of their squares fits into 64 bits: by the
  inequality of Cauchy and Schwarz no intermediate result is larger.
\<close>

theorem var_calc_exact:
  assumes "0 < length inputs" "length inputs < 2 ^ 32" "length inputs * squares inputs < 2 ^ 64"
  shows "\<exists>v. var_calc inputs k = Inr (v, k) \<and>
    unat v = (length inputs * squares inputs - (total inputs)\<^sup>2) div (length inputs)\<^sup>2"
proof -
  let ?n = "length inputs" let ?size = "of_nat ?n :: u64"
  have cs: "(total inputs)\<^sup>2 \<le> ?n * squares inputs" by (rule cauchy_schwarz)
  have n: "unat ?size = ?n" using assms(2) by (simp add: unat_of_nat)
  have "?n * ?n < 2 ^ 32 * 2 ^ 32" using assms(2) by (intro mult_strict_mono) auto
  then have nn: "unat (?size * ?size) = ?n\<^sup>2" using n unat_mult_lem [of ?size ?size] by (simp add: power2_eq_square)
  have small: "total inputs < 2 ^ 64" "(total inputs)\<^sup>2 < 2 ^ 64" "squares inputs < 2 ^ 64"
    using cs assms(3) total_le_square [of inputs] mult_le_mono1 [of 1 ?n "squares inputs"] assms(1) by linarith+
  obtain acc p where acc: "add_up inputs 0 0 = Some (acc, p)" "unat acc = total inputs" "p \<le> acc"
    using add_up_exact [of 0 inputs 0] small(1) by auto
  obtain tv p2 where tv: "add_up (map (\<lambda>x. x * x) inputs) 0 0 = Some (tv, p2)" "unat tv = squares inputs" "p2 \<le> tv"
    using add_up_exact [of 0 "map (\<lambda>x. x * x) inputs" 0] small(3) map_square [OF small(3)] by auto
  have sq: "unat (acc * acc) = (total inputs)\<^sup>2"
    using unat_mult_lem [of acc acc] small(2) acc(2) by (simp add: power2_eq_square)
  have mul: "unat (tv * ?size) = ?n * squares inputs"
    using unat_mult_lem [of tv ?size] assms(3) tv(2) n by (simp add: mult.commute)
  have "\<not> acc * acc < p"
    using acc(2,3) sq total_le_square [of inputs] by (simp add: word_le_nat_alt word_less_nat_alt)
  moreover have "squares inputs \<le> ?n * squares inputs" using assms(1) by (simp add: Suc_leI)
  then have "\<not> tv * ?size < p2"
    using tv(2,3) mul unfolding word_le_nat_alt word_less_nat_alt by linarith
  moreover have "?size * ?size \<noteq> 0" using nn assms(1) by (auto simp: unat_eq_0 [symmetric])
  moreover have "unat ((tv * ?size - acc * acc) div (?size * ?size)) = (?n * squares inputs - (total inputs)\<^sup>2) div ?n\<^sup>2"
    using cs mul sq nn by (simp add: unat_div unat_sub word_le_nat_alt)
  ultimately show ?thesis
    using acc(1) tv(1) by (simp add: var_calc_def variance_or_overflow_def Let_def)
qed

text \<open>
  The checks of \<^verbatim>\<open>var_calc\<close> do not find every overflow: of the inputs 0 and 2 to the 32, whose
  variance is 2 to the 62, it computes the variance 0 and reports nothing.
\<close>

theorem var_calc_misses_overflow:
  "var_calc [0, 4294967296] k = Inr (0, k) \<and> variance [0, 4294967296] = 2 ^ 62"
  by (simp add: var_calc_def variance_or_overflow_def variance_def power2_eq_square)

lemma min_max_fold:
  "mn \<noteq> 0 \<Longrightarrow> 0 \<notin> set ts \<Longrightarrow> min_max ts (mn, mx) = (Min (insert mn (set ts)), Max (insert mx (set ts)))"
proof (induction ts arbitrary: mn mx)
  case (Cons t ts)
  have "(if mn > t then t else mn) = min mn t" "(if mx < t then t else mx) = max mx t" by (auto simp: min_def max_def)
  moreover have "min mn t \<noteq> 0" using Cons.prems by (simp add: min_def)
  moreover have "Min (insert (min mn t) (set ts)) = Min (insert mn (insert t (set ts)))"
    "Max (insert (max mx t) (set ts)) = Max (insert mx (insert t (set ts)))"
    by (cases "ts = []"; simp add: min.assoc max.assoc)+
  ultimately show ?case using Cons by (simp add: Let_def)
qed simp

lemma min_max_row:
  assumes "row \<noteq> []" "0 \<notin> set row"
  shows "min_max row (0, 0) = (Min (set row), Max (set row))"
proof (cases row)
  case (Cons t ts)
  then have "0 < t" using assms(2) by (auto simp: word_gt_0)
  then show ?thesis using Cons assms(2) min_max_fold [of t ts t] by auto
qed (use assms in simp)

text \<open>
  The statistics of a row of times that are not zero: the reported variance, largest deviation and
  minimum are those of the row, and a minimum below that of the row before is counted as spurious.
\<close>

theorem row_statistics_correct:
  assumes "row \<noteq> []" "length row < 2 ^ 32" "length row * squares row < 2 ^ 64" "0 \<notin> set row"
  shows "\<exists>st' v. row_statistics j row st k = Inr (st', printk (Loop_size j v (Max (set row) - Min (set row)) (Min (set row))) k) \<and>
    unat v = variance row \<and> variances st' = variances st @ [v] \<and> min_values st' = min_values st @ [Min (set row)] \<and>
    max_dev_all st' = max (max_dev_all st) (Max (set row) - Min (set row)) \<and> prev_min st' = Min (set row) \<and>
    spurious st' = spurious st + (if prev_min st \<noteq> 0 \<and> Min (set row) < prev_min st then 1 else 0)"
proof -
  obtain v where v: "var_calc row k = Inr (v, k)" "unat v = variance row"
    using var_calc_exact [of row k] assms(1-3) by (auto simp: variance_def)
  have m: "min_max row (0, 0) = (Min (set row), Max (set row))" by (rule min_max_row [OF assms(1,4)])
  obtain mn mx where mm: "Min (set row) = mn" "Max (set row) = mx" by blast
  show ?thesis using v unfolding row_statistics_def m mm by (auto simp: Let_def max_def)
qed

lemma join_words_int: "join_words h l = word_of_int (uint h * 2 ^ 32 + uint l)"
proof -
  have "and (push_bit 32 (ucast h)) (ucast l :: u64) = 0"
    by (rule bit_word_eqI) (auto simp: bit_simps dest: bit_imp_le_length)
  then have "join_words h l = push_bit 32 (ucast h) + ucast l"
    by (simp add: join_words_def disjunctive_add_eq_or)
  then show ?thesis by (simp only: push_bit_eq_mult ucast_eq of_int_add of_int_mult of_int_power of_int_numeral)
qed

lemma fill_entry_ticks: "fill_entry j i r k = (ticks r, k)"
  by (simp add: fill_entry_def Let_def ticks_def join_words_int)

lemma fill_row_ticks: "fill_row j tsc is k = (map (\<lambda>i. ticks (tsc i)) is, k)"
  by (induction "is" arbitrary: k) (simp_all add: fill_entry_ticks)

lemma fill_rows_ticks: "fill_rows tsc js k = (map (\<lambda>j. map (\<lambda>i. ticks (tsc j i)) [0..<SIZE_OF_STAT]) js, k)"
  by (induction js arbitrary: k) (simp_all add: fill_row_ticks)

text \<open>
  \<^verbatim>\<open>Filltimes\<close> stores the number of ticks between the two readings of the counter, modulo 2 to the
  64; the branch for a negative difference is never taken because the difference is unsigned.
\<close>

theorem Filltimes_exact:
  "Filltimes tsc k = (map (\<lambda>j. map (\<lambda>i. ticks (tsc j i)) [0..<SIZE_OF_STAT]) [0..<BOUND_OF_LOOP], k)"
  by (simp add: Filltimes_def fill_rows_ticks)

lemma printk_simps [simp]:
  "live (printk m k) = live k" "fresh (printk m k) = fresh k" "available (printk m k) = available k"
  by (simp_all add: printk_def)

lemma kfree_all_ok:
  assumes "distinct (live k)" "distinct ps" "set ps \<subseteq> set (live k)"
  shows "kfree_all ps k = Inr (k\<lparr>live := filter (\<lambda>p. p \<notin> set ps) (live k)\<rparr>)"
  using assms
proof (induction ps arbitrary: k)
  case (Cons p ps)
  have r: "remove1 p (live k) = filter (\<lambda>q. q \<noteq> p) (live k)"
    using Cons.prems(1) by (auto simp: distinct_remove1_removeAll removeAll_filter_not_eq intro!: filter_cong)
  have "kfree_all ps (k\<lparr>live := filter (\<lambda>q. q \<noteq> p) (live k)\<rparr>) =
      Inr (k\<lparr>live := filter (\<lambda>q. q \<notin> set ps) (filter (\<lambda>q. q \<noteq> p) (live k))\<rparr>)"
    using Cons.IH [of "k\<lparr>live := filter (\<lambda>q. q \<noteq> p) (live k)\<rparr>"] Cons.prems by auto
  then show ?case using Cons.prems(3) by (simp add: kfree_def r conj_commute)
qed simp

lemma alloc_rows_ok:
  assumes "\<forall>j < length js. available k (fresh k + j)"
  shows "alloc_rows js rows k = Inr (Some (rows @ [fresh k..<fresh k + length js]),
    k\<lparr>live := live k @ [fresh k..<fresh k + length js], fresh := fresh k + length js\<rparr>)"
  using assms
proof (induction js arbitrary: rows k)
  case (Cons j js)
  let ?k = "k\<lparr>live := live k @ [fresh k], fresh := fresh k + 1\<rparr>"
  have "\<forall>i < length js. available ?k (fresh ?k + i)" using Cons.prems by (auto dest: spec [of _ "Suc i" for i])
  from Cons.IH [OF this, of "rows @ [fresh k]"]
  have "alloc_rows js (rows @ [fresh k]) ?k = Inr (Some (rows @ fresh k # [Suc (fresh k)..<Suc (fresh k) + length js]),
      k\<lparr>live := live k @ fresh k # [Suc (fresh k)..<Suc (fresh k) + length js], fresh := Suc (fresh k) + length js\<rparr>)"
    by (simp del: upt_Suc)
  moreover have "available k (fresh k)" using Cons.prems by (auto dest: spec [of _ 0])
  moreover have "[fresh k..<fresh k + length (j # js)] = fresh k # [Suc (fresh k)..<Suc (fresh k) + length js]"
    by (simp add: upt_conv_Cons del: upt_Suc)
  ultimately show ?case by (simp add: kmalloc_def del: upt_Suc)
qed simp

lemma alloc_rows_fails:
  assumes "j0 < length js" "\<not> available k (fresh k + j0)" "memory_ok k" "distinct rows" "set rows \<subseteq> set (live k)"
  shows "\<exists>k'. alloc_rows js rows k = Inr (None, k') \<and> live k' = filter (\<lambda>p. p \<notin> set rows) (live k)"
  using assms
proof (induction js arbitrary: rows k j0)
  case (Cons j js)
  show ?case
  proof (cases "available k (fresh k)")
    case False
    then show ?thesis
      using kfree_all_ok [of "printk (Unable_to_allocate_row j) (k\<lparr>fresh := fresh k + 1\<rparr>)" rows] Cons.prems
      by (simp add: kmalloc_def memory_ok_def)
  next
    case True
    let ?k = "k\<lparr>live := live k @ [fresh k], fresh := fresh k + 1\<rparr>"
    have f: "fresh k \<notin> set (live k)" using Cons.prems(3) by (auto simp: memory_ok_def)
    obtain j1 where j1: "j0 = Suc j1" using True Cons.prems(2) by (cases j0) auto
    have "memory_ok ?k" using Cons.prems(3) f by (auto simp: memory_ok_def)
    moreover have "distinct (rows @ [fresh k])" "set (rows @ [fresh k]) \<subseteq> set (live ?k)" using Cons.prems(4,5) f by auto
    ultimately obtain k' where "alloc_rows js (rows @ [fresh k]) ?k = Inr (None, k')"
      "live k' = filter (\<lambda>p. p \<notin> set (rows @ [fresh k])) (live ?k)"
      using Cons.IH [of j1 ?k "rows @ [fresh k]"] Cons.prems(1,2) j1 by auto
    moreover have "filter (\<lambda>p. p \<notin> set (rows @ [fresh k])) (live ?k) = filter (\<lambda>p. p \<notin> set rows) (live k)"
      using f by (auto intro!: filter_cong)
    ultimately show ?thesis using True by (simp add: kmalloc_def)
  qed
qed simp

lemma var_calc_total:
  assumes "of_nat (length xs) * of_nat (length xs) \<noteq> (0 :: u64)"
  shows "\<exists>v k'. var_calc xs k = Inr (v, k') \<and> same_memory k k'"
  using assms
  by (auto simp: var_calc_def variance_or_overflow_def Let_def same_memory_def printk_def split: option.splits)

lemma row_statistics_total:
  assumes "of_nat (length row) * of_nat (length row) \<noteq> (0 :: u64)"
  shows "\<exists>st' k'. row_statistics j row st k = Inr (st', k') \<and> same_memory k k' \<and>
    length (variances st') = Suc (length (variances st)) \<and> length (min_values st') = Suc (length (min_values st))"
proof -
  obtain v k' where "var_calc row k = Inr (v, k')" "same_memory k k'" using var_calc_total [OF assms] by blast
  then show ?thesis by (cases "min_max row (0, 0)") (simp add: row_statistics_def Let_def same_memory_def)
qed

lemma all_statistics_total:
  assumes "\<forall>row \<in> set rows. of_nat (length row) * of_nat (length row) \<noteq> (0 :: u64)"
  shows "\<exists>st' k'. all_statistics j rows st k = Inr (st', k') \<and> same_memory k k' \<and>
    length (variances st') = length (variances st) + length rows \<and> length (min_values st') = length (min_values st) + length rows"
  using assms
proof (induction rows arbitrary: j st k)
  case (Cons row rows)
  obtain st1 k1 where 1: "row_statistics j row st k = Inr (st1, k1)" "same_memory k k1"
    "length (variances st1) = Suc (length (variances st))" "length (min_values st1) = Suc (length (min_values st))"
    using row_statistics_total [of row j st k] Cons.prems by auto
  obtain st2 k2 where "all_statistics (j + 1) rows st1 k1 = Inr (st2, k2)" "same_memory k1 k2"
    "length (variances st2) = length (variances st1) + length rows" "length (min_values st2) = length (min_values st1) + length rows"
    using Cons.IH [of "j + 1" st1 k1] Cons.prems by auto
  then show ?case using 1 by (auto simp: same_memory_def)
qed (simp add: same_memory_def)

lemma measure_all_total: "\<exists>k'. measure_all tsc k = Inr k' \<and> same_memory k k'"
proof -
  let ?rows = "map (\<lambda>j. map (\<lambda>i. ticks (tsc j i)) [0..<SIZE_OF_STAT]) [0..<BOUND_OF_LOOP]"
  have "\<forall>row \<in> set ?rows. of_nat (length row) * of_nat (length row) \<noteq> (0 :: u64)" by (simp add: SIZE_OF_STAT_def)
  then obtain st k2 where 2: "all_statistics 0 ?rows new_statistics k = Inr (st, k2)" "same_memory k k2"
    "length (variances st) = BOUND_OF_LOOP" "length (min_values st) = BOUND_OF_LOOP"
    using all_statistics_total [of ?rows 0 new_statistics k] by (auto simp: new_statistics_def)
  have nz: "of_nat BOUND_OF_LOOP * of_nat BOUND_OF_LOOP \<noteq> (0 :: u64)" by (simp add: BOUND_OF_LOOP_def)
  obtain vv k3 where 3: "var_calc (variances st) k2 = Inr (vv, k3)" "same_memory k2 k3"
    using var_calc_total [of "variances st" k2] nz 2(3) by auto
  obtain vm k4 where "var_calc (min_values st) k3 = Inr (vm, k4)" "same_memory k3 k4"
    using var_calc_total [of "min_values st" k3] nz 2(4) by auto
  with 2 3 show ?thesis by (simp add: measure_all_def Filltimes_exact same_memory_def del: map_map)
qed

lemma kfree_all_append: "kfree_all (ps @ qs) k = bindE (kfree_all ps k) (kfree_all qs)"
  by (induction ps arbitrary: k) (auto simp: bindE_assoc intro!: bindE_cong)

lemma all_freed:
  assumes "memory_ok k" "live k5 = live k @ [fresh k..<fresh k + 3 + n]"
  shows "bindE (kfree_all [fresh k + 1..<fresh k + 1 + n] k5) (\<lambda>k6. bindE (kfree (fresh k) k6) (\<lambda>k7.
    bindE (kfree (fresh k + 1 + n) k7) (\<lambda>k8. bindE (kfree (fresh k + 2 + n) k8) (\<lambda>k9. Inr (0, k9))))) =
    Inr (0, k5\<lparr>live := live k\<rparr>)"
proof -
  let ?ps = "[fresh k + 1..<fresh k + 1 + n] @ [fresh k, fresh k + 1 + n, fresh k + 2 + n]"
  have old: "p < fresh k" if "p \<in> set (live k)" for p using assms(1) that by (auto simp: memory_ok_def)
  have ps: "set ?ps = {fresh k..<fresh k + 3 + n}" by auto
  have "distinct (live k5)" unfolding assms(2) using assms(1) by (auto simp: memory_ok_def)
  moreover have "set ?ps \<subseteq> set (live k5)" unfolding ps assms(2) by auto
  ultimately have "kfree_all ?ps k5 = Inr (k5\<lparr>live := filter (\<lambda>p. p \<notin> set ?ps) (live k5)\<rparr>)"
    by (intro kfree_all_ok) simp_all
  moreover have "filter (\<lambda>p. p \<notin> set ?ps) (live k5) = live k"
    unfolding ps assms(2) by (auto simp: filter_id_conv dest!: old)
  moreover have "bindE (kfree_all [fresh k + 1..<fresh k + 1 + n] k5) (\<lambda>k6. bindE (kfree (fresh k) k6) (\<lambda>k7.
    bindE (kfree (fresh k + 1 + n) k7) (\<lambda>k8. bindE (kfree (fresh k + 2 + n) k8) (\<lambda>k9. Inr (0, k9))))) =
    bindE (kfree_all ?ps k5) (\<lambda>k9. Inr (0, k9))"
    unfolding kfree_all_append by (simp add: bindE_assoc)
  ultimately show ?thesis by simp
qed

lemma kmalloc_cases:
  obtains "available k (fresh k)" "kmalloc k = (Some (fresh k), k\<lparr>live := live k @ [fresh k], fresh := fresh k + 1\<rparr>)"
  | "\<not> available k (fresh k)" "kmalloc k = (None, k\<lparr>fresh := fresh k + 1\<rparr>)"
  by (auto simp: kmalloc_def)

lemma rows_allocated:
  assumes "available k (fresh k)" "\<forall>j < n. available k (fresh k + 1 + j)"
  obtains k1 k2 where "kmalloc (printk Loading k) = (Some (fresh k), k1)"
    "alloc_rows [0..<n] [] k1 = Inr (Some [fresh k + 1..<fresh k + 1 + n], k2)"
    "live k2 = live k @ [fresh k..<fresh k + 1 + n]" "fresh k2 = fresh k + 1 + n" "available k2 = available k"
proof -
  let ?k1 = "(printk Loading k)\<lparr>live := live k @ [fresh k], fresh := fresh k + 1\<rparr>"
  let ?k2 = "?k1\<lparr>live := live ?k1 @ [fresh k + 1..<fresh k + 1 + n], fresh := fresh k + 1 + n\<rparr>"
  have "kmalloc (printk Loading k) = (Some (fresh k), ?k1)" using assms(1) by (simp add: kmalloc_def)
  moreover have "alloc_rows [0..<n] [] ?k1 = Inr (Some [fresh k + 1..<fresh k + 1 + n], ?k2)"
    using alloc_rows_ok [of "[0..<n]" ?k1 "[]"] assms(2) by simp
  moreover have "live ?k2 = live k @ [fresh k..<fresh k + 1 + n]" by (simp add: upt_conv_Cons del: upt_Suc)
  ultimately show thesis by (rule that) simp_all
qed

lemma rows_not_allocated:
  assumes "memory_ok k" "available k (fresh k)" "j < n" "\<not> available k (fresh k + 1 + j)"
  shows "\<exists>k1 k2. kmalloc (printk Loading k) = (Some (fresh k), k1) \<and> alloc_rows [0..<n] [] k1 = Inr (None, k2) \<and>
    live k2 = live k @ [fresh k]"
proof -
  let ?k1 = "(printk Loading k)\<lparr>live := live k @ [fresh k], fresh := fresh k + 1\<rparr>"
  have "memory_ok ?k1" using assms(1) by (auto simp: memory_ok_def)
  from alloc_rows_fails [of j "[0..<n]" ?k1 "[]", OF _ _ this] assms(2-) show ?thesis
    by (simp add: kmalloc_def)
qed

text \<open>
  C20. \<^verbatim>\<open>hello_start\<close> never frees a block twice and returns 0. When all allocations succeed it has freed
  everything at the end; otherwise it leaves allocated exactly what \<^verbatim>\<open>leaked\<close> says: nothing, the array of
  row pointers, or all blocks allocated so far, depending on the first allocation that fails.
\<close>

theorem hello_start_memory:
  assumes "memory_ok k"
  shows "\<exists>k'. hello_start tsc k = Inr (0, k') \<and> live k' = live k @ leaked k"
proof -
  let ?a = "fresh k" let ?n = BOUND_OF_LOOP
  consider "\<not> available k ?a" | j where "available k ?a" "j < ?n" "\<not> available k (?a + 1 + j)"
    | "available k ?a" "\<forall>j < ?n. available k (?a + 1 + j)" by blast
  then show ?thesis
  proof cases
    case 1
    then show ?thesis by (simp add: hello_start_def kmalloc_def leaked_def Let_def)
  next
    case 2
    then show ?thesis using rows_not_allocated [OF assms 2] by (auto simp: hello_start_def leaked_def Let_def)
  next
    case 3
    obtain k1 k2 where h: "kmalloc (printk Loading k) = (Some ?a, k1)"
      "alloc_rows [0..<?n] [] k1 = Inr (Some [?a + 1..<?a + 1 + ?n], k2)"
      and k2: "live k2 = live k @ [?a..<?a + 1 + ?n]" "fresh k2 = ?a + 1 + ?n" "available k2 = available k"
      by (rule rows_allocated [OF 3])
    show ?thesis
    proof (cases rule: kmalloc_cases [of k2])
      case 2
      then show ?thesis using 3 h k2 by (auto simp: hello_start_def leaked_def Let_def)
    next
      case 1
      then obtain k3 where h3: "kmalloc k2 = (Some (?a + 1 + ?n), k3)" "available k (?a + 1 + ?n)"
        and k3: "live k3 = live k @ [?a..<?a + 2 + ?n]" "fresh k3 = ?a + 2 + ?n" "available k3 = available k"
        using k2 by simp
      show ?thesis
      proof (cases rule: kmalloc_cases [of k3])
        case 2
        then show ?thesis using 3 h h3 k3 by (auto simp: hello_start_def leaked_def Let_def)
      next
        case 1
        then obtain k4 where h4: "kmalloc k3 = (Some (?a + 2 + ?n), k4)" "available k (?a + 2 + ?n)"
          and k4: "live k4 = live k @ [?a..<?a + 3 + ?n]"
          using k3 by (simp add: numeral_3_eq_3)
        obtain k5 where h5: "measure_all tsc k4 = Inr k5" "live k5 = live k @ [?a..<?a + 3 + ?n]"
          using measure_all_total [of tsc k4] k4 by (auto simp: same_memory_def)
        have "hello_start tsc k = Inr (0, k5\<lparr>live := live k\<rparr>)"
          unfolding hello_start_def h(1) prod.case option.case h(2) bindE.simps h3(1) h4(1) h5(1)
          by (rule all_freed [OF assms h5(2)])
        moreover have "leaked k = []" using 3 h3(2) h4(2) by (auto simp: leaked_def Let_def)
        ultimately show ?thesis by simp
      qed
    qed
  qed
qed

theorem hello_start_memory_witness:
  "\<exists>k'. hello_start (\<lambda>_ _. \<lparr>cycles_high = 0, cycles_low = 5, cycles_high1 = 0, cycles_low1 = 30\<rparr>) sample_kernel = Inr (0, k') \<and>
     live k' = [0, 1, 2]"
proof -
  have "memory_ok sample_kernel" by (simp add: memory_ok_def sample_kernel_def)
  moreover have "\<exists>j < BOUND_OF_LOOP. \<not> available sample_kernel (fresh sample_kernel + 1 + j)"
    by (rule exI [of _ 9]) (simp add: sample_kernel_def BOUND_OF_LOOP_def)
  then have "leaked sample_kernel = [2]" by (auto simp: leaked_def Let_def sample_kernel_def)
  ultimately show ?thesis
    using hello_start_memory [of sample_kernel "\<lambda>_ _. \<lparr>cycles_high = 0, cycles_low = 5, cycles_high1 = 0, cycles_low1 = 30\<rparr>"]
    by (simp add: sample_kernel_def)
qed

theorem var_calc_exact_witness:
  "\<exists>v. var_calc [10, 20, 60] sample_kernel = Inr (v, sample_kernel) \<and> unat v = 466"
  using var_calc_exact [of "[10, 20, 60]" sample_kernel] by (simp add: power2_eq_square)

theorem row_statistics_correct_witness:
  "\<exists>st' v. row_statistics 0 [10, 20, 60] new_statistics sample_kernel = Inr (st', printk (Loop_size 0 v 50 10) sample_kernel) \<and>
     unat v = 466"
  using row_statistics_correct [of "[10, 20, 60]" 0 new_statistics sample_kernel] by (auto simp: power2_eq_square variance_def)

end
