(* ===== verification/Tsc_Offset.thy ===== *)
theory Tsc_Offset
  imports Prelude
begin

text \<open>
  The program \<^verbatim>\<open>src/core.cc\<close>, in which two threads on two cores draw numbers from a shared 16-bit
  counter, exchange time stamps through two ring buffers and record the smallest differences they
  see; from these the offset between the counters of the two cores is computed. All interleavings
  of the two threads are covered; the time stamps are inputs.
\<close>

unbundle bit_operations_syntax

section \<open>State\<close>

definition bufsize :: int where
  "bufsize = 16"

definition int64_max :: int where
  "int64_max = 9223372036854775807"

text \<open>
  A thread is about to draw a number (\<^verbatim>\<open>Take\<close>), to store its time stamp, to load that of the other
  core, to evaluate, or it has left the loop.
\<close>

datatype offset_pc = Take | Store | Load | Evaluate | Left

record offset_thread =
  pc :: offset_pc
  index :: "16 word"
  tsc1 :: "64 word"
  tsc2 :: "64 word"
  other_tsc :: "64 word"
  loops :: int
  my_diff :: "int list"
  fc :: "int list"
  mam :: "(int \<times> int) list"

record offset_state =
  s_atomic :: "16 word"
  m_ringbuffers :: "nat \<Rightarrow> 64 word list"
  thread :: "nat \<Rightarrow> offset_thread"

definition new_offset_thread :: offset_thread where
  "new_offset_thread =
     \<lparr>pc = Take, index = 0, tsc1 = 0, tsc2 = 0, other_tsc = 0, loops = 0,
      my_diff = replicate (nat bufsize) int64_max, fc = [], mam = []\<rparr>"

text \<open>\<^verbatim>\<open>init\<close> and the start of the two threads.\<close>

definition offset_init :: offset_state where
  "offset_init =
     \<lparr>s_atomic = 10, m_ringbuffers = (\<lambda>_. replicate (nat bufsize) 0), thread = (\<lambda>_. new_offset_thread)\<rparr>"

section \<open>The loop of a thread\<close>

text \<open>The condition of the loop.\<close>

definition continue_loop :: "offset_thread \<Rightarrow> offset_thread" where
  "continue_loop t = t\<lparr>pc := (if loops t < 1000000 then Take else Left)\<rparr>"

definition take_number :: "nat \<Rightarrow> 64 word \<Rightarrow> 64 word \<Rightarrow> offset_state \<Rightarrow> offset_state" where
  "take_number cpu t1 t2 s =
     s\<lparr>s_atomic := s_atomic s + 1,
       thread := (thread s)(cpu := (thread s cpu)\<lparr>pc := Store, index := s_atomic s, tsc1 := t1, tsc2 := t2\<rparr>)\<rparr>"

definition ring_index :: "16 word \<Rightarrow> int" where
  "ring_index i = sint (i AND word_of_int (bufsize - 1))"

definition store_stamp :: "nat \<Rightarrow> offset_state \<Rightarrow> offset_state result" where
  "store_stamp cpu s =
     (let t = thread s cpu in
      bindE (set_at (m_ringbuffers s cpu) (ring_index (index t)) (tsc2 t)) (\<lambda>ring.
        Inr (s\<lparr>m_ringbuffers := (m_ringbuffers s)(cpu := ring), thread := (thread s)(cpu := t\<lparr>pc := Load\<rparr>)\<rparr>)))"

definition load_stamp :: "nat \<Rightarrow> offset_state \<Rightarrow> offset_state result" where
  "load_stamp cpu s =
     (let t = thread s cpu in
      bindE (get_at (m_ringbuffers s (1 - cpu)) (ring_index (index t - 1))) (\<lambda>stamp.
        Inr (s\<lparr>thread := (thread s)(cpu := t\<lparr>pc := Evaluate, other_tsc := stamp\<rparr>)\<rparr>)))"

definition accepted :: "int \<times> int \<Rightarrow> bool" where
  "accepted d \<longleftrightarrow> fst d < 200 \<and> snd d < c_div (200 * bufsize) 2"

definition record_diff :: "int \<Rightarrow> offset_thread \<Rightarrow> offset_thread result" where
  "record_diff diff t =
     bindE (get_at (my_diff t) (ring_index (index t - 1))) (\<lambda>old.
       if diff < old then
         bindE (set_at (my_diff t) (ring_index (index t - 1)) diff) (\<lambda>d. Inr (t\<lparr>my_diff := d, loops := 0\<rparr>))
       else Inr t)"

definition evaluate_thread :: "64 word \<Rightarrow> offset_thread \<Rightarrow> offset_thread result" where
  "evaluate_thread tsc3 t =
     (let delta_2_1 = sint (tsc2 t - tsc1 t);
          delta_3_1 = sint (tsc3 - tsc1 t);
          diff = sint (tsc2 t - other_tsc t);
          t1 = t\<lparr>mam := mam t @ [(delta_2_1, delta_3_1)]\<rparr>
      in if accepted (delta_2_1, delta_3_1) then
           bindE (if diff < 40000 \<and> diff > -300 then
                    record_diff diff
                      (if delta_2_1 = 34 \<and> - 50 \<le> diff \<and> diff \<le> 50 then t1\<lparr>fc := fc t1 @ [diff]\<rparr> else t1)
                  else Inr t1) (\<lambda>t2.
             Inr (continue_loop (t2\<lparr>loops := loops t2 + 1\<rparr>)))
         else Inr (continue_loop t1))"

definition evaluate_stamps :: "nat \<Rightarrow> 64 word \<Rightarrow> offset_state \<Rightarrow> offset_state result" where
  "evaluate_stamps cpu tsc3 s =
     bindE (evaluate_thread tsc3 (thread s cpu)) (\<lambda>t. Inr (s\<lparr>thread := (thread s)(cpu := t)\<rparr>))"

text \<open>
  One action of one of the two threads, with the time stamps that it reads.
\<close>

definition offset_action :: "nat \<Rightarrow> 64 word \<Rightarrow> 64 word \<Rightarrow> 64 word \<Rightarrow> offset_state \<Rightarrow> offset_state result" where
  "offset_action cpu t1 t2 t3 s =
     (case pc (thread s cpu) of
        Take \<Rightarrow> Inr (take_number cpu t1 t2 s)
      | Store \<Rightarrow> store_stamp cpu s
      | Load \<Rightarrow> load_stamp cpu s
      | Evaluate \<Rightarrow> evaluate_stamps cpu t3 s
      | Left \<Rightarrow> Inr s)"

inductive offset_step :: "offset_state \<Rightarrow> offset_state \<Rightarrow> bool" where
  "cpu < 2 \<Longrightarrow> offset_action cpu t1 t2 t3 s = Inr s' \<Longrightarrow> offset_step s s'"

section \<open>The result\<close>

text \<open>
  The check at the end of a thread; \<^verbatim>\<open>mam_min\<close> is the minimum that \<^verbatim>\<open>MinAvgMax\<close> keeps.
\<close>

definition check_delta :: "(int list \<Rightarrow> int) \<Rightarrow> offset_thread \<Rightarrow> unit result" where
  "check_delta mam_min t =
     (let m = mam_min (map snd (mam t)) in assertE (\<bar>m - 200\<bar> \<le> c_div m 4))"

definition min_diff :: "int list \<Rightarrow> int" where
  "min_diff ds = foldl min int64_max ds"

definition to_int64 :: "int \<Rightarrow> int result" where
  "to_int64 i = (if - int64_max - 1 \<le> i \<and> i \<le> int64_max then Inr i else Inl Arithmetic_overflow)"

definition compute_offset :: "int list \<Rightarrow> int list \<Rightarrow> (int \<times> nat) result" where
  "compute_offset d0 d1 =
     bindE (to_int64 (min_diff d0 - min_diff d1)) (\<lambda>d.
       let offset = c_div d 2 in
       if offset < 0 then bindE (to_int64 (- offset)) (\<lambda>r. Inr (r, 1)) else Inr (offset, 0))"

section \<open>The invariant\<close>

text \<open>
  The invariant: a recorded difference lies in the window of differences that are looked at, and a
  thread that has not left the loop has not counted a million samples since its last record. The
  potential of a thread is what it can still improve, weighted with the samples that an improvement
  makes it start over with.
\<close>

definition slot_ok :: "int \<Rightarrow> bool" where
  "slot_ok d \<longleftrightarrow> d = int64_max \<or> - 300 < d \<and> d < 40000"

definition thread_ok :: "offset_thread \<Rightarrow> bool" where
  "thread_ok t \<longleftrightarrow> length (my_diff t) = nat bufsize \<and> (\<forall>d \<in> set (my_diff t). slot_ok d) \<and>
     0 \<le> loops t \<and> loops t \<le> 1000000 \<and> (pc t \<noteq> Left \<longrightarrow> loops t < 1000000)"

definition offset_ok :: "offset_state \<Rightarrow> bool" where
  "offset_ok s \<longleftrightarrow> (\<forall>cpu < 2. thread_ok (thread s cpu) \<and> length (m_ringbuffers s cpu) = nat bufsize)"

definition rank :: "int \<Rightarrow> nat" where
  "rank d = nat (min d 40000 + 299)"

definition thread_potential :: "offset_thread \<Rightarrow> nat" where
  "thread_potential t = sum_list (map rank (my_diff t)) * 1000000 + nat (1000000 - loops t)"

definition thread_effort :: "offset_thread \<Rightarrow> nat" where
  "thread_effort t = length (filter accepted (mam t))"

definition both :: "(offset_thread \<Rightarrow> nat) \<Rightarrow> offset_state \<Rightarrow> nat" where
  "both f s = f (thread s 0) + f (thread s 1)"

definition sample_bound :: nat where
  "sample_bound = 2 * (16 * 40299 * 1000000 + 1000000)"

section \<open>All interleavings\<close>

lemma ring_index_range: "0 \<le> ring_index i" "ring_index i < bufsize"
proof -
  have u: "0 \<le> uint (i AND 15)" "uint (i AND 15) \<le> 15" using uint_and [of i 15] AND_upper2 [of 15 "uint i"] by simp_all
  have "signed_take_bit 15 x = x" if "0 \<le> x" "x \<le> 15" for x :: int using that by (simp add: signed_take_bit_int_eq_self)
  from this [OF u] have "signed_take_bit 15 (uint (i AND 15)) = uint (i AND 15)" .
  then have "sint (i AND 15) = uint (i AND 15)" by (simp add: sint_uint)
  with u show "0 \<le> ring_index i" "ring_index i < bufsize" unfolding ring_index_def bufsize_def by simp_all
qed

lemma rank_less: "slot_ok d \<Longrightarrow> - 300 < e \<Longrightarrow> e < 40000 \<Longrightarrow> e < d \<Longrightarrow> rank e < rank d"
  by (auto simp: slot_ok_def rank_def)

lemma rank_update:
  assumes "k < length ds" "rank e < rank (ds ! k)"
  shows "sum_list (map rank (ds[k := e])) < sum_list (map rank ds)"
  using assms
proof (induction ds arbitrary: k)
  case (Cons d ds)
  then show ?case by (cases k) auto
qed simp

lemma record_diff_ok:
  assumes "thread_ok t" "- 300 < diff" "diff < 40000"
  obtains "record_diff diff t = Inr t"
  | ds where "record_diff diff t = Inr (t\<lparr>my_diff := ds, loops := 0\<rparr>)" "length ds = length (my_diff t)"
      "\<forall>d \<in> set ds. slot_ok d" "sum_list (map rank ds) < sum_list (map rank (my_diff t))"
proof -
  let ?k = "ring_index (index t - 1)"
  have k: "0 \<le> ?k" "?k < int (length (my_diff t))" "nat ?k < length (my_diff t)"
    using ring_index_range [of "index t - 1"] assms(1) by (auto simp: thread_ok_def bufsize_def)
  show thesis
  proof (cases "diff < my_diff t ! nat ?k")
    case False
    then show ?thesis using k that(1) by (simp add: record_diff_def get_at_def)
  next
    case True
    have "slot_ok (my_diff t ! nat ?k)" using assms(1) k(3) by (auto simp: thread_ok_def)
    then have "rank diff < rank (my_diff t ! nat ?k)" by (rule rank_less) (use assms True in auto)
    then have "sum_list (map rank ((my_diff t)[nat ?k := diff])) < sum_list (map rank (my_diff t))"
      by (rule rank_update [OF k(3)])
    moreover have "\<forall>d \<in> set ((my_diff t)[nat ?k := diff]). slot_ok d"
      using assms set_update_subset_insert [of "my_diff t" "nat ?k" diff] by (auto simp: thread_ok_def slot_ok_def)
    ultimately show ?thesis using True k that(2) by (simp add: record_diff_def get_at_def set_at_def)
  qed
qed

lemma thread_ok_continue:
  assumes "length (my_diff t) = nat bufsize" "\<forall>d \<in> set (my_diff t). slot_ok d" "0 \<le> loops t" "loops t \<le> 1000000"
  shows "thread_ok (continue_loop t)" "thread_potential (continue_loop t) = thread_potential t" "thread_effort (continue_loop t) = thread_effort t"
  using assms by (auto simp: thread_ok_def continue_loop_def thread_potential_def thread_effort_def)

text \<open>A sample that is counted: the thread gets on by one, or records a smaller difference and starts over.\<close>

lemma counted_sample:
  assumes "accepted d" "mam t' = mam t @ [d]" "length (my_diff t') = nat bufsize" "\<forall>d \<in> set (my_diff t'). slot_ok d"
    "0 \<le> loops t" "loops t < 1000000"
    "loops t' = loops t \<and> my_diff t' = my_diff t \<or> loops t' = 0 \<and> sum_list (map rank (my_diff t')) < sum_list (map rank (my_diff t))"
  shows "thread_ok (continue_loop (t'\<lparr>loops := loops t' + 1\<rparr>))"
    "thread_effort (continue_loop (t'\<lparr>loops := loops t' + 1\<rparr>)) + thread_potential (continue_loop (t'\<lparr>loops := loops t' + 1\<rparr>))
       \<le> thread_effort t + thread_potential t"
proof -
  let ?t = "t'\<lparr>loops := loops t' + 1\<rparr>"
  have l: "0 \<le> loops ?t" "loops ?t \<le> 1000000" using assms(5-) by auto
  have "Suc (thread_potential ?t) \<le> thread_potential t"
    using assms(7)
  proof
    assume "loops t' = loops t \<and> my_diff t' = my_diff t"
    then show ?thesis using assms(6) by (simp add: thread_potential_def)
  next
    assume a: "loops t' = 0 \<and> sum_list (map rank (my_diff t')) < sum_list (map rank (my_diff t))"
    then have "Suc (sum_list (map rank (my_diff t'))) * 1000000 \<le> sum_list (map rank (my_diff t)) * 1000000"
      by (intro mult_le_mono1) simp
    then show ?thesis using a by (simp add: thread_potential_def)
  qed
  moreover have "thread_effort ?t = Suc (thread_effort t)" using assms(1,2) by (simp add: thread_effort_def)
  ultimately show "thread_effort (continue_loop ?t) + thread_potential (continue_loop ?t) \<le> thread_effort t + thread_potential t"
    using thread_ok_continue(2,3) [of ?t] assms(3,4) l by simp
  show "thread_ok (continue_loop ?t)" using thread_ok_continue(1) [of ?t] assms(3,4) l by simp
qed

lemma evaluate_thread_ok:
  assumes ok: "thread_ok t" and pc: "pc t \<noteq> Left"
  shows "\<exists>t'. evaluate_thread tsc3 t = Inr t' \<and> thread_ok t' \<and>
    thread_effort t' + thread_potential t' \<le> thread_effort t + thread_potential t"
proof -
  let ?d = "(sint (tsc2 t - tsc1 t), sint (tsc3 - tsc1 t))"
  let ?diff = "sint (tsc2 t - other_tsc t)"
  let ?t1 = "t\<lparr>mam := mam t @ [?d]\<rparr>"
  let ?t2 = "if fst ?d = 34 \<and> - 50 \<le> ?diff \<and> ?diff \<le> 50 then ?t1\<lparr>fc := fc ?t1 @ [?diff]\<rparr> else ?t1"
  note t = ok [unfolded thread_ok_def]
  have loops: "0 \<le> loops t" "loops t < 1000000" using t pc by blast+
  consider (rejected) "\<not> accepted ?d" | (counted) "accepted ?d" "\<not> (?diff < 40000 \<and> ?diff > - 300)"
    | (recorded) "accepted ?d" "?diff < 40000" "?diff > - 300" by blast
  then show ?thesis
  proof cases
    case rejected
    then show ?thesis
      using thread_ok_continue [of ?t1] t by (simp add: evaluate_thread_def Let_def thread_effort_def thread_potential_def)
  next
    case counted
    then show ?thesis using counted_sample [of ?d ?t1 t] t loops by (auto simp: evaluate_thread_def Let_def)
  next
    case recorded
    obtain t2 where t2: "t2 = ?t2" "thread_ok t2" "mam t2 = mam t @ [?d]" "my_diff t2 = my_diff t" "loops t2 = loops t"
      using ok by (simp add: thread_ok_def)
    obtain t' where t': "record_diff ?diff t2 = Inr t'" "mam t' = mam t @ [?d]" "length (my_diff t') = nat bufsize"
      "\<forall>d \<in> set (my_diff t'). slot_ok d"
      "loops t' = loops t \<and> my_diff t' = my_diff t \<or> loops t' = 0 \<and> sum_list (map rank (my_diff t')) < sum_list (map rank (my_diff t))"
      by (rule record_diff_ok [OF t2(2) recorded(3,2)]) (use t t2(3-) in auto)
    have "evaluate_thread tsc3 t = Inr (continue_loop (t'\<lparr>loops := loops t' + 1\<rparr>))"
      using recorded t'(1) unfolding t2(1) by (simp add: evaluate_thread_def Let_def)
    then show ?thesis using counted_sample [OF recorded(1) t'(2-4) loops t'(5)] by blast
  qed
qed

lemma action_ok:
  assumes ok: "offset_ok s" and cpu: "cpu < 2"
  shows "\<exists>s'. offset_action cpu t1 t2 t3 s = Inr s' \<and> offset_ok s' \<and>
    both thread_effort s' + both thread_potential s' \<le> both thread_effort s + both thread_potential s"
proof -
  let ?t = "thread s cpu"
  have t: "thread_ok ?t" "length (m_ringbuffers s cpu) = nat bufsize" "length (m_ringbuffers s (1 - cpu)) = nat bufsize"
    using ok cpu by (auto simp: offset_ok_def)
  have upd: "offset_ok s' \<and> both thread_effort s' + both thread_potential s' \<le> both thread_effort s + both thread_potential s"
    if "thread s' = (thread s)(cpu := t')" "thread_ok t'" "\<forall>c < 2. length (m_ringbuffers s' c) = nat bufsize"
      "thread_effort t' + thread_potential t' \<le> thread_effort ?t + thread_potential ?t" for s' t'
    using that ok cpu by (auto simp: offset_ok_def both_def less_2_cases_iff)
  have rings: "\<forall>c < 2. length (m_ringbuffers s c) = nat bufsize" using ok by (simp add: offset_ok_def)
  have k: "0 \<le> ring_index i" "ring_index i < int (nat bufsize)" for i
    using ring_index_range [of i] by (simp_all add: bufsize_def)
  show ?thesis
  proof (cases "pc ?t")
    case Take
    then show ?thesis
      using upd [of "take_number cpu t1 t2 s" "?t\<lparr>pc := Store, index := s_atomic s, tsc1 := t1, tsc2 := t2\<rparr>"] t(1) rings
      by (simp add: offset_action_def take_number_def thread_ok_def thread_effort_def thread_potential_def)
  next
    case Store
    let ?s = "s\<lparr>m_ringbuffers := (m_ringbuffers s)(cpu := (m_ringbuffers s cpu)[nat (ring_index (index ?t)) := tsc2 ?t]),
      thread := (thread s)(cpu := ?t\<lparr>pc := Load\<rparr>)\<rparr>"
    have "offset_action cpu t1 t2 t3 s = Inr ?s"
      using Store k t(2) by (simp add: offset_action_def store_stamp_def set_at_def Let_def)
    then show ?thesis
      using upd [of ?s "?t\<lparr>pc := Load\<rparr>"] t(1) rings Store
      by (simp add: thread_ok_def thread_effort_def thread_potential_def)
  next
    case Load
    let ?t' = "?t\<lparr>pc := Evaluate, other_tsc := m_ringbuffers s (1 - cpu) ! nat (ring_index (index ?t - 1))\<rparr>"
    have "offset_action cpu t1 t2 t3 s = Inr (s\<lparr>thread := (thread s)(cpu := ?t')\<rparr>)"
      using Load k t(3) by (simp add: offset_action_def load_stamp_def get_at_def Let_def)
    then show ?thesis
      using upd [of "s\<lparr>thread := (thread s)(cpu := ?t')\<rparr>" ?t'] t(1) rings Load
      by (simp add: thread_ok_def thread_effort_def thread_potential_def)
  next
    case Evaluate
    then obtain t' where t': "evaluate_thread t3 ?t = Inr t'" "thread_ok t'"
      "thread_effort t' + thread_potential t' \<le> thread_effort ?t + thread_potential ?t"
      using evaluate_thread_ok [OF t(1)] by auto
    then show ?thesis
      using upd [of "s\<lparr>thread := (thread s)(cpu := t')\<rparr>" t'] rings Evaluate
      by (simp add: offset_action_def evaluate_stamps_def)
  next
    case Left
    then show ?thesis using ok by (simp add: offset_action_def)
  qed
qed

lemma offset_init_ok: "offset_ok offset_init" "both thread_effort offset_init + both thread_potential offset_init \<le> sample_bound"
  by (simp_all add: offset_ok_def offset_init_def thread_ok_def new_offset_thread_def slot_ok_def both_def thread_effort_def
      thread_potential_def bufsize_def sum_list_replicate rank_def int64_max_def sample_bound_def)

lemma step_ok:
  assumes "offset_ok s" "offset_step s s'"
  shows "offset_ok s' \<and> both thread_effort s' + both thread_potential s' \<le> both thread_effort s + both thread_potential s"
proof -
  obtain cpu t1 t2 t3 where "cpu < 2" "offset_action cpu t1 t2 t3 s = Inr s'" using assms(2) by (auto elim: offset_step.cases)
  then show ?thesis using action_ok [OF assms(1), of cpu t1 t2 t3] by auto
qed

interpretation stamps: bounded_effort "\<lambda>s. s = offset_init" offset_step offset_ok "both thread_effort" "both thread_potential" sample_bound
  using offset_init_ok step_ok by unfold_locales blast+

lemma reach_offset_init: "reach (\<lambda>s. s = offset_init) offset_step offset_init"
  by (rule reach.reach_init) (rule refl)

text \<open>
  C22. Under every interleaving and for all time stamps the two threads never index a buffer out of
  range, although the counter wraps around at 16 bits, and together they count no more than the
  given number of samples: every record is smaller than the one before in its slot and differences
  are bounded below, so that the loop, which ends after a million counted samples without a
  record, cannot be extended for ever.
\<close>

theorem offset_threads_end:
  assumes "reach (\<lambda>s. s = offset_init) offset_step s"
  shows "(\<forall>cpu < 2. \<forall>t1 t2 t3. \<exists>s'. offset_action cpu t1 t2 t3 s = Inr s') \<and>
    both thread_effort s \<le> sample_bound"
  using stamps.effort_bounded [OF assms] action_ok [OF stamps.inv_reach [OF assms]] by blast

theorem offset_threads_end_witness:
  "(\<exists>s'. offset_action 1 5 6 7 (take_number 0 100 130 offset_init) = Inr s') \<and>
   both thread_effort (take_number 0 100 130 offset_init) \<le> sample_bound"
proof -
  have "offset_step offset_init (take_number 0 100 130 offset_init)"
    by (rule offset_step.intros [of 0 100 130 0]) (simp_all add: offset_action_def offset_init_def new_offset_thread_def)
  then have "reach (\<lambda>s. s = offset_init) offset_step (take_number 0 100 130 offset_init)"
    by (rule reach.reach_step [OF reach_offset_init])
  from offset_threads_end [OF this] show ?thesis by simp
qed

lemma min_diff_in: "min_diff ds \<in> insert int64_max (set ds)"
proof -
  have "foldl min m ds \<in> insert m (set ds)" for m :: int
    by (induction ds arbitrary: m) (auto simp: min_def)
  then show ?thesis by (simp add: min_diff_def)
qed

lemma min_diff_slot: "\<forall>d \<in> set ds. slot_ok d \<Longrightarrow> slot_ok (min_diff ds)"
  using min_diff_in [of ds] by (auto simp: slot_ok_def)

lemma half_bound: "0 \<le> c_div d 2 \<Longrightarrow> 0 \<le> d \<or> d = -1" "c_div d 2 < 0 \<Longrightarrow> d < -1" "d \<le> 40298 \<Longrightarrow> - 40298 \<le> d \<Longrightarrow> \<bar>c_div d 2\<bar> \<le> 20149"
  by (auto simp: c_div_def sgn_if split: if_splits)



section \<open>The rounds of main\<close>

text \<open>
  \<^verbatim>\<open>main\<close> runs the two threads a hundred times, each time after \<^verbatim>\<open>init\<close>. The histograms \<^verbatim>\<open>fcs\<close> of the two cores collect
  the differences of all rounds, while the smallest differences are those of the last round.
\<close>

inductive core_rounds :: "nat \<Rightarrow> (nat \<Rightarrow> int list) \<Rightarrow> offset_state \<Rightarrow> bool" where
  no_round: "core_rounds 0 (\<lambda>_. []) offset_init"
| next_round: "core_rounds i fcs s \<Longrightarrow> reach (\<lambda>s. s = offset_init) offset_step s' \<Longrightarrow>
    pc (thread s' 0) = Left \<Longrightarrow> pc (thread s' 1) = Left \<Longrightarrow>
    core_rounds (Suc i) (\<lambda>cpu. fcs cpu @ fc (thread s' cpu)) s'"

text \<open>The minimum of each core and the offset, as \<^verbatim>\<open>main\<close> computes them after the last round.\<close>

definition core_main_result :: "offset_state \<Rightarrow> (int \<times> nat) result" where
  "core_main_result s = compute_offset (my_diff (thread s 0)) (my_diff (thread s 1))"

definition fc_ok :: "offset_state \<Rightarrow> bool" where
  "fc_ok s \<longleftrightarrow> (\<forall>cpu. \<forall>x \<in> set (fc (thread s cpu)). - 50 \<le> x \<and> x \<le> 50)"

lemma record_diff_fc: "record_diff diff t = Inr t' \<Longrightarrow> fc t' = fc t"
  by (auto simp: record_diff_def bindE_eq_Inr split: if_splits)

lemma evaluate_fc:
  assumes "evaluate_thread tsc3 t = Inr t'"
  shows "set (fc t') \<subseteq> set (fc t) \<union> {- 50..50}"
proof -
  define diff where "diff = sint (tsc2 t - other_tsc t)"
  define t1 where "t1 = t\<lparr>mam := mam t @ [(sint (tsc2 t - tsc1 t), sint (tsc3 - tsc1 t))]\<rparr>"
  define u where "u = (if sint (tsc2 t - tsc1 t) = 34 \<and> - 50 \<le> diff \<and> diff \<le> 50 then t1\<lparr>fc := fc t1 @ [diff]\<rparr> else t1)"
  have u: "set (fc u) \<subseteq> set (fc t) \<union> {- 50..50}" "fc t1 = fc t" by (auto simp: u_def t1_def)
  note ev = assms [unfolded evaluate_thread_def Let_def, folded diff_def t1_def, folded u_def]
  show ?thesis
  proof (cases "accepted (sint (tsc2 t - tsc1 t), sint (tsc3 - tsc1 t))")
    case True
    then obtain t2 where t2: "(if diff < 40000 \<and> diff > -300 then record_diff diff u else Inr t1) = Inr t2"
      "t' = continue_loop (t2\<lparr>loops := loops t2 + 1\<rparr>)"
      using ev by (auto simp only: if_P bindE_eq_Inr sum.inject)
    have "fc t' = fc t2" using t2(2) by (simp add: continue_loop_def)
    moreover have "fc t2 = fc u \<or> fc t2 = fc t" using t2(1) u(2) record_diff_fc by (auto split: if_splits)
    ultimately show ?thesis using u(1) by auto
  next
    case False
    then have "t' = continue_loop t1" using ev by simp
    then show ?thesis using u(2) by (simp add: continue_loop_def)
  qed
qed

interpretation histogram: inductive_invariant "\<lambda>s. s = offset_init" offset_step fc_ok
proof
  show "fc_ok s" if "s = offset_init" for s using that by (simp add: fc_ok_def offset_init_def new_offset_thread_def)
  fix s s' assume ok: "fc_ok s" and "offset_step s s'"
  then obtain cpu t1 t2 t3 where a: "offset_action cpu t1 t2 t3 s = Inr s'" by (auto elim: offset_step.cases)
  show "fc_ok s'"
  proof (cases "pc (thread s cpu)")
    case Evaluate
    then obtain t where t: "evaluate_thread t3 (thread s cpu) = Inr t" "s' = s\<lparr>thread := (thread s)(cpu := t)\<rparr>"
      using a by (auto simp: offset_action_def evaluate_stamps_def bindE_eq_Inr)
    then show ?thesis using ok evaluate_fc [OF t(1)] by (auto simp: fc_ok_def)
  qed (use a ok in \<open>auto simp: offset_action_def take_number_def store_stamp_def load_stamp_def fc_ok_def Let_def bindE_eq_Inr split: if_splits\<close>)
qed

text \<open>
  The histograms hold differences between -50 and 50 only; every round but the last is forgotten when the
  offset is computed.
\<close>

theorem core_rounds_bounded:
  "core_rounds i fcs s \<Longrightarrow> (\<forall>cpu. \<forall>x \<in> set (fcs cpu). - 50 \<le> x \<and> x \<le> 50) \<and> reach (\<lambda>s. s = offset_init) offset_step s"
proof (induction rule: core_rounds.induct)
  case no_round
  show ?case using reach_offset_init by simp
next
  case (next_round i fcs s s')
  then show ?case using histogram.inv_reach [OF next_round.hyps(2)] by (auto simp: fc_ok_def)
qed

end
