(* ===== verification/Object_Queue.thy ===== *)
theory Object_Queue
  imports Prelude
begin

text \<open>
  The programs that use the object queue of the thread pool, \<^verbatim>\<open>src/objectqueue.cxx\<close> and
  \<^verbatim>\<open>src/timer_thread.cxx\<close>. The queue itself (\<^verbatim>\<open>AIObjectQueue\<close>, a submodule) is a parameter: a
  record of operations, with a locale for what the programs rely on.
\<close>

section \<open>The interface\<close>

text \<open>
  \<^verbatim>\<open>reallocate\<close> fails when there is no memory. \<^verbatim>\<open>move_out\<close> is told whether the producer access is
  held at the same time, with which no element may be taken from a full buffer; it returns nothing
  when the buffer is empty.
\<close>

record ('q, 'a) queue_ops =
  q_new :: 'q
  q_capacity :: "'q \<Rightarrow> int"
  q_reallocate :: "int \<Rightarrow> 'q \<Rightarrow> 'q option"
  q_producer_length :: "'q \<Rightarrow> int"
  q_consumer_length :: "'q \<Rightarrow> int"
  q_clear :: "'q \<Rightarrow> 'q"
  q_move_in :: "'a \<Rightarrow> 'q \<Rightarrow> 'q"
  q_move_out :: "bool \<Rightarrow> 'q \<Rightarrow> ('a option \<times> 'q) result"

section \<open>objectqueue.cxx\<close>

text \<open>
  A function object is empty or can be called; a call appends to the output. Moving from a
  function object leaves it empty.
\<close>

type_synonym fn = "string option"

definition call_fn :: "fn \<Rightarrow> string list \<Rightarrow> string list result" where
  "call_fn g out = (case g of None \<Rightarrow> Inl Exception | Some name \<Rightarrow> Inr (out @ [name]))"

definition assert_lengths :: "('q, fn) queue_ops \<Rightarrow> 'q \<Rightarrow> int \<Rightarrow> unit result" where
  "assert_lengths ops q n =
     bindE (assertE (q_producer_length ops q = n)) (\<lambda>_. assertE (q_consumer_length ops q = n))"

text \<open>\<^verbatim>\<open>F bf(ca.move_out())\<close>: an empty buffer gives an empty function object.\<close>

definition take_fn :: "('q, fn) queue_ops \<Rightarrow> bool \<Rightarrow> 'q \<Rightarrow> (fn \<times> 'q) result" where
  "take_fn ops held q =
     bindE (q_move_out ops held q) (\<lambda>(x, q1). Inr (case x of Some g \<Rightarrow> g | None \<Rightarrow> None, q1))"

primrec pass_around :: "('q, fn) queue_ops \<Rightarrow> nat \<Rightarrow> fn \<Rightarrow> 'q \<Rightarrow> string list \<Rightarrow> (fn \<times> 'q \<times> string list) result" where
  "pass_around ops 0 bf q out = Inr (bf, q, out)"
| "pass_around ops (Suc k) bf q out =
     (let q1 = q_move_in ops bf q in
      bindE (assert_lengths ops q1 2) (\<lambda>_.
      bindE (take_fn ops False q1) (\<lambda>(bf2, q2).
      bindE (assert_lengths ops q2 1) (\<lambda>_.
      bindE (call_fn bf2 out) (\<lambda>out1. pass_around ops k bf2 q2 out1)))))"

definition queue_capacity :: int where
  "queue_capacity = 2"

text \<open>
  \<^verbatim>\<open>main\<close> for the function \<^verbatim>\<open>f\<close> bound to its argument; an exception of \<^verbatim>\<open>reallocate\<close> is caught.
\<close>

definition objectqueue_main :: "('q, fn) queue_ops \<Rightarrow> string \<Rightarrow> ('q \<times> string list) result" where
  "objectqueue_main ops f =
     (let q0 = q_new ops in
      bindE (assertE (q_capacity ops q0 = 0)) (\<lambda>_.
      let (q1, out) = (case q_reallocate ops queue_capacity q0 of
                         Some q \<Rightarrow> (q, []) | None \<Rightarrow> (q0, [''Allocation failed''])) in
      bindE (assertE (q_capacity ops q1 = queue_capacity)) (\<lambda>_.
      bindE (assert_lengths ops q1 0) (\<lambda>_.
      let q2 = q_move_in ops (Some f) (q_clear ops (q_clear ops q1)) in
      bindE (assert_lengths ops q2 1) (\<lambda>_.
      bindE (take_fn ops True q2) (\<lambda>(bf, q3).
      bindE (assert_lengths ops q3 0) (\<lambda>_.
        case bf of
          None \<Rightarrow> Inr (q3, out @ [''Buffer empty!''])
        | Some g \<Rightarrow>
            let q4 = q_move_in ops (Some g) q3 in
            bindE (assert_lengths ops q4 1) (\<lambda>_.
            bindE (pass_around ops 5 (Some g) q4 out) (\<lambda>(bf', q5, out1). Inr (q5, out1))))))))))"

text \<open>The argument that \<^verbatim>\<open>main\<close> binds, what \<^verbatim>\<open>f\<close> writes for it, and the program with them.\<close>

definition Big :: string where
  "Big = ''Big''"

definition f_line :: "string \<Rightarrow> string" where
  "f_line b = ''Calling f(\"'' @ b @ ''\")!''"

definition objectqueue_program :: "('q, fn) queue_ops \<Rightarrow> ('q \<times> string list) result" where
  "objectqueue_program ops = objectqueue_main ops (f_line Big)"

section \<open>timer_thread.cxx\<close>

definition queue_size :: int where
  "queue_size = 32"

text \<open>A timer's call-back: its number and the queue that it adds to.\<close>

record Callback =
  m_nr :: int
  m_queue_handle :: nat

text \<open>A task: its number and the timer that added it.\<close>

type_synonym pool_task = "int \<times> int"

primrec add_tasks :: "('q, pool_task) queue_ops \<Rightarrow> int \<Rightarrow> int list \<Rightarrow> 'q \<Rightarrow> 'q" where
  "add_tasks ops nr [] q = q"
| "add_tasks ops nr (i # is) q = add_tasks ops nr is (q_move_in ops (i, nr) q)"

definition added_tasks :: "int \<Rightarrow> int \<Rightarrow> int" where
  "added_tasks nr len = (if len < queue_size then min (queue_size - len) (10 * (nr + 1)) else 0)"

text \<open>
  \<^verbatim>\<open>Callback::callback\<close> on the queues of the thread pool: the queues afterwards and how often
  \<^verbatim>\<open>notify_one\<close> is called on the queue.
\<close>

definition callback :: "('q, pool_task) queue_ops \<Rightarrow> Callback \<Rightarrow> 'q list \<Rightarrow> ('q list \<times> int) result" where
  "callback ops c queues =
     bindE (get_at queues (int (m_queue_handle c))) (\<lambda>q.
       let added = added_tasks (m_nr c) (q_producer_length ops q) in
       bindE (set_at queues (int (m_queue_handle c)) (add_tasks ops (m_nr c) (for_values 0 (added - 1) 1) q)) (\<lambda>qs.
         Inr (qs, added)))"

text \<open>The array \<^verbatim>\<open>callbacks\<close>; the queues are numbered high, mid, low.\<close>

definition callbacks :: "Callback list" where
  "callbacks = map (\<lambda>(nr, h). \<lparr>m_nr = nr, m_queue_handle = h\<rparr>)
     [(0, 0), (1, 1), (2, 2), (3, 0), (4, 1), (5, 2), (6, 0), (7, 1), (8, 2), (9, 0)]"

text \<open>
  The thread pool at work: a timer expires and its call-back runs, or a worker thread takes a task.
\<close>

record 'q pool =
  queues :: "'q list"
  notifications :: int
  executed :: "pool_task list"

inductive pool_step :: "('q, pool_task) queue_ops \<Rightarrow> 'q pool \<Rightarrow> 'q pool \<Rightarrow> bool" for ops where
  timer_expires: "c \<in> set callbacks \<Longrightarrow> callback ops c (queues p) = Inr (qs, n) \<Longrightarrow>
     pool_step ops p (p\<lparr>queues := qs, notifications := notifications p + n\<rparr>)"
| worker_takes: "h < length (queues p) \<Longrightarrow> q_move_out ops False (queues p ! h) = Inr (Some t, q') \<Longrightarrow>
     pool_step ops p (p\<lparr>queues := (queues p)[h := q'], executed := executed p @ [t]\<rparr>)"

section \<open>Specification\<close>

text \<open>A queue that keeps these laws: a list with a capacity.\<close>

definition listed_queue :: "(int \<times> 'a list, 'a) queue_ops" where
  "listed_queue =
     \<lparr>q_new = (0, []), q_capacity = fst, q_reallocate = (\<lambda>n q. Some (n, [])),
      q_producer_length = (\<lambda>q. int (length (snd q))), q_consumer_length = (\<lambda>q. int (length (snd q))),
      q_clear = (\<lambda>q. (fst q, [])),
      q_move_in = (\<lambda>x q. if int (length (snd q)) < fst q then (fst q, snd q @ [x]) else q),
      q_move_out = (\<lambda>held q. if held \<and> int (length (snd q)) = fst q then Inl Assertion_failed
                           else case snd q of [] \<Rightarrow> Inr (None, q) | x # xs \<Rightarrow> Inr (Some x, (fst q, xs)))\<rparr>"

definition pool_start :: "'q \<Rightarrow> 'q pool" where
  "pool_start q = \<lparr>queues = [q, q, q], notifications = 0, executed = []\<rparr>"

text \<open>The three queues hold at most as many tasks as fit, and every task was announced once.\<close>

definition pool_ok :: "('q, pool_task) queue_ops \<Rightarrow> ('q \<Rightarrow> pool_task list) \<Rightarrow> 'q pool \<Rightarrow> bool" where
  "pool_ok ops contents p \<longleftrightarrow> length (queues p) = 3 \<and>
     (\<forall>q \<in> set (queues p). q_capacity ops q = queue_size \<and> int (length (contents q)) \<le> queue_size) \<and>
     notifications p = int (sum_list (map (length \<circ> contents) (queues p))) + int (length (executed p))"

section \<open>All queues that keep the laws\<close>

text \<open>
  What the programs rely on, for the elements \<^verbatim>\<open>contents\<close> that a queue holds.
\<close>

locale object_queue =
  fixes ops :: "('q, 'a) queue_ops"
    and contents :: "'q \<Rightarrow> 'a list"
  assumes new_law: "q_capacity ops (q_new ops) = 0" "contents (q_new ops) = []"
    and reallocate_law: "q_reallocate ops n q = Some q' \<Longrightarrow> q_capacity ops q' = n \<and> contents q' = []"
    and length_law: "q_producer_length ops q = int (length (contents q))" "q_consumer_length ops q = int (length (contents q))"
    and clear_law: "contents (q_clear ops q) = []" "q_capacity ops (q_clear ops q) = q_capacity ops q"
    and move_in_law: "int (length (contents q)) < q_capacity ops q \<Longrightarrow>
      contents (q_move_in ops x q) = contents q @ [x] \<and> q_capacity ops (q_move_in ops x q) = q_capacity ops q"
    and move_out_law: "contents q = x # xs \<Longrightarrow> \<not> (held \<and> int (length (contents q)) = q_capacity ops q) \<Longrightarrow>
      \<exists>q'. q_move_out ops held q = Inr (Some x, q') \<and> contents q' = xs \<and> q_capacity ops q' = q_capacity ops q"
    and move_out_empty_law: "contents q = [] \<Longrightarrow> 0 < q_capacity ops q \<Longrightarrow> q_move_out ops held q = Inr (None, q)"

interpretation listed: object_queue listed_queue snd
  by unfold_locales (auto simp: listed_queue_def split: list.splits)

text \<open>Queues of function objects.\<close>

locale function_queue = object_queue ops contents
  for ops :: "('q, fn) queue_ops" and contents :: "'q \<Rightarrow> fn list"
begin

lemma assert_lengths_ok: "int (length (contents q)) = n \<Longrightarrow> assert_lengths ops q n = Inr ()"
  by (simp add: assert_lengths_def length_law)

lemma take_fn_ok:
  assumes "contents q = g # gs" "\<not> (held \<and> int (length (contents q)) = q_capacity ops q)"
  obtains q' where "take_fn ops held q = Inr (g, q')" "contents q' = gs" "q_capacity ops q' = q_capacity ops q"
  using move_out_law [OF assms] by (auto simp: take_fn_def)

lemma pass_around_ok:
  assumes "contents q = [Some f]" "q_capacity ops q = 2"
  shows "\<exists>q'. pass_around ops k (Some f) q out = Inr (Some f, q', out @ replicate k f) \<and> contents q' = [Some f]"
  using assms
proof (induction k arbitrary: q out)
  case (Suc k)
  let ?q1 = "q_move_in ops (Some f) q"
  have q1: "contents ?q1 = [Some f, Some f]" "q_capacity ops ?q1 = 2" using move_in_law [of q "Some f"] Suc.prems by auto
  obtain q2 where q2: "take_fn ops False ?q1 = Inr (Some f, q2)" "contents q2 = [Some f]" "q_capacity ops q2 = 2"
    using take_fn_ok [OF q1(1), of False] q1(2) by auto
  from Suc.IH [OF q2(2,3), of "out @ [f]"] show ?case
    using q1 q2 by (auto simp: assert_lengths_ok call_fn_def Let_def replicate_append_same)
qed simp

lemma objectqueue_main_allocated:
  assumes "q_reallocate ops queue_capacity (q_new ops) = Some q1"
  shows "\<exists>q. objectqueue_main ops f = Inr (q, replicate 5 f) \<and> contents q = [Some f]"
proof -
  have q1: "contents q1 = []" "q_capacity ops q1 = 2" using reallocate_law [OF assms] by (simp_all add: queue_capacity_def)
  let ?q2 = "q_move_in ops (Some f) (q_clear ops (q_clear ops q1))"
  have q2: "contents ?q2 = [Some f]" "q_capacity ops ?q2 = 2"
    using move_in_law [of "q_clear ops (q_clear ops q1)" "Some f"] q1 by (simp_all add: clear_law)
  obtain q3 where q3: "take_fn ops True ?q2 = Inr (Some f, q3)" "contents q3 = []" "q_capacity ops q3 = 2"
    using take_fn_ok [OF q2(1), of True] q2 by auto
  let ?q4 = "q_move_in ops (Some f) q3"
  have q4: "contents ?q4 = [Some f]" "q_capacity ops ?q4 = 2" using move_in_law [of q3 "Some f"] q3 by simp_all
  obtain q5 where "pass_around ops 5 (Some f) ?q4 [] = Inr (Some f, q5, replicate 5 f)" "contents q5 = [Some f]"
    using pass_around_ok [OF q4, of 5 "[]"] by auto
  then show ?thesis
    using assms q1 q2(1) q3 q4(1)
    by (simp add: objectqueue_main_def new_law assert_lengths_ok Let_def queue_capacity_def del: replicate.simps)
qed

lemma objectqueue_main_not_allocated:
  "q_reallocate ops queue_capacity (q_new ops) = None \<Longrightarrow> objectqueue_main ops f = Inl Assertion_failed"
  by (simp add: objectqueue_main_def new_law Let_def queue_capacity_def)

end

interpretation listed_functions: function_queue listed_queue snd
  by unfold_locales

text \<open>Queues of tasks.\<close>

locale task_queue = object_queue ops contents
  for ops :: "('q, pool_task) queue_ops" and contents :: "'q \<Rightarrow> pool_task list"
begin

lemma add_tasks_ok:
  assumes "int (length (contents q)) + int (length is) \<le> q_capacity ops q"
  shows "contents (add_tasks ops nr is q) = contents q @ map (\<lambda>i. (i, nr)) is \<and> q_capacity ops (add_tasks ops nr is q) = q_capacity ops q"
  using assms
proof (induction "is" arbitrary: q)
  case (Cons i "is")
  then show ?case using move_in_law [of q "(i, nr)"] Cons.IH [of "q_move_in ops (i, nr) q"] by simp
qed simp

lemma callback_ok:
  assumes ok: "pool_ok ops contents p" and c: "c \<in> set callbacks"
  shows "\<exists>q q'. m_queue_handle c < 3 \<and> q = queues p ! m_queue_handle c \<and>
    callback ops c (queues p) = Inr ((queues p)[m_queue_handle c := q'], added_tasks (m_nr c) (int (length (contents q)))) \<and>
    contents q' = contents q @ map (\<lambda>i. (i, m_nr c)) [0..added_tasks (m_nr c) (int (length (contents q))) - 1] \<and>
    q_capacity ops q' = queue_size \<and> int (length (contents q')) \<le> queue_size"
proof -
  let ?h = "m_queue_handle c" let ?q = "queues p ! ?h"
  let ?n = "added_tasks (m_nr c) (int (length (contents ?q)))"
  let ?q' = "add_tasks ops (m_nr c) [0..?n - 1] ?q"
  have h: "?h < 3" "0 \<le> m_nr c" using c by (auto simp: callbacks_def)
  with ok have q: "q_capacity ops ?q = queue_size" "int (length (contents ?q)) \<le> queue_size" "?h < length (queues p)"
    by (auto simp: pool_ok_def)
  have n: "0 \<le> ?n" "int (length (contents ?q)) + ?n \<le> queue_size" using q(2) h(2) by (auto simp: added_tasks_def)
  have "contents ?q' = contents ?q @ map (\<lambda>i. (i, m_nr c)) [0..?n - 1] \<and> q_capacity ops ?q' = queue_size"
    using add_tasks_ok [of ?q "[0..?n - 1]" "m_nr c"] q n by simp
  moreover have "callback ops c (queues p) = Inr ((queues p)[?h := ?q'], ?n)"
    using q(3) by (simp add: callback_def get_at_def set_at_def Let_def length_law for_values_upto)
  ultimately show ?thesis using h(1) n q by fastforce
qed

lemma pool_ok_update:
  assumes "pool_ok ops contents p" "h < 3" "q_capacity ops q' = queue_size" "int (length (contents q')) \<le> queue_size"
    and "notifications p' - notifications p = int (length (contents q')) - int (length (contents (queues p ! h))) + d"
    and "queues p' = (queues p)[h := q']" "int (length (executed p')) = int (length (executed p)) + d"
  shows "pool_ok ops contents p'"
proof -
  have len: "length (queues p) = 3" using assms(1) by (simp add: pool_ok_def)
  then have "length (contents (queues p ! h)) \<le> sum_list (map (length \<circ> contents) (queues p))"
    using member_le_sum_list [of "length (contents (queues p ! h))" "map (length \<circ> contents) (queues p)"] assms(2) by auto
  moreover have "sum_list (map (length \<circ> contents) ((queues p)[h := q'])) =
      sum_list (map (length \<circ> contents) (queues p)) + length (contents q') - length (contents (queues p ! h))"
    using sum_list_update [of h "map (length \<circ> contents) (queues p)" "length (contents q')"] len assms(2)
    by (simp add: map_update)
  ultimately show ?thesis
    using assms len set_update_subset_insert [of "queues p" h q'] by (auto simp: pool_ok_def)
qed

lemma pool_step_ok:
  assumes "pool_ok ops contents p" "pool_step ops p p'"
  shows "pool_ok ops contents p'"
  using assms(2)
proof cases
  case (timer_expires c qs n)
  then obtain q' where "m_queue_handle c < 3" "qs = (queues p)[m_queue_handle c := q']" "q_capacity ops q' = queue_size"
    "int (length (contents q')) \<le> queue_size" "n = added_tasks (m_nr c) (int (length (contents (queues p ! m_queue_handle c))))"
    "contents q' = contents (queues p ! m_queue_handle c) @ map (\<lambda>i. (i, m_nr c)) [0..n - 1]"
    using callback_ok [OF assms(1), of c] by auto
  moreover have "0 \<le> n" using calculation(5) timer_expires(2) by (auto simp: added_tasks_def callbacks_def)
  ultimately show ?thesis using pool_ok_update [OF assms(1), of "m_queue_handle c" q' p' 0] timer_expires(1) by simp
next
  case (worker_takes h t q')
  have h: "h < 3" "q_capacity ops (queues p ! h) = queue_size" "int (length (contents (queues p ! h))) \<le> queue_size"
    using assms(1) worker_takes(2) by (auto simp: pool_ok_def)
  obtain xs where "contents (queues p ! h) = t # xs" "contents q' = xs" "q_capacity ops q' = queue_size"
  proof (cases "contents (queues p ! h)")
    case Nil
    then show ?thesis using move_out_empty_law [OF Nil, of False] worker_takes(3) h(2) by (simp add: queue_size_def)
  next
    case (Cons x xs)
    then show ?thesis using move_out_law [OF Cons, of False] worker_takes(3) h(2) that by auto
  qed
  then show ?thesis using pool_ok_update [OF assms(1) h(1), of q' p' 1] worker_takes(1) h(3) by simp
qed

end

interpretation listed_tasks: task_queue listed_queue snd
  by unfold_locales

text \<open>A thread pool whose three queues start empty.\<close>

locale timer_pool = task_queue +
  fixes q
  assumes start_empty: "contents q = []" "q_capacity ops q = queue_size"

sublocale timer_pool \<subseteq> at_work: inductive_invariant "\<lambda>p. p = pool_start q" "pool_step ops" "pool_ok ops contents"
proof
  show "pool_ok ops contents p" if "p = pool_start q" for p
    using that start_empty by (simp add: pool_ok_def pool_start_def queue_size_def)
qed (rule pool_step_ok)

context timer_pool
begin

lemma timer_callbacks:
  assumes "reach (\<lambda>p. p = pool_start q) (pool_step ops) p" "c \<in> set callbacks"
  defines "len \<equiv> int (length (contents (queues p ! m_queue_handle c)))"
  defines "n \<equiv> min (queue_size - len) (10 * (m_nr c + 1))"
  shows "pool_ok ops contents p \<and> (\<exists>qs. callback ops c (queues p) = Inr (qs, n) \<and>
    contents (qs ! m_queue_handle c) = contents (queues p ! m_queue_handle c) @ map (\<lambda>i. (i, m_nr c)) [0..n - 1])"
proof -
  have ok: "pool_ok ops contents p" by (rule at_work.inv_reach [OF assms(1)])
  have h: "m_queue_handle c < length (queues p)" "len \<le> queue_size" "0 \<le> m_nr c"
    using ok assms(2) by (auto simp: pool_ok_def len_def callbacks_def)
  then have "added_tasks (m_nr c) len = n" by (auto simp: added_tasks_def n_def)
  then show ?thesis using callback_ok [OF ok assms(2)] ok h(1) by (auto simp: len_def)
qed

end

interpretation listed_pool: timer_pool listed_queue snd "(32, [])"
  by unfold_locales (simp_all add: listed_queue_def queue_size_def)

text \<open>
  With every queue that keeps the laws, \<^verbatim>\<open>main\<close> of objectqueue.cxx runs through without a failing
  assertion when the buffer can be allocated: it calls the bound function exactly five times and leaves
  it in the queue once. When the allocation fails, the exception is caught but the next assertion fails.
\<close>

theorem objectqueue_main_runs:
  assumes "object_queue ops contents"
  shows "case q_reallocate ops queue_capacity (q_new ops) of
      None \<Rightarrow> objectqueue_main ops f = Inl Assertion_failed
    | Some q1 \<Rightarrow> \<exists>q. objectqueue_main ops f = Inr (q, replicate 5 f) \<and> contents q = [Some f]"
  using function_queue.objectqueue_main_allocated [OF function_queue.intro [OF assms]]
    function_queue.objectqueue_main_not_allocated [OF function_queue.intro [OF assms]]
  by (auto split: option.split)

theorem objectqueue_main_runs_witness:
  "\<exists>q. objectqueue_main listed_queue ''f(Big)'' = Inr (q, replicate 5 ''f(Big)'') \<and> snd q = [Some ''f(Big)'']"
  using objectqueue_main_runs [OF listed.object_queue_axioms, of "''f(Big)''"] by (simp add: listed_queue_def)

text \<open>What the program writes with the argument that it binds.\<close>

theorem objectqueue_program_output:
  assumes "object_queue ops contents" "q_reallocate ops queue_capacity (q_new ops) \<noteq> None"
  shows "\<exists>q. objectqueue_program ops = Inr (q, replicate 5 ''Calling f(\"Big\")!'')"
  using function_queue.objectqueue_main_allocated [OF function_queue.intro [OF assms(1)], of _ "f_line Big"] assms(2)
  by (auto simp: objectqueue_program_def f_line_def Big_def)

text \<open>
  C27. With every queue that keeps the laws, whatever the timers and the worker threads did before: a
  call-back of a timer appends as many tasks as its number asks for and fit into its queue, in order,
  and calls \<^verbatim>\<open>notify_one\<close> once for each; no queue gets more than 32 tasks, and there were as many notifications
  as there are tasks waiting or executed.
\<close>

theorem timer_callbacks_fill_queues:
  assumes "object_queue ops contents" "contents q = []" "q_capacity ops q = queue_size"
    and "reach (\<lambda>p. p = pool_start q) (pool_step ops) p" "c \<in> set callbacks"
    and "len = int (length (contents (queues p ! m_queue_handle c)))" "n = min (queue_size - len) (10 * (m_nr c + 1))"
  shows "pool_ok ops contents p \<and> (\<exists>qs. callback ops c (queues p) = Inr (qs, n) \<and>
    contents (qs ! m_queue_handle c) = contents (queues p ! m_queue_handle c) @ map (\<lambda>i. (i, m_nr c)) [0..n - 1])"
proof -
  have "timer_pool ops contents q"
    using assms(1-3) by (intro timer_pool.intro task_queue.intro timer_pool_axioms.intro)
  from timer_pool.timer_callbacks [OF this assms(4,5)] show ?thesis unfolding assms(6,7) .
qed

theorem timer_callbacks_fill_queues_witness:
  "\<exists>qs. callback listed_queue (callbacks ! 3) [(32, []), (32, []), (32, [])] = Inr (qs, 32) \<and>
     snd (qs ! 0) = map (\<lambda>i. (i, 3)) [0..31]"
proof -
  have "reach (\<lambda>p. p = pool_start (32, [])) (pool_step listed_queue) (pool_start (32, []))"
    by (rule reach.reach_init) (rule refl)
  from timer_callbacks_fill_queues [OF listed.object_queue_axioms _ _ this, of "callbacks ! 3", OF _ _ _ refl refl]
  show ?thesis by (simp add: pool_start_def listed_queue_def callbacks_def queue_size_def)
qed

end
