(* ===== verification/Pool_Load.thy ===== *)
theory Pool_Load
  imports Prelude
begin

text \<open>
  The program \<^verbatim>\<open>src/threadpool.cxx\<close>, which adds a million tasks to a queue while worker threads
  execute them. Every fifth execution asks for the task to be executed again. The program prints
  how many executions there were and how many it expected. The pace of the main thread, a
  floating-point computation, is any interleaving here.
\<close>

section \<open>The program\<close>

definition capacity :: int where
  "capacity = 1300"

definition loop_size :: int where
  "loop_size = 1000000"

definition modulo :: int where
  "modulo = 5"

text \<open>
  The loop variable, the length of the queue, the tasks that worker threads have taken, and the
  three atomic counters.
\<close>

record load =
  n :: int
  len :: int
  taken :: int
  count_runs :: int
  empty :: int
  full :: int

definition new_load :: load where
  "new_load = \<lparr>n = 0, len = 0, taken = 0, count_runs = 0, empty = 0, full = 0\<rparr>"

text \<open>One iteration of the loop of \<^verbatim>\<open>main\<close>.\<close>

definition produce :: "load \<Rightarrow> load" where
  "produce s =
     (let length = len s;
          s1 = (if length < capacity then s\<lparr>len := length + 1\<rparr> else s);
          s2 = (if length = capacity then s1\<lparr>full := full s1 + 1\<rparr> else s1);
          s3 = (if length = 0 then s2\<lparr>empty := empty s2 + 1\<rparr> else s2)
      in s3\<lparr>n := n s3 + 1\<rparr>)"

text \<open>
  The task: it counts its execution and returns whether it wants to be executed again.
\<close>

definition task_body :: "load \<Rightarrow> load \<times> bool" where
  "task_body s = (let c = count_runs s in (s\<lparr>count_runs := c + 1\<rparr>, c_mod c modulo = 0))"

text \<open>
  A worker thread executes a task that it has taken: a task that returns true stays with the pool,
  any other is done.
\<close>

definition execute :: "load \<Rightarrow> load" where
  "execute s = (case task_body s of (s1, again) \<Rightarrow> if again then s1 else s1\<lparr>taken := taken s1 - 1\<rparr>)"

inductive load_step :: "load \<Rightarrow> load \<Rightarrow> bool" where
  produces: "n s < loop_size \<Longrightarrow> load_step s (produce s)"
| takes: "0 < len s \<Longrightarrow> load_step s (s\<lparr>len := len s - 1, taken := taken s + 1\<rparr>)"
| executes: "0 < taken s \<Longrightarrow> load_step s (execute s)"
| puts_back: "0 < taken s \<Longrightarrow> len s < capacity \<Longrightarrow> load_step s (s\<lparr>len := len s + 1, taken := taken s - 1\<rparr>)"

text \<open>What \<^verbatim>\<open>main\<close> prints as expected.\<close>

definition expected :: "load \<Rightarrow> int" where
  "expected s = c_div ((loop_size - full s) * modulo) (modulo - 1)"

section \<open>The count\<close>

text \<open>
  Every execution that is not one of each fifth ends a task, and as long as the last execution was one
  of them, a task is pending.
\<close>

definition load_ok :: "load \<Rightarrow> bool" where
  "load_ok s \<longleftrightarrow> 0 \<le> len s \<and> len s \<le> capacity \<and> 0 \<le> taken s \<and> 0 \<le> count_runs s \<and> n s \<le> loop_size \<and> 0 \<le> full s \<and>
     n s - full s = len s + taken s + (count_runs s - (count_runs s + 4) div 5) \<and>
     (count_runs s mod 5 = 1 \<longrightarrow> 0 < len s + taken s)"

lemma execute_ok:
  assumes "load_ok s" "0 < taken s"
  shows "load_ok (execute s)"
proof -
  have "(count_runs s + 1 + 4) div 5 = (count_runs s + 4) div 5 + (if count_runs s mod 5 = 0 then 1 else 0)"
    by presburger
  moreover have "(count_runs s + 1) mod 5 = 1 \<longleftrightarrow> count_runs s mod 5 = 0" by presburger
  ultimately show ?thesis
    using assms by (auto simp: load_ok_def execute_def task_body_def modulo_def Let_def)
qed

interpretation load: inductive_invariant "\<lambda>s. s = new_load" load_step load_ok
proof
  show "load_ok s" if "s = new_load" for s using that by (simp add: load_ok_def new_load_def capacity_def loop_size_def)
  show "load_ok s'" if ok: "load_ok s" and step: "load_step s s'" for s s'
    using step
  proof cases
    case executes
    then show ?thesis using execute_ok [OF ok] by simp
  qed (use ok in \<open>auto simp: load_ok_def produce_def Let_def\<close>)
qed

lemma runs_of_tasks:
  fixes c :: int
  assumes "N = c - (c + 4) div 5" "c mod 5 \<noteq> 1"
  shows "c = N + (N + 3) div 4"
proof -
  define a b where "a = c div 5" and "b = c mod 5"
  then have c: "c = b + 5 * a" "0 \<le> b" "b < 5" "b \<noteq> 1" using assms(2) by auto
  have d: "(c + 4) div 5 = (b + 4) div 5 + a" using div_mult_self1 [of 5 "b + 4" a] by (simp add: c(1) algebra_simps)
  from c consider "b = 0" | "b = 2" | "b = 3" | "b = 4" by linarith
  then have "\<exists>k. N = 4 * a + k \<and> (k = 0 \<and> b = 0 \<or> k + 1 = b \<and> 1 \<le> k \<and> k \<le> 3)"
    unfolding assms(1) d c(1) by cases auto
  then obtain k where k: "N = k + 4 * a" "k = 0 \<and> b = 0 \<or> k + 1 = b \<and> 1 \<le> k \<and> k \<le> 3" by auto
  have "(N + 3) div 4 = (k + 3) div 4 + a" using div_mult_self1 [of 4 "k + 3" a] by (simp add: k(1) algebra_simps)
  moreover have "(k + 3) div 4 = (if k = 0 then 0 else 1)" using k(2) by auto
  ultimately show ?thesis using k c(1) by auto
qed

lemma quarter:
  fixes N :: int
  shows "N * 5 div 4 = N + N div 4" "(N + 3) div 4 = (if N mod 4 = 0 then N div 4 else N div 4 + 1)"
proof -
  show "N * 5 div 4 = N + N div 4" using div_mult_self1 [of 4 N N] by (simp add: algebra_simps)
  define a r where "a = N div 4" and "r = N mod 4"
  then have N: "N = r + 4 * a" "0 \<le> r" "r < 4" by auto
  have "(N + 3) div 4 = (r + 3) div 4 + a" using div_mult_self1 [of 4 "r + 3" a] by (simp add: N(1) algebra_simps)
  moreover have "(r + 3) div 4 = (if r = 0 then 0 else 1)" using N(2,3) by auto
  ultimately show "(N + 3) div 4 = (if N mod 4 = 0 then N div 4 else N div 4 + 1)" by (simp add: a_def r_def)
qed

lemma counted_runs:
  assumes ok: "load_ok s" and "n s = loop_size" "len s = 0" "taken s = 0"
  shows "count_runs s = (loop_size - full s) + (loop_size - full s + 3) div 4 \<and>
    expected s = (if (loop_size - full s) mod 4 = 0 then count_runs s else count_runs s - 1)"
proof -
  let ?N = "loop_size - full s"
  have N: "?N = count_runs s - (count_runs s + 4) div 5" "count_runs s mod 5 \<noteq> 1" "0 \<le> count_runs s" "0 \<le> ?N"
    using ok assms(2-) by (auto simp: load_ok_def)
  have "count_runs s = ?N + (?N + 3) div 4" by (rule runs_of_tasks [OF N(1,2)])
  moreover have "expected s = ?N * 5 div 4" using N(4) by (simp add: expected_def modulo_def)
  ultimately show ?thesis unfolding quarter by auto
qed

text \<open>When all tasks have been executed, the number of executions is the number of tasks that were
  added plus a quarter of it, rounded up, in whatever order the worker threads executed them. The
  number that the program prints as expected is rounded down: it is the same exactly when the number
  of added tasks is a multiple of four, and one too small otherwise.\<close>

theorem executions_counted:
  assumes "reach (\<lambda>s. s = new_load) load_step s" "n s = loop_size" "len s = 0" "taken s = 0"
  shows "count_runs s = (loop_size - full s) + (loop_size - full s + 3) div 4 \<and>
    expected s = (if (loop_size - full s) mod 4 = 0 then count_runs s else count_runs s - 1)"
  by (rule counted_runs [OF load.inv_reach [OF assms(1)] assms(2-)])

lemma all_executed_at_once:
  assumes "int k \<le> loop_size"
  shows "\<exists>s. reach (\<lambda>s. s = new_load) load_step s \<and> n s = int k \<and> len s = 0 \<and> taken s = 0 \<and> full s = 0"
  using assms
proof (induction k)
  case 0
  have "reach (\<lambda>s. s = new_load) load_step new_load" by (rule reach.reach_init) (rule refl)
  moreover have "n new_load = int 0" "len new_load = 0" "taken new_load = 0" "full new_load = 0" by (simp_all add: new_load_def)
  ultimately show ?case by blast
next
  case (Suc k)
  then obtain s where s: "reach (\<lambda>s. s = new_load) load_step s" "n s = int k" "len s = 0" "taken s = 0" "full s = 0"
    by auto
  let ?p = "produce s" let ?t = "?p\<lparr>len := len ?p - 1, taken := taken ?p + 1\<rparr>"
  have p: "n ?p = int (Suc k)" "len ?p = 1" "taken ?p = 0" "full ?p = 0"
    using s by (simp_all add: produce_def Let_def capacity_def)
  have "load_step s ?p" using s(2) Suc.prems by (intro load_step.produces) simp
  moreover have "load_step ?p ?t" using p by (intro load_step.takes) simp
  moreover have "load_step ?t (execute ?t)" using p by (intro load_step.executes) simp
  ultimately have e: "reach (\<lambda>s. s = new_load) load_step (execute ?t)"
    using s(1) by (blast intro: reach.reach_step)
  show ?case
  proof (cases "c_mod (count_runs ?t) modulo = 0")
    case False
    then have "n (execute ?t) = int (Suc k) \<and> len (execute ?t) = 0 \<and> taken (execute ?t) = 0 \<and> full (execute ?t) = 0"
      using p by (simp add: execute_def task_body_def Let_def)
    with e show ?thesis by blast
  next
    case True
    let ?e = "execute ?t"
    have r: "0 \<le> count_runs ?t" using load.inv_reach [OF s(1)] by (simp add: load_ok_def produce_def Let_def)
    have e1: "count_runs ?e = count_runs ?t + 1" "n ?e = int (Suc k)" "len ?e = 0" "taken ?e = 1" "full ?e = 0"
      using True p by (simp_all add: execute_def task_body_def Let_def)
    have "(count_runs ?t + 1) mod 5 \<noteq> 0" using True r by (simp add: modulo_def) presburger
    then have "n (execute ?e) = int (Suc k) \<and> len (execute ?e) = 0 \<and> taken (execute ?e) = 0 \<and> full (execute ?e) = 0"
      using e1 r by (simp add: execute_def [of ?e] task_body_def Let_def modulo_def)
    moreover have "load_step ?e (execute ?e)" using e1(4) by (intro load_step.executes) simp
    ultimately show ?thesis using e by (blast intro: reach.reach_step)
  qed
qed

theorem executions_counted_witness:
  "\<exists>s. n s = loop_size \<and> count_runs s = 1250000 \<and> expected s = 1250000"
proof -
  obtain s where s: "reach (\<lambda>s. s = new_load) load_step s" "n s = loop_size" "len s = 0" "taken s = 0" "full s = 0"
    using all_executed_at_once [of "nat loop_size"] by (auto simp: loop_size_def)
  from executions_counted [OF s(1-4)] s(2,5) show ?thesis by (intro exI [of _ s]) (simp add: loop_size_def)
qed

end
