(* ===== verification/Pool_Close.thy ===== *)
theory Pool_Close
  imports Pool_Load
begin

text \<open>
  The end of \<^verbatim>\<open>main\<close> of \<^verbatim>\<open>src/threadpool.cxx\<close>: after its loop it adds a last task, which opens a gate, waits for that
  gate and prints how many executions there were.
\<close>

section \<open>The last task\<close>

text \<open>Where the last task is; in the queue it has a number of tasks ahead of it.\<close>

datatype last_task = Not_added | Queued int | Taken | Executed

record closing =
  work :: load
  last_task :: last_task
  passed :: bool

definition new_closing :: closing where
  "new_closing = \<lparr>work = new_load, last_task = Not_added, passed = False\<rparr>"

text \<open>A turn of the loop that adds the last task: it is left when the queue was not full.\<close>

definition closing_turn :: "closing \<Rightarrow> closing \<times> bool" where
  "closing_turn s =
     (let length = len (work s) in
      (if length < capacity then s\<lparr>last_task := Queued length\<rparr> else s, length = capacity))"

text \<open>
  The queue is first in, first out. A task that is to be executed again may be put back behind the last task.
\<close>

definition take_task :: "closing \<Rightarrow> closing option" where
  "take_task s =
     (let w = work s; w1 = w\<lparr>len := len w - 1, taken := taken w + 1\<rparr> in
      case last_task s of
        Queued a \<Rightarrow> Some (if a = 0 then s\<lparr>last_task := Taken\<rparr> else s\<lparr>work := w1, last_task := Queued (a - 1)\<rparr>)
      | _ \<Rightarrow> if 0 < len w then Some (s\<lparr>work := w1\<rparr>) else None)"

inductive closing_step :: "closing \<Rightarrow> closing \<Rightarrow> bool" where
  adds_task: "last_task s = Not_added \<Longrightarrow> n (work s) < loop_size \<Longrightarrow> closing_step s (s\<lparr>work := produce (work s)\<rparr>)"
| adds_last: "last_task s = Not_added \<Longrightarrow> n (work s) = loop_size \<Longrightarrow> closing_turn s = (s', False) \<Longrightarrow> closing_step s s'"
| takes_task: "take_task s = Some s' \<Longrightarrow> closing_step s s'"
| executes_task: "0 < taken (work s) \<Longrightarrow> closing_step s (s\<lparr>work := execute (work s)\<rparr>)"
| puts_task_back: "0 < taken (work s) \<Longrightarrow> len (work s) + (case last_task s of Queued _ \<Rightarrow> 1 | _ \<Rightarrow> 0) < capacity \<Longrightarrow>
    closing_step s (s\<lparr>work := (work s)\<lparr>len := len (work s) + 1, taken := taken (work s) - 1\<rparr>\<rparr>)"
| opens_gate: "last_task s = Taken \<Longrightarrow> closing_step s (s\<lparr>last_task := Executed\<rparr>)"
| passes_gate: "last_task s = Executed \<Longrightarrow> closing_step s (s\<lparr>passed := True\<rparr>)"

section \<open>The invariant\<close>

definition closing_ok :: "closing \<Rightarrow> bool" where
  "closing_ok s \<longleftrightarrow> load_ok (work s) \<and> (last_task s \<noteq> Not_added \<longrightarrow> n (work s) = loop_size) \<and>
     (case last_task s of Queued a \<Rightarrow> 0 \<le> a \<and> a \<le> len (work s) | _ \<Rightarrow> True) \<and> (passed s \<longrightarrow> last_task s = Executed)"

lemma load_steps_ok:
  assumes "load_ok w"
  shows "n w < loop_size \<Longrightarrow> load_ok (produce w)"
    "0 < len w \<Longrightarrow> load_ok (w\<lparr>len := len w - 1, taken := taken w + 1\<rparr>)"
    "0 < taken w \<Longrightarrow> len w < capacity \<Longrightarrow> load_ok (w\<lparr>len := len w + 1, taken := taken w - 1\<rparr>)"
  using load.inv_step [OF assms] load_step.intros by blast+

lemma execute_same: "n (execute w) = n w" "len (execute w) = len w" "full (execute w) = full w"
  by (simp_all add: execute_def task_body_def Let_def)

interpretation closing: inductive_invariant "\<lambda>s. s = new_closing" closing_step closing_ok
proof
  show "closing_ok s" if "s = new_closing" for s
    using that load.inv_init by (simp add: closing_ok_def new_closing_def)
  fix s t assume ok: "closing_ok s" and "closing_step s t"
  then have w: "load_ok (work s)" by (simp add: closing_ok_def)
  from \<open>closing_step s t\<close> show "closing_ok t"
  proof cases
    case takes_task
    then show ?thesis using ok load_steps_ok(2) [OF w]
      by (auto simp: closing_ok_def take_task_def Let_def split: last_task.splits if_splits)
  next
    case executes_task
    then show ?thesis using ok execute_ok [OF w] by (auto simp: closing_ok_def execute_same split: last_task.splits)
  next
    case puts_task_back
    then show ?thesis using ok load_steps_ok(3) [OF w] by (auto simp: closing_ok_def split: last_task.splits)
  next
    case adds_last
    then show ?thesis using ok by (auto simp: closing_ok_def closing_turn_def Let_def load_ok_def split: if_splits)
  qed (use ok load_steps_ok(1) [OF w] in \<open>auto simp: closing_ok_def produce_def Let_def\<close>)
qed

lemma filling_reach:
  assumes "reach (\<lambda>s. s = new_load) load_step w"
  shows "reach (\<lambda>s. s = new_closing) closing_step \<lparr>work = w, last_task = Not_added, passed = False\<rparr>"
  using assms
proof (induction rule: reach.induct)
  case (reach_init w)
  then show ?case by (intro reach.reach_init) (simp add: new_closing_def)
next
  case (reach_step w w')
  let ?s = "\<lparr>work = w, last_task = Not_added, passed = False\<rparr>"
  from reach_step.hyps(2) have "closing_step ?s \<lparr>work = w', last_task = Not_added, passed = False\<rparr>"
  proof cases
    case produces
    then show ?thesis using adds_task [of ?s] by simp
  next
    case takes
    then show ?thesis using takes_task [of ?s] by (simp add: take_task_def Let_def)
  next
    case executes
    then show ?thesis using executes_task [of ?s] by simp
  next
    case puts_back
    then show ?thesis using puts_task_back [of ?s] by simp
  qed
  then show ?case by (rule reach.reach_step [OF reach_step.IH])
qed

text \<open>With an empty queue main can add the last task, and a worker thread that is idle executes it at once.\<close>

lemma gate_reach:
  assumes "reach (\<lambda>s. s = new_load) load_step w" "n w = loop_size" "len w = 0"
  shows "reach (\<lambda>s. s = new_closing) closing_step \<lparr>work = w, last_task = Executed, passed = True\<rparr>"
proof -
  let ?R = "reach (\<lambda>s. s = new_closing) closing_step" and ?s = "\<lambda>l p. \<lparr>work = w, last_task = l, passed = p\<rparr>"
  have "?R (?s Not_added False)" by (rule filling_reach [OF assms(1)])
  moreover have "closing_step (?s Not_added False) (?s (Queued 0) False)"
    using assms by (intro adds_last) (simp_all add: closing_turn_def capacity_def)
  moreover have "closing_step (?s (Queued 0) False) (?s Taken False)" by (rule takes_task) (simp add: take_task_def)
  moreover have "closing_step (?s Taken False) (?s Executed False)" using opens_gate [of "?s Taken False"] by simp
  moreover have "closing_step (?s Executed False) (?s Executed True)" using passes_gate [of "?s Executed False"] by simp
  ultimately show ?thesis by (blast intro: reach.reach_step)
qed

section \<open>Properties\<close>

text \<open>
  C26. What main prints when the gate has opened: whatever the order in which the worker threads took and executed
  the tasks, the executions so far account for all tasks that were added but those that are still pending,
  in the queue or with a worker thread. When none is pending, the number is that of the added tasks
  plus a quarter of it, rounded up, while the number that the program prints as expected is rounded down:
  it is one too small unless the number of added tasks is a multiple of four.
\<close>

theorem executions_at_gate:
  assumes "reach (\<lambda>s. s = new_closing) closing_step s" "passed s"
  shows "let w = work s; added = loop_size - full w; pending = len w + taken w in
    0 \<le> pending \<and> count_runs w - (count_runs w + 4) div 5 = added - pending \<and>
    (pending = 0 \<longrightarrow> count_runs w = added + (added + 3) div 4 \<and>
       expected w = (if added mod 4 = 0 then count_runs w else count_runs w - 1))"
proof -
  have ok: "closing_ok s" by (rule closing.inv_reach [OF assms(1)])
  then have w: "load_ok (work s)" "n (work s) = loop_size" using assms(2) by (auto simp: closing_ok_def)
  have "count_runs (work s) - (count_runs (work s) + 4) div 5 = loop_size - full (work s) - (len (work s) + taken (work s))"
    "0 \<le> len (work s) + taken (work s)" "len (work s) + taken (work s) = 0 \<longrightarrow> len (work s) = 0 \<and> taken (work s) = 0"
    using w by (auto simp: load_ok_def)
  then show ?thesis using counted_runs [OF w] by (simp add: Let_def)
qed

text \<open>Every task was executed before the next one was added.\<close>

theorem executions_at_gate_witness:
  "\<exists>s :: closing. passed s \<and> count_runs (work s) = 1250000 \<and> expected (work s) = 1250000"
proof -
  obtain w where w: "reach (\<lambda>s. s = new_load) load_step w" "n w = loop_size" "len w = 0" "taken w = 0" "full w = 0"
    using all_executed_at_once [of "nat loop_size"] by (auto simp: loop_size_def)
  let ?s = "\<lparr>work = w, last_task = Executed, passed = True\<rparr>"
  have "count_runs w = 1250000 \<and> expected w = 1250000"
    using executions_at_gate [OF gate_reach [OF w(1-3)]] w by (simp add: loop_size_def Let_def)
  then show ?thesis by (intro exI [of _ ?s]) simp
qed

text \<open>
  The gate does not wait for the queue to be entirely processed, as the comment says: the last task can be
  executed while another worker thread has taken a task and not yet executed it.
\<close>

theorem gate_opens_early:
  "\<exists>s. reach (\<lambda>s. s = new_closing) closing_step s \<and> passed s \<and> taken (work s) = 1"
proof -
  obtain w where w: "reach (\<lambda>s. s = new_load) load_step w" "n w = loop_size - 1" "len w = 0" "taken w = 0"
    using all_executed_at_once [of "nat (loop_size - 1)"] by (auto simp: loop_size_def)
  let ?p = "produce w" let ?t = "?p\<lparr>len := len ?p - 1, taken := taken ?p + 1\<rparr>"
  have p: "n ?p = loop_size" "len ?p = 1" "taken ?p = 0" using w by (simp_all add: produce_def Let_def capacity_def)
  have "load_step w ?p" using w(2) by (intro load_step.produces) simp
  moreover have "load_step ?p ?t" using p by (intro load_step.takes) simp
  ultimately have t: "reach (\<lambda>s. s = new_load) load_step ?t" using w(1) by (blast intro: reach.reach_step)
  from gate_reach [OF t] p show ?thesis by auto
qed

end
