(* ===== verification/Mutex_Benchmark.thy ===== *)
theory Mutex_Benchmark
  imports Prelude
begin

text \<open>
  The program \<^verbatim>\<open>src/mutex_benchmark.cxx\<close>: four threads wait for a condition variable, spin on an
  atomic flag and then lock a mutex in a loop, while \<^verbatim>\<open>main\<close> starts them and joins them. One run
  of the loop of \<^verbatim>\<open>main\<close> is modelled under every scheduling, with spurious wake-ups; sleeping takes
  any time.
\<close>

section \<open>State\<close>

definition number_of_threads :: int where
  "number_of_threads = 4"

definition skip_cores :: int where
  "skip_cores = 2"

text \<open>
  Where a thread is: before it waits, in \<^verbatim>\<open>cv.wait\<close>, in the loop of \<^verbatim>\<open>test_and_set\<close>, before locking or
  holding the mutex in an iteration of its loop, or at its end.
\<close>

datatype bench_pc = Created | Waiting | Spinning | Looping int | Locked int | Finished

datatype bench_main = Starting int | Notify | Clear | Joining int | Joined

record bench =
  threads :: "int \<Rightarrow> bench_pc option"
  main :: bench_main
  block :: bool
  m_owner :: "int option"
  results :: "int list"

definition new_bench :: bench where
  "new_bench = \<lparr>threads = (\<lambda>_. None), main = Starting 0, block = True, m_owner = None,
     results = replicate (nat number_of_threads) (-1)\<rparr>"

section \<open>Steps\<close>

text \<open>
  \<^verbatim>\<open>main\<close> starts the threads; thread number \<^verbatim>\<open>k\<close> runs on core \<^verbatim>\<open>k * skip_cores\<close>.
\<close>

definition main_step :: "bench \<Rightarrow> bench option" where
  "main_step s =
     (case main s of
        Starting k \<Rightarrow>
          if k < number_of_threads then
            Some (s\<lparr>threads := (threads s)(k * skip_cores := Some Created), main := Starting (k + 1)\<rparr>)
          else Some (s\<lparr>main := Notify\<rparr>)
      | Notify \<Rightarrow>
          Some (s\<lparr>threads := (\<lambda>cpu. if threads s cpu = Some Waiting then Some Spinning else threads s cpu), main := Clear\<rparr>)
      | Clear \<Rightarrow> Some (s\<lparr>block := False, main := Joining 0\<rparr>)
      | Joining k \<Rightarrow>
          if k < number_of_threads then
            (if threads s (k * skip_cores) = Some Finished then Some (s\<lparr>main := Joining (k + 1)\<rparr>) else None)
          else Some (s\<lparr>main := Joined\<rparr>)
      | Joined \<Rightarrow> None)"

definition set_pc :: "int \<Rightarrow> bench_pc \<Rightarrow> bench \<Rightarrow> bench" where
  "set_pc cpu p s = s\<lparr>threads := (threads s)(cpu := Some p)\<rparr>"

text \<open>
  A step of \<^verbatim>\<open>thread_main\<close>. The return from \<^verbatim>\<open>cv.wait\<close> without a notification is the step from
  \<^const>\<open>Waiting\<close>.
\<close>

definition thread_step :: "int \<Rightarrow> bench \<Rightarrow> bench option result" where
  "thread_step cpu s =
     (case threads s cpu of
        None \<Rightarrow> Inr None
      | Some Created \<Rightarrow> Inr (Some (set_pc cpu Waiting s))
      | Some Waiting \<Rightarrow> Inr (Some (set_pc cpu Spinning s))
      | Some Spinning \<Rightarrow>
          Inr (Some (if block s then s else set_pc cpu (Looping 0) (s\<lparr>block := True\<rparr>)))
      | Some (Looping i) \<Rightarrow>
          if i < c_div 240000 number_of_threads then
            (if m_owner s = None then Inr (Some (set_pc cpu (Locked i) (s\<lparr>m_owner := Some cpu\<rparr>))) else Inr None)
          else
            bindE (set_at (results s) (c_div cpu skip_cores) cpu) (\<lambda>r.
              Inr (Some (set_pc cpu Finished (s\<lparr>results := r\<rparr>))))
      | Some (Locked i) \<Rightarrow> Inr (Some (set_pc cpu (Looping (i + 1)) (s\<lparr>m_owner := None\<rparr>)))
      | Some Finished \<Rightarrow> Inr None)"

inductive bench_step :: "bench \<Rightarrow> bench \<Rightarrow> bool" where
  main_steps: "main_step s = Some s' \<Longrightarrow> bench_step s s'"
| thread_steps: "thread_step cpu s = Inr (Some s') \<Longrightarrow> bench_step s s'"

text \<open>A schedule: \<^verbatim>\<open>main\<close> takes a step, or the thread of a core.\<close>

primrec schedule :: "int option list \<Rightarrow> bench \<Rightarrow> bench option" where
  "schedule [] s = Some s"
| "schedule (a # as) s =
     (case (case a of None \<Rightarrow> main_step s
                    | Some cpu \<Rightarrow> (case thread_step cpu s of Inr r \<Rightarrow> r | Inl _ \<Rightarrow> None)) of
        None \<Rightarrow> None
      | Some s' \<Rightarrow> schedule as s')"

section \<open>Only one thread passes\<close>

definition passed :: "bench \<Rightarrow> int \<Rightarrow> bool" where
  "passed s cpu \<longleftrightarrow> (\<exists>p. threads s cpu = Some p \<and> p \<noteq> Created \<and> p \<noteq> Waiting \<and> p \<noteq> Spinning)"

definition cleared :: "bench \<Rightarrow> bool" where
  "cleared s \<longleftrightarrow> (case main s of Joining k \<Rightarrow> True | Joined \<Rightarrow> True | _ \<Rightarrow> False)"

definition bench_ok :: "bench \<Rightarrow> bool" where
  "bench_ok s \<longleftrightarrow>
     (\<forall>cpu cpu'. passed s cpu \<longrightarrow> passed s cpu' \<longrightarrow> cpu = cpu') \<and>
     (\<not> cleared s \<longrightarrow> block s \<and> (\<forall>cpu. \<not> passed s cpu)) \<and>
     (\<not> block s \<longrightarrow> (\<forall>cpu. \<not> passed s cpu)) \<and>
     (\<forall>k j. main s = Joining k \<longrightarrow> 0 \<le> j \<longrightarrow> j < k \<longrightarrow> passed s (j * skip_cores)) \<and>
     (\<forall>k. main s = Joining k \<longrightarrow> k \<le> number_of_threads) \<and>
     (\<forall>k. main s = Starting k \<longrightarrow> 0 \<le> k \<and> k \<le> number_of_threads) \<and>
     main s \<noteq> Joined \<and>
     (\<forall>cpu. threads s cpu \<noteq> None \<longrightarrow> (\<exists>k. 0 \<le> k \<and> k < number_of_threads \<and> cpu = k * skip_cores)) \<and>
     length (results s) = nat number_of_threads"

lemma passed_upd [simp]: "passed (set_pc cpu p s) x = (if x = cpu then p \<noteq> Created \<and> p \<noteq> Waiting \<and> p \<noteq> Spinning else passed s x)"
  by (auto simp: passed_def set_pc_def)

lemma set_pc_simps [simp]:
  "main (set_pc cpu p s) = main s" "block (set_pc cpu p s) = block s" "results (set_pc cpu p s) = results s"
  "m_owner (set_pc cpu p s) = m_owner s" "threads (set_pc cpu p s) = (threads s)(cpu := Some p)"
  by (simp_all add: set_pc_def)

lemma passed_cong [simp]:
  "passed (s\<lparr>main := x\<rparr>) = passed s" "passed (s\<lparr>block := b\<rparr>) = passed s" "passed (s\<lparr>m_owner := w\<rparr>) = passed s"
  "passed (s\<lparr>results := r\<rparr>) = passed s"
  by (simp_all add: passed_def fun_eq_iff)

lemma cleared_set_pc [simp]: "cleared (set_pc cpu p s) = cleared s"
  by (simp add: cleared_def)

lemma bench_okI:
  assumes "\<And>cpu cpu'. passed s cpu \<Longrightarrow> passed s cpu' \<Longrightarrow> cpu = cpu'"
    and "\<not> cleared s \<Longrightarrow> block s" "\<And>cpu. \<not> cleared s \<or> \<not> block s \<Longrightarrow> \<not> passed s cpu"
    and "\<And>k j. main s = Joining k \<Longrightarrow> 0 \<le> j \<Longrightarrow> j < k \<Longrightarrow> passed s (j * skip_cores)"
    and "\<And>k. main s = Joining k \<Longrightarrow> k \<le> number_of_threads" "\<And>k. main s = Starting k \<Longrightarrow> 0 \<le> k \<and> k \<le> number_of_threads"
    and "main s \<noteq> Joined"
    and "\<And>cpu. threads s cpu \<noteq> None \<Longrightarrow> \<exists>k. 0 \<le> k \<and> k < number_of_threads \<and> cpu = k * skip_cores"
    and "length (results s) = nat number_of_threads"
  shows "bench_ok s"
  using assms unfolding bench_ok_def by blast

lemma bench_okD:
  assumes "bench_ok s"
  shows "passed s cpu \<Longrightarrow> passed s cpu' \<Longrightarrow> cpu = cpu'"
    and "\<not> cleared s \<Longrightarrow> block s" "\<not> cleared s \<or> \<not> block s \<Longrightarrow> \<not> passed s cpu"
    and "main s = Joining k \<Longrightarrow> 0 \<le> j \<Longrightarrow> j < k \<Longrightarrow> passed s (j * skip_cores)"
    and "main s = Joining k \<Longrightarrow> k \<le> number_of_threads" "main s = Starting k \<Longrightarrow> 0 \<le> k \<and> k \<le> number_of_threads"
    and "main s \<noteq> Joined"
    and "threads s cpu \<noteq> None \<Longrightarrow> \<exists>k. 0 \<le> k \<and> k < number_of_threads \<and> cpu = k * skip_cores"
    and "length (results s) = nat number_of_threads"
  using assms unfolding bench_ok_def by blast+

text \<open>A thread that has not passed goes on without passing, or one that has passed goes on.\<close>

lemma set_pc_ok:
  assumes ok: "bench_ok s" and t: "threads s cpu \<noteq> None" and s': "s' = set_pc cpu p s"
    and p: "(p \<noteq> Created \<and> p \<noteq> Waiting \<and> p \<noteq> Spinning) = passed s cpu"
  shows "bench_ok s'"
proof -
  have "passed s' = passed s" using p by (auto simp: s' fun_eq_iff)
  then show ?thesis using bench_okD [OF ok] t by (intro bench_okI) (auto simp: s' split: if_splits)
qed

lemma bench_ok_frame:
  "bench_ok s \<Longrightarrow> bench_ok (s\<lparr>m_owner := w\<rparr>)"
  "bench_ok s \<Longrightarrow> length r = nat number_of_threads \<Longrightarrow> bench_ok (s\<lparr>results := r\<rparr>)"
  by (simp_all add: bench_ok_def cleared_def)

lemma thread_result_index:
  assumes "bench_ok s" "threads s cpu \<noteq> None"
  obtains r where "set_at (results s) (c_div cpu skip_cores) cpu = Inr r" "length r = nat number_of_threads"
proof -
  obtain k where "0 \<le> k" "k < number_of_threads" "cpu = k * skip_cores" using bench_okD(8) [OF assms] by blast
  then show thesis using that bench_okD(9) [OF assms(1)] by (simp add: set_at_def skip_cores_def number_of_threads_def)
qed

lemma spin_ok:
  assumes ok: "bench_ok s" and t: "threads s cpu = Some Spinning" and b: "\<not> block s"
  shows "bench_ok (set_pc cpu (Looping 0) (s\<lparr>block := True\<rparr>))"
proof -
  have none: "\<not> passed s x" for x using bench_okD(3) [OF ok] b by blast
  have "cleared s" using bench_okD(2) [OF ok] b by blast
  then show ?thesis
    using bench_okD(4-) [OF ok] none t by (intro bench_okI) (auto simp: cleared_def split: if_splits)
qed

lemma thread_step_ok:
  assumes ok: "bench_ok s"
  shows "\<exists>r. thread_step cpu s = Inr r \<and> (\<forall>s'. r = Some s' \<longrightarrow> bench_ok s')"
proof (cases "threads s cpu")
  case None
  then show ?thesis by (simp add: thread_step_def)
next
  case (Some p)
  then have t: "threads s cpu \<noteq> None" by simp
  obtain r where r: "set_at (results s) (c_div cpu skip_cores) cpu = Inr r" "length r = nat number_of_threads"
    by (rule thread_result_index [OF ok t])
  have pass: "passed s cpu \<longleftrightarrow> p \<noteq> Created \<and> p \<noteq> Waiting \<and> p \<noteq> Spinning" using Some by (simp add: passed_def)
  show ?thesis
  proof (cases p)
    case Spinning
    then show ?thesis using Some ok spin_ok [OF ok] by (simp add: thread_step_def)
  next
    case (Looping i)
    then show ?thesis
      using Some r pass t set_pc_ok [OF bench_ok_frame(1) [OF ok]] set_pc_ok [OF bench_ok_frame(2) [OF ok r(2)]]
      by (simp add: thread_step_def)
  next
    case (Locked i)
    then show ?thesis using Some pass t set_pc_ok [OF bench_ok_frame(1) [OF ok]] by (simp add: thread_step_def)
  qed (use Some pass t set_pc_ok [OF ok] in \<open>simp_all add: thread_step_def\<close>)
qed

lemma main_step_ok:
  assumes ok: "bench_ok s" and step: "main_step s = Some s'"
  shows "bench_ok s'"
proof (cases "main s")
  case (Starting k)
  then have nc: "\<not> cleared s" by (simp add: cleared_def)
  then have none: "\<not> passed s x" for x using bench_okD(3) [OF ok] by blast
  have "\<not> passed s' x" for x using none [of x] Starting step by (auto simp: main_step_def passed_def split: if_splits)
  moreover have "0 \<le> k" "k \<le> number_of_threads" using bench_okD(6) [OF ok Starting] by simp_all
  ultimately show ?thesis
    using Starting step bench_okD(2) [OF ok nc] bench_okD(8,9) [OF ok]
    by (intro bench_okI) (auto simp: main_step_def split: if_splits)
next
  case Notify
  then have nc: "\<not> cleared s" by (simp add: cleared_def)
  then have none: "\<not> passed s x" for x using bench_okD(3) [OF ok] by blast
  have "\<not> passed s' x" for x using none [of x] Notify step by (auto simp: main_step_def passed_def split: if_splits)
  then show ?thesis
    using Notify step bench_okD(2) [OF ok nc] bench_okD(8,9) [OF ok]
    by (intro bench_okI) (auto simp: main_step_def split: if_splits)
next
  case Clear
  then have nc: "\<not> cleared s" by (simp add: cleared_def)
  then have none: "\<not> passed s x" for x using bench_okD(3) [OF ok] by blast
  then show ?thesis
    using Clear step bench_okD(8,9) [OF ok]
    by (intro bench_okI) (auto simp: main_step_def cleared_def number_of_threads_def)
next
  case (Joining k)
  have one: "\<not> (passed s 0 \<and> passed s skip_cores)" using bench_okD(1) [OF ok, of 0 skip_cores] by (auto simp: skip_cores_def)
  have k: "k < number_of_threads"
  proof (rule ccontr)
    assume "\<not> k < number_of_threads"
    then show False using bench_okD(4) [OF ok Joining, of 0] bench_okD(4) [OF ok Joining, of 1] one by (simp add: number_of_threads_def)
  qed
  with Joining step have s': "s' = s\<lparr>main := Joining (k + 1)\<rparr>" "threads s (k * skip_cores) = Some Finished"
    by (auto simp: main_step_def split: if_splits)
  have "passed s (j * skip_cores)" if "0 \<le> j" "j < k + 1" for j
    using bench_okD(4) [OF ok Joining, of j] that s'(2) by (cases "j = k") (auto simp: passed_def)
  then show ?thesis
    using bench_okD(1,8,9) [OF ok] bench_okD(3) [OF ok] k Joining
    by (intro bench_okI) (auto simp: s'(1) cleared_def)
next
  case Joined
  then show ?thesis using step by (simp add: main_step_def)
qed

interpretation bench: inductive_invariant "\<lambda>s. s = new_bench" bench_step bench_ok
proof
  show "bench_ok s" if "s = new_bench" for s
    using that by (intro bench_okI) (auto simp: new_bench_def passed_def cleared_def number_of_threads_def)
  show "bench_ok s'" if "bench_ok s" "bench_step s s'" for s s'
    using that(2)
  proof cases
    case main_steps
    then show ?thesis by (rule main_step_ok [OF that(1)])
  next
    case (thread_steps cpu)
    then show ?thesis using thread_step_ok [OF that(1), of cpu] by auto
  qed
qed

lemma schedule_steps:
  "schedule as s = Some s' \<Longrightarrow> reach (\<lambda>s. s = new_bench) bench_step s \<Longrightarrow> reach (\<lambda>s. s = new_bench) bench_step s'"
proof (induction as arbitrary: s)
  case (Cons a as)
  then obtain s1 where s1: "bench_step s s1" "schedule as s1 = Some s'"
    by (fastforce split: option.splits sum.splits intro: bench_step.intros)
  from Cons.IH [OF s1(2) reach.reach_step [OF Cons.prems(2) s1(1)]] show ?case .
qed simp

lemma schedule_reach: "schedule as new_bench = Some s \<Longrightarrow> reach (\<lambda>s. s = new_bench) bench_step s"
  by (erule schedule_steps) (rule reach.reach_init, rule refl)

text \<open>C24. At most one of the threads ever gets past the spin lock, because \<^verbatim>\<open>main\<close> clears the flag only once
  and no thread clears it again; since \<^verbatim>\<open>main\<close> waits for all four of them, it never finishes joining
  the threads of its first run. No thread writes its result outside the array.\<close>

theorem one_thread_passes:
  assumes "reach (\<lambda>s. s = new_bench) bench_step s"
  shows "(\<forall>cpu cpu'. passed s cpu \<longrightarrow> passed s cpu' \<longrightarrow> cpu = cpu') \<and> main s \<noteq> Joined \<and>
    (\<forall>cpu. \<exists>r. thread_step cpu s = Inr r)"
proof -
  have ok: "bench_ok s" by (rule bench.inv_reach [OF assms])
  show ?thesis using bench_okD(1,7) [OF ok] thread_step_ok [OF ok] by blast
qed

theorem one_thread_passes_witness:
  "\<exists>s. schedule [None, None, None, None, None, Some 0, None, None, Some 0] new_bench = Some s \<and> passed s 0 \<and>
     (\<forall>cpu. passed s cpu \<longrightarrow> cpu = 0) \<and> main s \<noteq> Joined"
proof -
  obtain s where s: "schedule [None, None, None, None, None, Some 0, None, None, Some 0] new_bench = Some s" "passed s 0"
    by (simp add: new_bench_def main_step_def thread_step_def set_pc_def passed_def number_of_threads_def skip_cores_def)
  then have "reach (\<lambda>s. s = new_bench) bench_step s" by (intro schedule_reach)
  from one_thread_passes [OF this] s show ?thesis by blast
qed

section \<open>The evaluation\<close>

text \<open>
  What a thread leaves in its \<^verbatim>\<open>Result\<close>, the bucket of a result (in milliseconds; the division by 3612059.05, truncated) and the
  loops of \<^verbatim>\<open>main\<close> over the runs and their results. The frequency counter (cwds, a submodule) is a parameter: \<^verbatim>\<open>add\<close> tells
  whether it has enough.
\<close>

record Result =
  m_cpu :: int
  m_start_cycles :: "64 word"
  m_diff_cycles :: "64 word"

definition thread_result :: "int \<Rightarrow> 64 word \<Rightarrow> 64 word \<Rightarrow> 64 word \<Rightarrow> Result" where
  "thread_result cpu start_cycles stop_cycles overhead =
     \<lparr>m_cpu = cpu, m_start_cycles = start_cycles, m_diff_cycles = (stop_cycles - start_cycles) - overhead\<rparr>"

definition SortResultByStartCycles :: "Result \<Rightarrow> Result \<Rightarrow> bool" where
  "SortResultByStartCycles a b \<longleftrightarrow> m_start_cycles a < m_start_cycles b"

definition bucket :: "Result \<Rightarrow> int" where
  "bucket r = uint (m_diff_cycles r) * 100 div 361205905"

primrec add_results :: "(int \<Rightarrow> 'f \<Rightarrow> 'f \<times> bool) \<Rightarrow> Result list \<Rightarrow> 'f \<Rightarrow> 'f \<times> bool" where
  "add_results fc_add [] fc = (fc, False)"
| "add_results fc_add (r # rs) fc = (case fc_add (bucket r) fc of (fc1, enough) \<Rightarrow> if enough then (fc1, True) else add_results fc_add rs fc1)"

primrec add_runs :: "(int \<Rightarrow> 'f \<Rightarrow> 'f \<times> bool) \<Rightarrow> Result list list \<Rightarrow> 'f \<Rightarrow> 'f \<times> bool" where
  "add_runs fc_add [] fc = (fc, False)"
| "add_runs fc_add (run # runs) fc = (case add_results fc_add run fc of (fc1, enough) \<Rightarrow> if enough then (fc1, True) else add_runs fc_add runs fc1)"

text \<open>What \<^verbatim>\<open>main\<close> prints as result.\<close>

definition bench_result :: "(int \<Rightarrow> 'f \<Rightarrow> 'f \<times> bool) \<Rightarrow> ('f \<Rightarrow> 'r) \<Rightarrow> ('f \<Rightarrow> 'r) \<Rightarrow> Result list list \<Rightarrow> 'f \<Rightarrow> 'r" where
  "bench_result fc_add fc_result fc_average runs fc =
     (case add_runs fc_add (take 100 runs) fc of (fc1, done_) \<Rightarrow> if done_ then fc_result fc1 else fc_average fc1)"

text \<open>
  The nested loops are one loop over the results of all runs: leaving both of them with the flag loses nothing
  and adds nothing.
\<close>

lemma add_results_append:
  "add_results fc_add (xs @ ys) fc =
     (case add_results fc_add xs fc of (fc1, enough) \<Rightarrow> if enough then (fc1, True) else add_results fc_add ys fc1)"
  by (induction xs arbitrary: fc) (auto split: prod.splits)

theorem runs_are_one_loop: "add_runs fc_add runs fc = add_results fc_add (concat runs) fc"
  by (induction runs arbitrary: fc) (auto simp: add_results_append split: prod.splits)

end
