(* ===== verification/CV_Wait.thy ===== *)
theory CV_Wait
  imports Prelude
begin

text \<open>
  The program \<^verbatim>\<open>src/cv_wait.cxx\<close>: a thread waits for a condition variable and \<^verbatim>\<open>main\<close> wakes it up,
  with time stamps around both. Every scheduling, every passing of time and spurious wake-ups are
  covered.
\<close>

section \<open>State\<close>

text \<open>
  The points of \<^verbatim>\<open>foo\<close> and \<^verbatim>\<open>main\<close>; the numbers are those of the comments of the program.
\<close>

datatype foo_pc =
    Lock2 | Store3 | Start5 | Wait6 | Idle | Woken | Unlock12 | End | Foo_done

datatype main_pc =
    Spin | Lock4 | Unlock8 | Notify_start | Notify9 | Notify_end | Join10 | Print13

datatype owner = Foo | Main

record cv_state =
  foo :: foo_pc
  main :: main_pc
  m :: "owner option"
  w :: bool
  clock :: int
  wait_start :: int
  wait_end :: int
  notify_start :: int
  notify_end :: int

definition cv_init :: cv_state where
  "cv_init = \<lparr>foo = Lock2, main = Spin, m = None, w = False, clock = 0, wait_start = 0, wait_end = 0,
     notify_start = 0, notify_end = 0\<rparr>"

section \<open>Steps\<close>

text \<open>
  A step of \<^verbatim>\<open>foo\<close>. A blocked thread has no step: locking needs a free mutex, and \<^const>\<open>Idle\<close> is left by
  a notification only (or spuriously, below).
\<close>

definition foo_step :: "cv_state \<Rightarrow> cv_state option" where
  "foo_step s =
     (case foo s of
        Lock2 \<Rightarrow> if m s = None then Some (s\<lparr>m := Some Foo, foo := Store3\<rparr>) else None
      | Store3 \<Rightarrow> Some (s\<lparr>w := True, foo := Start5\<rparr>)
      | Start5 \<Rightarrow> Some (s\<lparr>wait_start := clock s, foo := Wait6\<rparr>)
      | Wait6 \<Rightarrow> Some (s\<lparr>m := None, foo := Idle\<rparr>)
      | Idle \<Rightarrow> None
      | Woken \<Rightarrow> if m s = None then Some (s\<lparr>m := Some Foo, foo := Unlock12\<rparr>) else None
      | Unlock12 \<Rightarrow> Some (s\<lparr>m := None, foo := End\<rparr>)
      | End \<Rightarrow> Some (s\<lparr>wait_end := clock s, foo := Foo_done\<rparr>)
      | Foo_done \<Rightarrow> None)"

definition main_step :: "cv_state \<Rightarrow> cv_state option" where
  "main_step s =
     (case main s of
        Spin \<Rightarrow> Some (if w s then s\<lparr>main := Lock4\<rparr> else s)
      | Lock4 \<Rightarrow> if m s = None then Some (s\<lparr>m := Some Main, main := Unlock8\<rparr>) else None
      | Unlock8 \<Rightarrow> Some (s\<lparr>m := None, main := Notify_start\<rparr>)
      | Notify_start \<Rightarrow> Some (s\<lparr>notify_start := clock s, main := Notify9\<rparr>)
      | Notify9 \<Rightarrow> Some (s\<lparr>foo := (if foo s = Idle then Woken else foo s), main := Notify_end\<rparr>)
      | Notify_end \<Rightarrow> Some (s\<lparr>notify_end := clock s, main := Join10\<rparr>)
      | Join10 \<Rightarrow> if foo s = Foo_done then Some (s\<lparr>main := Print13\<rparr>) else None
      | Print13 \<Rightarrow> None)"

inductive cv_step :: "cv_state \<Rightarrow> cv_state \<Rightarrow> bool" where
  foo_steps: "foo_step s = Some s' \<Longrightarrow> cv_step s s'"
| main_steps: "main_step s = Some s' \<Longrightarrow> cv_step s s'"
| spurious: "foo s = Idle \<Longrightarrow> cv_step s (s\<lparr>foo := Woken\<rparr>)"
| ticks: "t \<ge> clock s \<Longrightarrow> cv_step s (s\<lparr>clock := t\<rparr>)"

text \<open>The four durations that \<^verbatim>\<open>main\<close> prints, in the order it prints them.\<close>

definition printed :: "cv_state \<Rightarrow> int list" where
  "printed s = [notify_start s - wait_start s, notify_end s - notify_start s, wait_end s - notify_end s, wait_end s - wait_start s]"

text \<open>A schedule: \<^verbatim>\<open>foo\<close> (true) or \<^verbatim>\<open>main\<close> takes the next step, one tick later.\<close>

primrec cv_schedule :: "bool list \<Rightarrow> cv_state \<Rightarrow> cv_state option" where
  "cv_schedule [] s = Some s"
| "cv_schedule (b # bs) s =
     (let s1 = s\<lparr>clock := clock s + 1\<rparr> in
      case (if b then foo_step s1 else main_step s1) of None \<Rightarrow> None | Some s2 \<Rightarrow> cv_schedule bs s2)"

section \<open>The handshake\<close>

text \<open>How far the two threads are.\<close>

primrec foo_rank :: "foo_pc \<Rightarrow> nat" where
  "foo_rank Lock2 = 8" | "foo_rank Store3 = 7" | "foo_rank Start5 = 6" | "foo_rank Wait6 = 5" | "foo_rank Idle = 4"
| "foo_rank Woken = 3" | "foo_rank Unlock12 = 2" | "foo_rank End = 1" | "foo_rank Foo_done = 0"

primrec main_rank :: "main_pc \<Rightarrow> nat" where
  "main_rank Spin = 7" | "main_rank Lock4 = 6" | "main_rank Unlock8 = 5" | "main_rank Notify_start = 4" | "main_rank Notify9 = 3"
| "main_rank Notify_end = 2" | "main_rank Join10 = 1" | "main_rank Print13 = 0"

definition remaining :: "cv_state \<Rightarrow> nat" where
  "remaining s = foo_rank (foo s) + main_rank (main s)"

primrec foo_holds :: "foo_pc \<Rightarrow> bool" where
  "foo_holds Lock2 = False" | "foo_holds Store3 = True" | "foo_holds Start5 = True" | "foo_holds Wait6 = True"
| "foo_holds Idle = False" | "foo_holds Woken = False" | "foo_holds Unlock12 = True" | "foo_holds End = False"
| "foo_holds Foo_done = False"

text \<open>
  The mutex is held exactly at the points between locking and unlocking; the flag is set once \<^verbatim>\<open>foo\<close>
  holds it; \<^verbatim>\<open>main\<close> is past its own lock only after \<^verbatim>\<open>foo\<close> has begun to wait, and nobody is idle after
  the notification.
\<close>

definition lock_ok :: "cv_state \<Rightarrow> bool" where
  "lock_ok s \<longleftrightarrow>
     m s = (if foo_holds (foo s) then Some Foo else if main s = Unlock8 then Some Main else None) \<and>
     (main s = Unlock8 \<longrightarrow> \<not> foo_holds (foo s)) \<and>
     w s = (foo_rank (foo s) \<le> 6) \<and>
     (main_rank (main s) \<le> 6 \<longrightarrow> w s) \<and>
     (main_rank (main s) \<le> 5 \<longrightarrow> foo_rank (foo s) \<le> 4) \<and>
     (main_rank (main s) \<le> 2 \<longrightarrow> foo s \<noteq> Idle) \<and>
     (main s = Print13 \<longrightarrow> foo s = Foo_done)"

definition times_ok :: "cv_state \<Rightarrow> bool" where
  "times_ok s \<longleftrightarrow>
     (foo_rank (foo s) \<le> 5 \<longrightarrow> wait_start s \<le> clock s) \<and>
     (foo s = Foo_done \<longrightarrow> wait_start s \<le> wait_end s) \<and>
     (main_rank (main s) \<le> 3 \<longrightarrow> wait_start s \<le> notify_start s \<and> notify_start s \<le> clock s) \<and>
     (main_rank (main s) \<le> 1 \<longrightarrow> notify_start s \<le> notify_end s)"

definition cv_ok :: "cv_state \<Rightarrow> bool" where
  "cv_ok s \<longleftrightarrow> lock_ok s \<and> times_ok s"

lemma foo_step_lock: "lock_ok s \<Longrightarrow> foo_step s = Some s' \<Longrightarrow> lock_ok s' \<and> remaining s' < remaining s"
  by (cases "foo s"; cases "main s"; clarsimp simp: lock_ok_def foo_step_def remaining_def)

lemma main_step_lock: "lock_ok s \<Longrightarrow> main_step s = Some s' \<Longrightarrow> lock_ok s' \<and> (s' = s \<or> remaining s' < remaining s)"
  by (cases "foo s"; cases "main s"; clarsimp simp: lock_ok_def main_step_def remaining_def)

lemma foo_step_times:
  assumes "lock_ok s" "times_ok s" "foo_step s = Some s'"
  shows "times_ok s'"
  using assms by (cases "foo s"; cases "main s"; clarsimp simp: lock_ok_def times_ok_def foo_step_def)

lemma main_step_times:
  assumes "lock_ok s" "times_ok s" "main_step s = Some s'"
  shows "times_ok s'"
  using assms by (cases "foo s"; cases "main s"; clarsimp simp: lock_ok_def times_ok_def main_step_def)

lemma spurious_ok: "cv_ok s \<Longrightarrow> foo s = Idle \<Longrightarrow> cv_ok (s\<lparr>foo := Woken\<rparr>)"
  by (cases "main s") (simp_all add: cv_ok_def lock_ok_def times_ok_def)

lemma ticks_ok: "cv_ok s \<Longrightarrow> clock s \<le> t \<Longrightarrow> cv_ok (s\<lparr>clock := t\<rparr>)"
  unfolding cv_ok_def lock_ok_def times_ok_def by (simp, metis order_trans)

lemma not_stuck:
  assumes "lock_ok s" "main s \<noteq> Print13"
  shows "(\<exists>s'. foo_step s = Some s') \<or> (\<exists>s'. main_step s = Some s' \<and> remaining s' < remaining s)"
  using assms by (cases "foo s"; cases "main s"; clarsimp simp: lock_ok_def foo_step_def main_step_def remaining_def)

lemmas step_cases_ok = foo_step_lock main_step_lock foo_step_times main_step_times spurious_ok ticks_ok

lemma cv_step_ok:
  assumes ok: "cv_ok s" and step: "cv_step s s'"
  shows "cv_ok s' \<and> remaining s' \<le> remaining s"
  using step
proof cases
  case foo_steps
  then show ?thesis using ok step_cases_ok(1) [of s s'] step_cases_ok(3) [of s s'] by (simp add: cv_ok_def)
next
  case main_steps
  then show ?thesis using ok step_cases_ok(2) [of s s'] step_cases_ok(4) [of s s'] by (auto simp: cv_ok_def)
next
  case spurious
  then show ?thesis using step_cases_ok(5) [OF ok] by (simp add: remaining_def)
next
  case (ticks t)
  then show ?thesis using step_cases_ok(6) [OF ok] by (simp add: remaining_def)
qed

interpretation handshake: inductive_invariant "\<lambda>s. s = cv_init" cv_step cv_ok
proof
  show "cv_ok s" if "s = cv_init" for s using that by (simp add: cv_ok_def lock_ok_def times_ok_def cv_init_def)
  show "cv_ok s'" if "cv_ok s" "cv_step s s'" for s s' using cv_step_ok [OF that] by simp
qed


lemma cv_schedule_steps:
  "cv_schedule bs s = Some s' \<Longrightarrow> reach (\<lambda>s. s = cv_init) cv_step s \<Longrightarrow> reach (\<lambda>s. s = cv_init) cv_step s'"
proof (induction bs arbitrary: s)
  case (Cons b bs)
  let ?s1 = "s\<lparr>clock := clock s + 1\<rparr>"
  have "cv_step s ?s1" by (rule cv_step.ticks) simp
  then have "reach (\<lambda>s. s = cv_init) cv_step ?s1" by (rule reach.reach_step [OF Cons.prems(2)])
  moreover obtain s2 where s2: "cv_step ?s1 s2" "cv_schedule bs s2 = Some s'"
    using Cons.prems(1) by (auto simp: Let_def split: option.splits if_splits intro: cv_step.intros)
  ultimately show ?case using Cons.IH [OF s2(2)] reach.reach_step by fast
qed simp


end
