(* ===== verification/Benchmark_Calibration.thy ===== *)
theory Benchmark_Calibration
  imports Prelude
begin

text \<open>
  The calibrations of \<^verbatim>\<open>src/benchmark.cxx\<close>. The measurements (clock and time stamp counter) are
  inputs, as is \<^verbatim>\<open>MinAvgMax\<close> (cwds, a submodule): functions \<^verbatim>\<open>mam_min\<close> and \<^verbatim>\<open>mam_max\<close> of the list of
  data points. The doubles of the source that hold whole nanoseconds (\<^verbatim>\<open>sum\<close>, \<^verbatim>\<open>ns\<close>, \<^verbatim>\<open>Data::min\<close>) are
  integers here; the plots that are drawn on the side are left out.
\<close>

section \<open>The overhead of now()\<close>

definition stop_count :: int where
  "stop_count = 1000000"

text \<open>The local variables of a round of \<^verbatim>\<open>calibrate_now_offset\<close>.\<close>

record now_round =
  d :: "int list"
  total_ns :: int
  cnt :: int

definition new_round :: "32 word \<Rightarrow> now_round" where
  "new_round peak_nsi = \<lparr>d = replicate (unat (4 * peak_nsi)) 0, total_ns = 0, cnt = 0\<rparr>"

text \<open>
  The loop of a round over the measured differences \<^verbatim>\<open>nsi\<close>: the round, the difference that was
  measured \<^verbatim>\<open>stop_count\<close> times and the measurements to come; \<^const>\<open>None\<close> when the measurements do not
  suffice.
\<close>

primrec count_samples :: "32 word \<Rightarrow> 32 word list \<Rightarrow> now_round \<Rightarrow> (now_round \<times> 32 word \<times> 32 word list) option result" where
  "count_samples peak_nsi [] r = Inr None"
| "count_samples peak_nsi (nsi # samples) r =
     (if nsi < 4 * peak_nsi then
        bindE (get_at (d r) (uint nsi)) (\<lambda>v.
        bindE (set_at (d r) (uint nsi) (v + 1)) (\<lambda>d'.
          if v + 1 = stop_count then Inr (Some (r\<lparr>d := d'\<rparr>, nsi, samples))
          else
            bindE (to_int (cnt r + 1)) (\<lambda>cnt'.
              count_samples peak_nsi samples (r\<lparr>d := d', total_ns := total_ns r + uint nsi, cnt := cnt'\<rparr>))))
      else count_samples peak_nsi samples r)"

lemma count_samples_shorter: "count_samples p ss r = Inr (Some (r', nsi, rest)) \<Longrightarrow> length rest < length ss"
  by (induction ss arbitrary: r) (fastforce simp: result_simps split: if_splits)+

text \<open>
  \<^verbatim>\<open>calibrate_now_offset\<close>: rounds until the same peak is found twice; \<^verbatim>\<open>m_now_offset\<close> is the quotient
  of the two numbers that are returned.
\<close>

function calibrate_now_offset :: "32 word \<Rightarrow> 32 word list \<Rightarrow> (now_round \<times> 32 word) option result" where
  "calibrate_now_offset peak_nsi samples =
     (case count_samples peak_nsi samples (new_round peak_nsi) of
        Inl e \<Rightarrow> Inl e
      | Inr None \<Rightarrow> Inr None
      | Inr (Some (r, nsi, rest)) \<Rightarrow>
          if peak_nsi = nsi then Inr (Some (r, nsi)) else calibrate_now_offset nsi rest)"
  by pat_completeness auto
termination
  by (relation "measure (length \<circ> snd)") (auto dest: count_samples_shorter)

declare calibrate_now_offset.simps [simp del]

text \<open>The range of the plot: the differences that were measured more than \<^verbatim>\<open>stop_count / 2000\<close> times.\<close>

primrec plot_range :: "int \<Rightarrow> int list \<Rightarrow> int \<times> int \<Rightarrow> int \<times> int" where
  "plot_range nsi [] m = m"
| "plot_range nsi (v # vs) m =
     plot_range (nsi + 1) vs (if v > c_div stop_count 2000 then (min (fst m) nsi, max (snd m) nsi) else m)"

section \<open>The clocks of a measurement\<close>

text \<open>A measurement: nanoseconds and the cycles of the two stop watches.\<close>

record Data =
  data_min :: int
  delta1 :: "64 word"
  delta2 :: "64 word"

text \<open>
  The smallest of \<^verbatim>\<open>mma_count\<close> measurements: the cycles are those of the last measurement that was the
  minimum when it was made.
\<close>

primrec best_of :: "(int list \<Rightarrow> int) \<Rightarrow> (int \<times> 64 word \<times> 64 word) list \<Rightarrow> int list \<Rightarrow> 64 word \<times> 64 word \<Rightarrow> Data" where
  "best_of mam_min [] ns_list ds = \<lparr>data_min = mam_min ns_list, delta1 = fst ds, delta2 = snd ds\<rparr>"
| "best_of mam_min (x # xs) ns_list ds =
     (case x of (ns, d1, d2) \<Rightarrow>
        best_of mam_min xs (ns_list @ [ns]) (if ns = mam_min (ns_list @ [ns]) then (d1, d2) else ds))"

text \<open>
  The two histograms. \<^verbatim>\<open>key\<close> is the number of cycles that is counted and \<^verbatim>\<open>look\<close> the one whose count is
  compared with the largest count so far; they differ in the second histogram.
\<close>

record histogram =
  counts :: "int list"
  max_count :: int
  best_delta :: int

definition count_point :: "(Data \<Rightarrow> 64 word) \<Rightarrow> (Data \<Rightarrow> 64 word) \<Rightarrow> int \<Rightarrow> int \<Rightarrow> Data \<Rightarrow> histogram \<Rightarrow> histogram result" where
  "count_point key look low c x h =
     (if data_min x - low = c \<and> key x < 300 then
        bindE (get_at (counts h) (uint (key x))) (\<lambda>v.
        bindE (set_at (counts h) (uint (key x)) (v + 1)) (\<lambda>cs.
        bindE (get_at cs (uint (look x))) (\<lambda>u.
        if u > max_count h then
          bindE (get_at cs (uint (key x))) (\<lambda>m. Inr (h\<lparr>counts := cs, max_count := m, best_delta := uint (key x)\<rparr>))
        else Inr (h\<lparr>counts := cs\<rparr>))))
      else Inr h)"

primrec count_points :: "(Data \<Rightarrow> 64 word) \<Rightarrow> (Data \<Rightarrow> 64 word) \<Rightarrow> int \<Rightarrow> int \<Rightarrow> Data list \<Rightarrow> histogram \<Rightarrow> histogram result" where
  "count_points key look low c [] h = Inr h"
| "count_points key look low c (x # xs) h = bindE (count_point key look low c x h) (count_points key look low c xs)"

primrec count_bins :: "(Data \<Rightarrow> 64 word) \<Rightarrow> (Data \<Rightarrow> 64 word) \<Rightarrow> int \<Rightarrow> int list \<Rightarrow> Data list \<Rightarrow> histogram \<Rightarrow> histogram result" where
  "count_bins key look low [] data h = Inr h"
| "count_bins key look low (c # cs) data h =
     bindE (count_points key look low c data h) (count_bins key look low cs data)"

text \<open>
  The number of cycles as a \<^verbatim>\<open>MinAvgMax<int>\<close> takes it, and the vector with an element for every value
  up to the largest of them (a negative size is an exception).
\<close>

definition as_int :: "64 word \<Rightarrow> int" where
  "as_int w = sint (ucast w :: 32 word)"

definition new_counts :: "int \<Rightarrow> int list result" where
  "new_counts highest =
     bindE (to_int (highest + 1)) (\<lambda>n. if n < 0 then Inl Exception else Inr (replicate (nat n) 0))"

definition find_best :: "(int list \<Rightarrow> int) \<Rightarrow> (int list \<Rightarrow> int) \<Rightarrow> (Data \<Rightarrow> 64 word) \<Rightarrow> (Data \<Rightarrow> 64 word) \<Rightarrow> Data list \<Rightarrow> histogram result" where
  "find_best mam_min mam_max key look data =
     (let low = mam_min (map data_min data); high = mam_max (map data_min data); width = high - low + 1 in
      bindE (new_counts (mam_max (map (as_int \<circ> key) data))) (\<lambda>cs.
        count_bins key look low (for_values 0 (width - 1) 1) data \<lparr>counts = cs, max_count = 0, best_delta = 0\<rparr>))"

text \<open>
  A round of \<^verbatim>\<open>calibrate_delta\<close>: the number of clocks, or nothing when it has to try again.
\<close>

definition delta_round :: "(int list \<Rightarrow> int) \<Rightarrow> (int list \<Rightarrow> int) \<Rightarrow> Data list \<Rightarrow> int option result" where
  "delta_round mam_min mam_max data =
     bindE (find_best mam_min mam_max delta1 delta1 data) (\<lambda>h1.
       if max_count h1 < 40000 then Inr None
       else
         bindE (find_best mam_min mam_max delta2 delta1 data) (\<lambda>h2.
           if max_count h2 < 30000 \<or> best_delta h2 \<noteq> best_delta h1 then Inr None
           else Inr (Some (best_delta h1))))"

section \<open>Cycles per nanosecond\<close>

record cycles_state =
  delta1_count :: "int list"
  delta2_count :: "int list"
  target_delta1 :: "64 word"
  target_delta2 :: "64 word"
  ratios :: "(64 word \<times> 64 word) list"

definition new_cycles :: "int \<Rightarrow> cycles_state" where
  "new_cycles m_delta =
     \<lparr>delta1_count = replicate (nat (2 * m_delta)) 0, delta2_count = replicate (nat (2 * m_delta)) 0,
      target_delta1 = 0, target_delta2 = 0, ratios = []\<rparr>"

text \<open>\<^verbatim>\<open>if ((int)delta < 2 * m_delta && ++delta_count[delta] == 10) target = delta\<close>\<close>

definition count_delta :: "int \<Rightarrow> 64 word \<Rightarrow> int list \<Rightarrow> 64 word \<Rightarrow> (int list \<times> 64 word) result" where
  "count_delta m_delta delta cs target =
     (if as_int delta < 2 * m_delta then
        bindE (get_at cs (uint delta)) (\<lambda>v.
        bindE (set_at cs (uint delta) (v + 1)) (\<lambda>cs'. Inr (cs', if v + 1 = 10 then delta else target)))
      else Inr (cs, target))"

definition near_target :: "64 word \<Rightarrow> 64 word \<Rightarrow> bool" where
  "near_target target delta \<longleftrightarrow> target - 1 \<le> delta \<and> delta \<le> target + 1"

text \<open>
  The body of the loop of \<^verbatim>\<open>calibrate_cycles_per_ns\<close> for a measurement: the new state and whether the
  loop is left.
\<close>

definition cycles_body :: "int \<Rightarrow> 64 word \<times> 64 word \<times> 64 word \<times> 64 word \<Rightarrow> cycles_state \<Rightarrow> (cycles_state \<times> bool) result" where
  "cycles_body m_delta x s =
     (case x of (d1, d2, d3, clocks) \<Rightarrow>
        if near_target (target_delta1 s) d1 \<and> near_target (target_delta2 s) d2 then
          (let s1 = s\<lparr>ratios := ratios s @ [(d3, clocks)]\<rparr> in Inr (s1, length (ratios s1) = 20))
        else if target_delta1 s = 0 \<or> target_delta2 s = 0 then
          bindE (count_delta m_delta d1 (delta1_count s) (target_delta1 s)) (\<lambda>(cs1, t1).
          bindE (count_delta m_delta d2 (delta2_count s) (target_delta2 s)) (\<lambda>(cs2, t2).
            Inr (s\<lparr>delta1_count := cs1, target_delta1 := t1, delta2_count := cs2, target_delta2 := t2\<rparr>, False)))
        else Inr (s, False))"

section \<open>The constructor\<close>

text \<open>
  The constructor with given values: a value of zero is calibrated (the calibrations are
  parameters), after which the program stops with the values to use.
\<close>

record 'r Benchmark =
  m_now_offset :: 'r
  m_delta :: int
  m_cycles_per_ns :: 'r
  s_stopwatch_overhead :: int

definition new_Benchmark ::
  "'r::zero Benchmark \<Rightarrow> 'r \<Rightarrow> int \<Rightarrow> 'r \<Rightarrow> int \<Rightarrow> 'r Benchmark result" where
  "new_Benchmark calibration now_offset delta cycles_per_ns stopwatch_overhead =
     (let calibrated = (now_offset = 0 \<or> delta = 0 \<or> cycles_per_ns = 0 \<or> stopwatch_overhead = 0);
          b = \<lparr>m_now_offset = (if now_offset = 0 then m_now_offset calibration else now_offset),
               m_delta = (if delta = 0 then m_delta calibration else delta),
               m_cycles_per_ns = (if cycles_per_ns = 0 then m_cycles_per_ns calibration else cycles_per_ns),
               s_stopwatch_overhead = (if stopwatch_overhead = 0 then s_stopwatch_overhead calibration else stopwatch_overhead)\<rparr>
      in if calibrated then Inl Fatal else Inr b)"

section \<open>Specification\<close>

text \<open>The measurements that a round takes into account, and how often one of them was made.\<close>

definition in_range :: "32 word \<Rightarrow> 32 word list \<Rightarrow> 32 word list" where
  "in_range p ss = filter (\<lambda>s. s < 4 * p) ss"

definition hits :: "32 word \<Rightarrow> 32 word list \<Rightarrow> nat \<Rightarrow> nat" where
  "hits p ss k = length (filter (\<lambda>s. unat s = k) (in_range p ss))"

definition counted :: "32 word \<Rightarrow> 32 word list \<Rightarrow> now_round \<Rightarrow> bool" where
  "counted p used r \<longleftrightarrow> length (d r) = unat (4 * p) \<and> (\<forall>k < length (d r). d r ! k = int (hits p used k)) \<and>
     cnt r = int (length (in_range p used)) \<and> total_ns r = sum_list (map uint (in_range p used))"

definition below_stop :: "now_round \<Rightarrow> bool" where
  "below_stop r \<longleftrightarrow> (\<forall>k < length (d r). d r ! k < stop_count)"

text \<open>The values below 300 that a histogram counts.\<close>

definition counted_keys :: "(Data \<Rightarrow> 64 word) \<Rightarrow> Data list \<Rightarrow> 64 word list" where
  "counted_keys key data = filter (\<lambda>k. k < 300) (map key data)"

text \<open>A histogram of the values \<^verbatim>\<open>ks\<close>: the counts, and the value that was counted most.\<close>

definition tallied :: "64 word list \<Rightarrow> histogram \<Rightarrow> bool" where
  "tallied ks h \<longleftrightarrow>
     (\<forall>k. k < 300 \<longrightarrow> unat k < length (counts h) \<longrightarrow> counts h ! unat k = int (count_list ks k)) \<and>
     (\<forall>k. int (count_list ks k) \<le> max_count h) \<and>
     (ks \<noteq> [] \<longrightarrow> (\<exists>k \<in> set ks. best_delta h = uint k \<and> max_count h = int (count_list ks k))) \<and>
     (ks = [] \<longrightarrow> max_count h = 0 \<and> best_delta h = 0)"

text \<open>What a vector of counts promises for a target: it was measured ten times.\<close>

definition target_ok :: "int \<Rightarrow> int list \<Rightarrow> 64 word \<Rightarrow> bool" where
  "target_ok m cs t \<longleftrightarrow> length cs = nat (2 * m) \<and> (t \<noteq> 0 \<longrightarrow> unat t < length cs \<and> 10 \<le> cs ! unat t)"

definition cycles_ok :: "int \<Rightarrow> cycles_state \<Rightarrow> bool" where
  "cycles_ok m s \<longleftrightarrow> target_ok m (delta1_count s) (target_delta1 s) \<and> target_ok m (delta2_count s) (target_delta2 s) \<and>
     (ratios s \<noteq> [] \<longrightarrow> target_delta1 s \<noteq> 0 \<and> target_delta2 s \<noteq> 0)"

section \<open>Lemmas and theorems\<close>

lemma unat_in_range: "unat w < n \<longleftrightarrow> uint w < int n"
  by (metis of_nat_less_iff uint_nat)

lemma in_range_append [simp]: "in_range p (xs @ ys) = in_range p xs @ in_range p ys"
  by (simp add: in_range_def)

lemma in_range_Cons [simp]: "in_range p (x # xs) = (if x < 4 * p then x # in_range p xs else in_range p xs)"
  by (simp add: in_range_def)

lemma in_range_Nil [simp]: "in_range p [] = []"
  by (simp add: in_range_def)

lemma hits_append [simp]: "hits p (xs @ ys) k = hits p xs k + hits p ys k"
  by (simp add: hits_def)

lemma hits_single: "hits p [x] k = (if x < 4 * p \<and> unat x = k then 1 else 0)"
  by (simp add: hits_def)

lemma counted_skip: "counted p used r \<Longrightarrow> \<not> nsi < 4 * p \<Longrightarrow> counted p (used @ [nsi]) r"
  by (simp add: counted_def hits_single)

lemma counted_hit:
  assumes "counted p used r" "nsi < 4 * p"
  shows "unat nsi < length (d r)"
    "counted p (used @ [nsi]) (r\<lparr>d := (d r)[unat nsi := d r ! unat nsi + 1], total_ns := total_ns r + uint nsi, cnt := cnt r + 1\<rparr>)"
proof -
  show "unat nsi < length (d r)" using assms by (simp add: counted_def word_less_nat_alt)
  then show "counted p (used @ [nsi]) (r\<lparr>d := (d r)[unat nsi := d r ! unat nsi + 1], total_ns := total_ns r + uint nsi, cnt := cnt r + 1\<rparr>)"
    using assms by (auto simp: counted_def hits_single nth_list_update)
qed

lemma count_samples_ok:
  assumes "counted p used r" "below_stop r" "int (length used + length ss) \<le> 2147483647"
  shows "(\<exists>r'. count_samples p ss r = Inr None \<and> counted p (used @ ss) r' \<and> below_stop r') \<or>
    (\<exists>r' nsi mid rest. count_samples p ss r = Inr (Some (r', nsi, rest)) \<and> ss = mid @ nsi # rest \<and> nsi < 4 * p \<and>
       counted p (used @ mid @ [nsi]) (r'\<lparr>total_ns := total_ns r' + uint nsi, cnt := cnt r' + 1\<rparr>) \<and>
       d r' ! unat nsi = stop_count \<and> (\<forall>k < length (d r'). k \<noteq> unat nsi \<longrightarrow> d r' ! k < stop_count))"
  using assms
proof (induction ss arbitrary: used r)
  case Nil
  then show ?case by auto
next
  case (Cons nsi ss)
  show ?case
  proof (cases "nsi < 4 * p")
    case False
    have "int (length (used @ [nsi]) + length ss) \<le> 2147483647" using Cons.prems(3) by simp
    from Cons.IH [OF counted_skip [OF Cons.prems(1) False] Cons.prems(2) this] show ?thesis
    proof (elim disjE exE conjE)
      fix r' assume "count_samples p ss r = Inr None" "counted p ((used @ [nsi]) @ ss) r'" "below_stop r'"
      then show ?thesis using False by auto
    next
      fix r' n mid rest
      assume "count_samples p ss r = Inr (Some (r', n, rest))" "ss = mid @ n # rest" "n < 4 * p"
        "counted p ((used @ [nsi]) @ mid @ [n]) (r'\<lparr>total_ns := total_ns r' + uint n, cnt := cnt r' + 1\<rparr>)"
        "d r' ! unat n = stop_count" "\<forall>k < length (d r'). k \<noteq> unat n \<longrightarrow> d r' ! k < stop_count"
      then show ?thesis using False by (intro disjI2 exI [of _ r'] exI [of _ n] exI [of _ "nsi # mid"] exI [of _ rest]) simp
    qed
  next
    case True
    let ?d = "(d r)[unat nsi := d r ! unat nsi + 1]"
    let ?r = "r\<lparr>d := ?d, total_ns := total_ns r + uint nsi, cnt := cnt r + 1\<rparr>"
    note hit = counted_hit [OF Cons.prems(1) True]
    have at: "0 \<le> uint nsi" "uint nsi < int (length (d r))" "nat (uint nsi) = unat nsi"
      using hit(1) by (simp_all add: unat_in_range)
    have "cnt r \<le> int (length used)" using Cons.prems(1) by (simp add: counted_def in_range_def)
    moreover have "0 \<le> cnt r" using Cons.prems(1) by (simp add: counted_def)
    ultimately have counter: "to_int (cnt r + 1) = Inr (cnt r + 1)" using Cons.prems(3) by simp
    have more: "int (length (used @ [nsi]) + length ss) \<le> 2147483647" using Cons.prems(3) by simp
    have step: "count_samples p (nsi # ss) r =
        (if d r ! unat nsi + 1 = stop_count then Inr (Some (r\<lparr>d := ?d\<rparr>, nsi, ss)) else count_samples p ss ?r)"
      using True at counter by (simp add: get_at_def set_at_def)
    show ?thesis
    proof (cases "d r ! unat nsi + 1 = stop_count")
      case eq: True
      have "\<forall>k < length ?d. k \<noteq> unat nsi \<longrightarrow> ?d ! k < stop_count" using Cons.prems(2) by (simp add: below_stop_def)
      then show ?thesis using step eq True hit by (intro disjI2 exI [of _ "r\<lparr>d := ?d\<rparr>"] exI [of _ nsi] exI [of _ "[]"] exI [of _ ss]) simp
    next
      case neq: False
      have "below_stop ?r" using Cons.prems(2) neq hit(1) by (auto simp: below_stop_def nth_list_update)
      from Cons.IH [OF hit(2) this more] show ?thesis
      proof (elim disjE exE conjE)
        fix r' assume "count_samples p ss ?r = Inr None" "counted p ((used @ [nsi]) @ ss) r'" "below_stop r'"
        then show ?thesis using step neq by auto
      next
        fix r' n mid rest
        assume "count_samples p ss ?r = Inr (Some (r', n, rest))" "ss = mid @ n # rest" "n < 4 * p"
          "counted p ((used @ [nsi]) @ mid @ [n]) (r'\<lparr>total_ns := total_ns r' + uint n, cnt := cnt r' + 1\<rparr>)"
          "d r' ! unat n = stop_count" "\<forall>k < length (d r'). k \<noteq> unat n \<longrightarrow> d r' ! k < stop_count"
        then show ?thesis using step neq by (intro disjI2 exI [of _ r'] exI [of _ n] exI [of _ "nsi # mid"] exI [of _ rest]) simp
      qed
    qed
  qed
qed

lemma hits_total: "(\<Sum>k < unat (4 * p). hits p ss k) = length (in_range p ss)"
proof (induction ss)
  case (Cons s ss)
  have h: "hits p (s # ss) k = hits p [s] k + hits p ss k" for k using hits_append [of p "[s]" ss k] by simp
  have "(\<Sum>k < unat (4 * p). hits p [s] k) = (if s < 4 * p then 1 else 0)"
    by (simp add: hits_single word_less_nat_alt)
  then show ?case using Cons unfolding h sum.distrib by simp
qed (simp add: hits_def)

lemma pigeonhole:
  assumes "counted p used r" "below_stop r"
  shows "int (length (in_range p used)) \<le> int (unat (4 * p)) * (stop_count - 1)"
proof -
  have "int (length (in_range p used)) = (\<Sum>k < unat (4 * p). int (hits p used k))"
    unfolding hits_total [symmetric] by simp
  also have "\<dots> \<le> (\<Sum>k < unat (4 * p). stop_count - 1)"
    using assms by (intro sum_mono) (auto simp: counted_def below_stop_def)
  finally show ?thesis by simp
qed

lemma new_round_ok: "counted p [] (new_round p)" "below_stop (new_round p)"
  by (simp_all add: counted_def below_stop_def new_round_def hits_def stop_count_def)

lemma hits_beyond: "unat (4 * p) \<le> k \<Longrightarrow> hits p ss k = 0"
  by (induction ss) (auto simp: hits_def word_less_nat_alt)

lemma hits_le: "hits p ss k \<le> length (in_range p ss)"
  by (simp add: hits_def)



text \<open>
  A peak of 0 ns makes the vector empty and no measurement is in range: the next round never ends.
\<close>

theorem zero_peak_never_ends: "count_samples 0 samples r = Inr None"
  by (induction samples) auto

lemma tallied_new: "tallied [] \<lparr>counts = replicate n 0, max_count = 0, best_delta = 0\<rparr>"
  by (simp add: tallied_def)

lemma counted_keys_simps [simp]:
  "counted_keys key [] = []"
  "counted_keys key (x # xs) = (if key x < 300 then key x # counted_keys key xs else counted_keys key xs)"
  "counted_keys key (xs @ ys) = counted_keys key xs @ counted_keys key ys"
  by (simp_all add: counted_keys_def)

lemma tallied_step:
  assumes "tallied ks h" "k < 300" "unat k < length (counts h)"
  defines "v \<equiv> counts h ! unat k + 1"
  shows "tallied (ks @ [k])
    (if max_count h < v then h\<lparr>counts := (counts h)[unat k := v], max_count := v, best_delta := uint k\<rparr>
     else h\<lparr>counts := (counts h)[unat k := v]\<rparr>)"
proof -
  have v: "v = int (count_list (ks @ [k]) k)" using assms by (simp add: tallied_def)
  have c: "(counts h)[unat k := v] ! unat j = int (count_list (ks @ [k]) j)" if "j < 300" "unat j < length (counts h)" for j
    using assms(1,3) that v by (simp add: tallied_def nth_list_update flip: word_unat_eq_iff)
  have m: "int (count_list (ks @ [k]) j) \<le> max v (max_count h)" for j
    using assms(1) v by (auto simp: tallied_def max_def intro: order_trans)
  show ?thesis
  proof (cases "max_count h < v")
    case True
    then show ?thesis using c m v by (auto simp: tallied_def)
  next
    case False
    have "ks \<noteq> []" using False v assms(1) by (auto simp: tallied_def)
    then obtain b where b: "b \<in> set ks" "best_delta h = uint b" "max_count h = int (count_list ks b)"
      using assms(1) by (auto simp: tallied_def)
    have "b \<noteq> k" using False v b(3) by auto
    then show ?thesis using False c m b by (auto simp: tallied_def intro!: bexI [of _ b])
  qed
qed

lemma count_point_ok:
  assumes "tallied ks h" "uint (key x) < int (length (counts h)) \<or> 300 \<le> key x"
  shows "\<exists>h'. count_point key key low c x h = Inr h' \<and> length (counts h') = length (counts h) \<and>
    tallied (ks @ counted_keys key (filter (\<lambda>x. data_min x - low = c) [x])) h'"
proof (cases "data_min x - low = c \<and> key x < 300")
  case True
  then have r: "uint (key x) < int (length (counts h))" using assms(2) by auto
  then have u: "unat (key x) < length (counts h)" "nat (uint (key x)) = unat (key x)" by (simp_all add: unat_in_range)
  show ?thesis using True r u tallied_step [OF assms(1) _ u(1)]
    by (simp add: count_point_def get_at_def set_at_def split: if_splits)
qed (use assms in \<open>auto simp: count_point_def\<close>)

lemma count_points_ok:
  assumes "tallied ks h" "\<forall>x \<in> set xs. uint (key x) < int (length (counts h)) \<or> 300 \<le> key x"
  shows "\<exists>h'. count_points key key low c xs h = Inr h' \<and> length (counts h') = length (counts h) \<and>
    tallied (ks @ counted_keys key (filter (\<lambda>x. data_min x - low = c) xs)) h'"
  using assms
proof (induction xs arbitrary: ks h)
  case (Cons x xs)
  obtain h1 where h1: "count_point key key low c x h = Inr h1" "length (counts h1) = length (counts h)"
    "tallied (ks @ counted_keys key (filter (\<lambda>x. data_min x - low = c) [x])) h1"
    using count_point_ok [of ks h key x low c] Cons.prems by auto
  from Cons.IH [OF h1(3)] Cons.prems(2) h1 show ?case by (auto split: if_splits)
qed auto

lemma count_bins_ok:
  assumes "tallied ks h" "\<forall>x \<in> set xs. uint (key x) < int (length (counts h)) \<or> 300 \<le> key x"
  shows "\<exists>h'. count_bins key key low cs xs h = Inr h' \<and>
    tallied (ks @ counted_keys key (concat (map (\<lambda>c. filter (\<lambda>x. data_min x - low = c) xs) cs))) h'"
  using assms
proof (induction cs arbitrary: ks h)
  case (Cons c cs)
  obtain h1 where h1: "count_points key key low c xs h = Inr h1" "length (counts h1) = length (counts h)"
    "tallied (ks @ counted_keys key (filter (\<lambda>x. data_min x - low = c) xs)) h1"
    using count_points_ok [OF Cons.prems, of low c] by auto
  from Cons.IH [OF h1(3)] Cons.prems(2) h1 show ?case by auto
qed auto

lemma mset_bins:
  "distinct cs \<Longrightarrow> mset (concat (map (\<lambda>c. filter (\<lambda>x. b x = c) xs) cs)) = filter_mset (\<lambda>x. b x \<in> set cs) (mset xs)"
proof (induction cs)
  case (Cons c cs)
  then show ?case by (auto intro!: multiset_eqI)
qed simp

lemma tallied_mset: "mset ks = mset ks' \<Longrightarrow> tallied ks h = tallied ks' h"
proof -
  assume m: "mset ks = mset ks'"
  then have "count_list ks = count_list ks'" by (simp add: fun_eq_iff count_mset [symmetric] flip: count_mset)
  moreover have "set ks = set ks'" using m by (rule mset_eq_setD)
  ultimately show ?thesis unfolding tallied_def by (metis set_empty)
qed

lemma counted_keys_mset: "mset xs = mset ys \<Longrightarrow> mset (counted_keys key xs) = mset (counted_keys key ys)"
  by (simp add: counted_keys_def)

lemma as_int_small: "k < 2147483647 \<Longrightarrow> as_int k = uint k"
proof -
  assume "k < 2147483647"
  then have "uint k < 2147483647" by (simp add: word_less_def)
  then show ?thesis unfolding as_int_def
    by (simp add: signed_take_bit_eq_if_positive sint_uint unsigned_ucast_eq take_bit_int_eq_self bit_iff_odd div_pos_pos_trivial)
qed

lemma new_counts_ok: "0 \<le> m + 1 \<Longrightarrow> m < 2147483647 \<Longrightarrow> new_counts m = Inr (replicate (nat (m + 1)) 0)"
  by (simp add: new_counts_def)

lemma find_best_tallied:
  assumes "\<And>xs :: int list. xs \<noteq> [] \<Longrightarrow> mam_min xs = Min (set xs)" "\<And>xs :: int list. xs \<noteq> [] \<Longrightarrow> mam_max xs = Max (set xs)"
    and "data \<noteq> []" "\<forall>x \<in> set data. key x < 2147483647"
  shows "\<exists>h. find_best mam_min mam_max key key data = Inr h \<and> tallied (counted_keys key data) h"
proof -
  let ?low = "Min (data_min ` set data)" and ?high = "Max (data_min ` set data)"
  let ?m = "Max ((as_int \<circ> key) ` set data)" and ?cs = "[0..?high - ?low]"
  let ?bins = "concat (map (\<lambda>c. filter (\<lambda>x. data_min x - ?low = c) data) ?cs)"
  have mm: "mam_min (map data_min data) = ?low" "mam_max (map data_min data) = ?high" "mam_max (map (as_int \<circ> key) data) = ?m"
    using assms(3) assms(1) [of "map data_min data"] assms(2) [of "map data_min data"] assms(2) [of "map (as_int \<circ> key) data"] unfolding map_is_Nil_conv set_map by blast+
  have ai: "as_int (key x) = uint (key x)" "uint (key x) < 2147483647" if "x \<in> set data" for x
    using assms(4) that as_int_small [of "key x"] by (auto simp: word_less_def)
  have le: "uint (key x) \<le> ?m" if "x \<in> set data" for x
    using that ai(1) [OF that] by (intro Max_ge) (auto intro!: image_eqI [of _ _ x])
  obtain y where y: "y \<in> set data" using assms(3) by (cases data) auto
  have "?m \<in> (as_int \<circ> key) ` set data" using assms(3) by (intro Max_in) auto
  then have m: "?m < 2147483647" using ai by auto
  have "0 \<le> ?m" using order_trans [OF _ le [OF y]] by simp
  with m have new: "new_counts ?m = Inr (replicate (nat (?m + 1)) 0)" by (intro new_counts_ok) simp_all
  let ?h0 = "\<lparr>counts = replicate (nat (?m + 1)) 0, max_count = 0, best_delta = 0\<rparr>"
  have "\<forall>x \<in> set data. uint (key x) < int (length (counts ?h0)) \<or> 300 \<le> key x"
  proof
    fix x assume "x \<in> set data"
    from le [OF this] \<open>0 \<le> ?m\<close> show "uint (key x) < int (length (counts ?h0)) \<or> 300 \<le> key x" by simp
  qed
  from count_bins_ok [OF tallied_new this, of ?low ?cs] obtain h
    where h: "count_bins key key ?low ?cs data ?h0 = Inr h" "tallied ([] @ counted_keys key ?bins) h" by blast
  have "mset ?bins = filter_mset (\<lambda>x. data_min x - ?low \<in> set ?cs) (mset data)" by (intro mset_bins) simp
  also have "\<dots> = mset data" by (auto simp: filter_mset_eq_conv)
  finally have "tallied (counted_keys key data) h" using h(2) tallied_mset [OF counted_keys_mset] unfolding append_Nil by blast
  moreover have "find_best mam_min mam_max key key data = Inr h"
    unfolding find_best_def Let_def mm new bindE.simps for_values_upto add_diff_cancel_right' by (rule h(1))
  ultimately show ?thesis by blast
qed



text \<open>
  The second histogram compares the count of delta1, not of delta2, with the largest count: a data point
  whose delta1 exceeds every delta2 is looked up outside the vector, and without that the value it
  finds need not be the most frequent one.
\<close>

theorem delta2_histogram_out_of_range:
  "find_best (\<lambda>xs. Min (set xs)) (\<lambda>xs. Max (set xs)) delta2 delta1 [\<lparr>data_min = 0, delta1 = 218, delta2 = 217\<rparr>] = Inl Out_of_range"
  by (simp add: find_best_def new_counts_def as_int_def count_point_def get_at_def set_at_def for_values_upto)

lemma replicate_2: "replicate 2 x = [x, x]"
  by (simp add: numeral_2_eq_2)

theorem delta2_histogram_wrong:
  "\<exists>h. find_best (\<lambda>xs. Min (set xs)) (\<lambda>xs. Max (set xs)) delta2 delta1
    [\<lparr>data_min = 0, delta1 = 0, delta2 = 0\<rparr>, \<lparr>data_min = 0, delta1 = 0, delta2 = 1\<rparr>, \<lparr>data_min = 0, delta1 = 0, delta2 = 1\<rparr>] = Inr h \<and>
    best_delta h = 0 \<and> max_count h = 1 \<and> counts h = [1, 2]"
  by (simp add: find_best_def new_counts_def as_int_def count_point_def get_at_def set_at_def for_values_upto replicate_2)

text \<open>
  The guard of the two counters of calibrate_cycles_per_ns compares the number of cycles as a 32-bit
  int and indexes with all 64 bits.
\<close>

theorem truncated_delta_out_of_range: "count_delta 217 4294967295 (replicate 434 0) t = Inl Out_of_range"
  by (simp add: count_delta_def as_int_def get_at_def)

text \<open>
  A benchmark is constructed exactly when no value has to be calibrated, and then has the given values.
\<close>

theorem constructor_calibrates_once:
  "new_Benchmark calibration a dl c ov = Inr b \<longleftrightarrow>
     a \<noteq> 0 \<and> dl \<noteq> 0 \<and> c \<noteq> 0 \<and> ov \<noteq> 0 \<and> b = \<lparr>m_now_offset = a, m_delta = dl, m_cycles_per_ns = c, s_stopwatch_overhead = ov\<rparr>"
  by (auto simp: new_Benchmark_def Let_def)

lemma near_zero [simp]: "\<not> near_target 0 w"
proof
  assume "near_target 0 w"
  then have "- 1 \<le> w" "w \<le> 1" by (simp_all add: near_target_def)
  from order_trans [OF this] show False by (simp add: word_le_def unsigned_minus_1_eq_mask mask_eq_exp_minus_1)
qed

lemma count_delta_ok:
  assumes "target_ok m cs t" "count_delta m w cs t = Inr (cs', t')"
  shows "target_ok m cs' t'"
  using assms by (auto simp: count_delta_def target_ok_def result_simps get_at_eq_Inr set_at_eq_Inr nth_list_update unat_in_range split: if_splits)

text \<open>
  The targets of calibrate_cycles_per_ns were measured ten times, and a ratio is only recorded when both
  targets are known.
\<close>

theorem cycles_body_ok:
  assumes "cycles_ok m s" "cycles_body m x s = Inr (s', stop)"
  shows "cycles_ok m s'"
proof -
  obtain d1 d2 d3 clocks where x: "x = (d1, d2, d3, clocks)" by (cases x)
  consider "near_target (target_delta1 s) d1 \<and> near_target (target_delta2 s) d2"
    | "\<not> (near_target (target_delta1 s) d1 \<and> near_target (target_delta2 s) d2)" "target_delta1 s = 0 \<or> target_delta2 s = 0"
    | "\<not> (near_target (target_delta1 s) d1 \<and> near_target (target_delta2 s) d2)" "\<not> (target_delta1 s = 0 \<or> target_delta2 s = 0)"
    by blast
  then show ?thesis
  proof cases
    case 1
    then have "target_delta1 s \<noteq> 0" "target_delta2 s \<noteq> 0" by auto
    then show ?thesis using 1 assms x by (auto simp: cycles_body_def cycles_ok_def Let_def)
  next
    case 2
    then have "ratios s = []" using assms(1) by (auto simp: cycles_ok_def)
    have "bindE (count_delta m d1 (delta1_count s) (target_delta1 s)) (\<lambda>(cs1, t1).
        bindE (count_delta m d2 (delta2_count s) (target_delta2 s)) (\<lambda>(cs2, t2).
          Inr (s\<lparr>delta1_count := cs1, target_delta1 := t1, delta2_count := cs2, target_delta2 := t2\<rparr>, False))) = Inr (s', stop)"
      using assms(2) unfolding x cycles_body_def prod.case if_not_P [OF 2(1)] if_P [OF 2(2)] .
    then obtain cs1 t1 cs2 t2
      where "count_delta m d1 (delta1_count s) (target_delta1 s) = Inr (cs1, t1)"
        "count_delta m d2 (delta2_count s) (target_delta2 s) = Inr (cs2, t2)"
        "s' = s\<lparr>delta1_count := cs1, target_delta1 := t1, delta2_count := cs2, target_delta2 := t2\<rparr>"
      by (auto simp: bindE_eq_Inr)
    then show ?thesis using assms(1) \<open>ratios s = []\<close> count_delta_ok by (simp add: cycles_ok_def) blast
  next
    case 3
    have "Inr (s, False) = (Inr (s', stop) :: _ result)"
      using assms(2) unfolding x cycles_body_def prod.case if_not_P [OF 3(1)] if_not_P [OF 3(2)] .
    then show ?thesis using assms(1) by simp
  qed
qed

lemma new_cycles_ok: "cycles_ok m (new_cycles m)"
  by (simp add: cycles_ok_def target_ok_def new_cycles_def)

end
