(* ===== verification/Benchmark_Loops.thy ===== *)
theory Benchmark_Loops
  imports Benchmark_Calibration Complex_Main
begin

text \<open>
  The loops around the rounds of the calibrations of \<^verbatim>\<open>src/benchmark.cxx\<close>, the constructor that runs all of them, and the
  threads of its \<^verbatim>\<open>main\<close>. A double is an element of a linearly ordered field, without rounding. The readings of
  the clock and of the stop watches are inputs; \<^const>\<open>None\<close> is the result when they do not suffice.
\<close>

section \<open>The least of several measurements\<close>

text \<open>
  A measurement: the difference of the two how_often in nanoseconds, the cycles that the two stop watches measured
  and the time stamps at which they were stopped.
\<close>

record sample =
  s_ns :: int
  s_delta1 :: "64 word"
  s_delta2 :: "64 word"
  s_stop1 :: "64 word"
  s_stop2 :: "64 word"

text \<open>The inner loop of \<^verbatim>\<open>calibrate_delta\<close>, and what it stores.\<close>

definition take_data :: "(int list \<Rightarrow> int) \<Rightarrow> int \<Rightarrow> sample list \<Rightarrow> Data" where
  "take_data mam_min int_now_offset xs =
     best_of mam_min (map (\<lambda>x. (s_ns x - int_now_offset, s_delta1 x, s_delta2 x)) xs) [] (0, 0)"

text \<open>The inner loop of \<^verbatim>\<open>calibrate_cycles_per_ns\<close>: \<^verbatim>\<open>delta1\<close>, \<^verbatim>\<open>delta2\<close>, \<^verbatim>\<open>delta3\<close> and \<^verbatim>\<open>clocks\<close>.\<close>

primrec least_sample ::
  "('r :: linordered_field list \<Rightarrow> 'r) \<Rightarrow> 'r \<Rightarrow> sample list \<Rightarrow> 'r list \<Rightarrow> 64 word \<times> 64 word \<times> 64 word \<times> 64 word \<Rightarrow>
     64 word \<times> 64 word \<times> 64 word \<times> 64 word"
where
  "least_sample mam_min offset [] ns_list least = least"
| "least_sample mam_min offset (x # xs) ns_list least =
     (let ns = of_int (s_ns x) - offset; ns_list' = ns_list @ [ns] in
      least_sample mam_min offset xs ns_list'
        (if ns = mam_min ns_list' then (s_delta1 x, s_delta2 x, s_stop2 x - s_stop1 x, of_int (s_ns x)) else least))"

section \<open>The loops\<close>

text \<open>\<^verbatim>\<open>calibrate_delta\<close>: each round takes its own data; the number of clocks and the rounds to come.\<close>

primrec calibrate_delta ::
  "(int list \<Rightarrow> int) \<Rightarrow> (int list \<Rightarrow> int) \<Rightarrow> int \<Rightarrow> sample list list list \<Rightarrow> (int \<times> sample list list list) option result"
where
  "calibrate_delta mam_min mam_max int_now_offset [] = Inr None"
| "calibrate_delta mam_min mam_max int_now_offset (points # rounds) =
     bindE (delta_round mam_min mam_max (map (take_data mam_min int_now_offset) points)) (\<lambda>best.
       case best of
         Some delta \<Rightarrow> Inr (Some (delta, rounds))
       | None \<Rightarrow> calibrate_delta mam_min mam_max int_now_offset rounds)"

text \<open>\<^verbatim>\<open>calibrate_cycles_per_ns\<close>: the ratios that were recorded when the loop is left.\<close>

primrec cycles_loop ::
  "('r :: linordered_field list \<Rightarrow> 'r) \<Rightarrow> 'r \<Rightarrow> int \<Rightarrow> sample list list \<Rightarrow> cycles_state \<Rightarrow> (cycles_state \<times> sample list list) option result"
where
  "cycles_loop mam_min offset delta_m [] s = Inr None"
| "cycles_loop mam_min offset delta_m (xs # rounds) s =
     bindE (cycles_body delta_m (least_sample mam_min offset xs [] (0, 0, 0, 0)) s) (\<lambda>(s', stop).
       if stop then Inr (Some (s', rounds)) else cycles_loop mam_min offset delta_m rounds s')"

definition cycles_per_ns :: "('r :: linordered_field list \<Rightarrow> 'r) \<Rightarrow> cycles_state \<Rightarrow> 'r" where
  "cycles_per_ns mam_avg s = mam_avg (map (\<lambda>(delta3, clocks). of_int (uint delta3) / of_int (uint clocks)) (ratios s))"

definition calibrate_cycles_per_ns ::
  "('r :: linordered_field list \<Rightarrow> 'r) \<Rightarrow> 'r \<Rightarrow> int \<Rightarrow> sample list list \<Rightarrow> (cycles_state \<times> sample list list) option result"
where
  "calibrate_cycles_per_ns mam_min offset delta_m rounds =
     (if delta_m < 0 then Inl Exception else cycles_loop mam_min offset delta_m rounds (new_cycles delta_m))"

section \<open>The constructor that calibrates everything\<close>

text \<open>
  The readings for the three calibrations and what \<^verbatim>\<open>calibrate_overhead\<close> of the stop watch (a submodule) finds.
  The result is the object, when the readings suffice.
\<close>

record machine =
  now_readings :: "32 word list"
  delta_readings :: "sample list list list"
  cycle_readings :: "sample list list"
  overhead :: int

record 'r mma =
  int_min :: "int list \<Rightarrow> int"
  int_max :: "int list \<Rightarrow> int"
  double_min :: "'r list \<Rightarrow> 'r"
  double_avg :: "'r list \<Rightarrow> 'r"

definition calibrated_Benchmark :: "'r :: linordered_field mma \<Rightarrow> machine \<Rightarrow> 'r Benchmark option result" where
  "calibrated_Benchmark M m =
     bindE (calibrate_now_offset 1000 (now_readings m)) (\<lambda>nw.
       case nw of
         None \<Rightarrow> Inr None
       | Some (r, _) \<Rightarrow>
           let offset = of_int (total_ns r) / of_int (cnt r);
               int_now_offset = c_div (total_ns r) (cnt r)
           in bindE (calibrate_delta (int_min M) (int_max M) int_now_offset (delta_readings m)) (\<lambda>dl.
                case dl of
                  None \<Rightarrow> Inr None
                | Some (delta_m, _) \<Rightarrow>
                    bindE (calibrate_cycles_per_ns (double_min M) offset delta_m (cycle_readings m)) (\<lambda>cl.
                      case cl of
                        None \<Rightarrow> Inr None
                      | Some (s, _) \<Rightarrow>
                          Inr (Some \<lparr>m_now_offset = offset, m_delta = delta_m,
                            m_cycles_per_ns = cycles_per_ns (double_avg M) s, s_stopwatch_overhead = overhead m\<rparr>))))"

section \<open>A steady round\<close>

text \<open>When every measurement is the same, the loops keep the last one.\<close>

definition steady :: "int \<Rightarrow> 64 word \<Rightarrow> 64 word \<Rightarrow> sample \<Rightarrow> bool" where
  "steady ns k z x \<longleftrightarrow> s_ns x = ns \<and> s_delta1 x = k \<and> s_delta2 x = k \<and> s_stop2 x - s_stop1 x = z"

lemma Min_replicate: "set xs \<subseteq> {a} \<Longrightarrow> xs \<noteq> [] \<Longrightarrow> Min (set xs) = a"
  by (metis Min_singleton set_empty subset_singletonD)

lemma best_of_steady:
  assumes min: "\<And>xs :: int list. xs \<noteq> [] \<Longrightarrow> mam_min xs = Min (set xs)"
    and "\<forall>x \<in> set xs. x = (a, k, k')" "xs \<noteq> [] \<or> ds = (k, k') \<and> ns_list \<noteq> []" "set ns_list \<subseteq> {a}"
  shows "best_of mam_min xs ns_list ds = \<lparr>data_min = a, delta1 = k, delta2 = k'\<rparr>"
  using assms(2-4)
proof (induction xs arbitrary: ns_list ds)
  case (Cons x xs)
  have "mam_min (ns_list @ [a]) = a" using min Min_replicate [of "ns_list @ [a]" a] Cons.prems(3) by simp
  then show ?case using Cons by simp
qed (use min Min_replicate [of _ a] in auto)

lemma least_sample_steady:
  assumes min: "\<And>xs :: 'r list. xs \<noteq> [] \<Longrightarrow> mam_min xs = Min (set xs)"
    and "\<forall>x \<in> set xs. steady ns k z x" "xs \<noteq> [] \<or> least = (k, k, z, of_int ns)" "set ns_list \<subseteq> {of_int ns - off}"
  shows "least_sample mam_min (off :: 'r :: linordered_field) xs ns_list least = (k, k, z, of_int ns)"
  using assms(2-4)
proof (induction xs arbitrary: ns_list least)
  case (Cons x xs)
  have "mam_min (ns_list @ [of_int ns - off]) = of_int ns - off"
    using min Min_replicate [of "ns_list @ [of_int ns - off]" "of_int ns - off"] Cons.prems(3) by simp
  then show ?case using Cons by (simp add: Let_def steady_def)
qed simp

lemma take_data_steady:
  assumes "\<And>xs :: int list. xs \<noteq> [] \<Longrightarrow> mam_min xs = Min (set xs)" "\<forall>x \<in> set xs. steady ns k z x" "xs \<noteq> []"
  shows "take_data mam_min off xs = \<lparr>data_min = ns - off, delta1 = k, delta2 = k\<rparr>"
  unfolding take_data_def using assms by (intro best_of_steady) (auto simp: steady_def)

section \<open>The number of clocks of a steady machine\<close>

lemma count_points_cong:
  "\<forall>x \<in> set data. key x = key' x \<and> look x = look' x \<Longrightarrow> count_points key look low c data = count_points key' look' low c data"
  by (induction data) (rule ext, simp add: count_point_def cong: if_cong)+

lemma find_best_cong:
  assumes "\<forall>x \<in> set data. key x = key' x \<and> look x = look' x"
  shows "find_best mam_min mam_max key look data = find_best mam_min mam_max key' look' data"
proof -
  have "count_bins key look low cs data = count_bins key' look' low cs data" for low cs
    by (induction cs) (rule ext, simp add: count_points_cong [OF assms])+
  moreover have "map (as_int \<circ> key) data = map (as_int \<circ> key') data" using assms by simp
  ultimately show ?thesis unfolding find_best_def by (simp only:)
qed

lemma find_best_steady:
  assumes "\<And>xs :: int list. xs \<noteq> [] \<Longrightarrow> mam_min xs = Min (set xs)" "\<And>xs :: int list. xs \<noteq> [] \<Longrightarrow> mam_max xs = Max (set xs)"
    and "\<forall>x \<in> set data. delta1 x = k" "data \<noteq> []" "k < 300"
  shows "\<exists>h. find_best mam_min mam_max delta1 delta1 data = Inr h \<and> best_delta h = uint k \<and> max_count h = int (length data)"
proof -
  have "k < 2147483647" by (rule less_trans [OF assms(5)]) simp
  then obtain h where h: "find_best mam_min mam_max delta1 delta1 data = Inr h" "tallied (counted_keys delta1 data) h"
    using find_best_tallied [OF assms(1,2,4), of delta1] assms(3) by auto
  have "map delta1 data = replicate (length data) k" using assms(3) by (simp add: map_replicate_const [symmetric])
  then have keys: "counted_keys delta1 data = replicate (length data) k" using assms(5) by (simp add: counted_keys_def)
  then have "set (counted_keys delta1 data) = {k}" using assms(4) by simp
  moreover have "count_list (replicate n k) k = n" for n by (induction n) auto
  ultimately show ?thesis using h keys assms(4) by (auto simp: tallied_def)
qed

lemma delta_round_steady:
  assumes "\<And>xs :: int list. xs \<noteq> [] \<Longrightarrow> mam_min xs = Min (set xs)" "\<And>xs :: int list. xs \<noteq> [] \<Longrightarrow> mam_max xs = Max (set xs)"
    and "\<forall>x \<in> set data. delta1 x = k \<and> delta2 x = k" "40000 \<le> length data" "k < 300"
  shows "delta_round mam_min mam_max data = Inr (Some (uint k))"
proof -
  have "data \<noteq> []" using assms(4) by auto
  with find_best_steady [OF assms(1,2) _ this assms(5)] assms(3) obtain h
    where h: "find_best mam_min mam_max delta1 delta1 data = Inr h" "best_delta h = uint k" "max_count h = int (length data)" by auto
  moreover have "find_best mam_min mam_max delta2 delta1 data = Inr h"
    using find_best_cong [of data delta2 delta1 delta1 delta1 mam_min mam_max] assms(3) h(1) by auto
  ultimately show ?thesis using assms(4) by (simp add: delta_round_def)
qed

lemma calibrate_delta_steady:
  assumes "\<And>xs :: int list. xs \<noteq> [] \<Longrightarrow> mam_min xs = Min (set xs)" "\<And>xs :: int list. xs \<noteq> [] \<Longrightarrow> mam_max xs = Max (set xs)"
    and "\<forall>xs \<in> set points. xs \<noteq> [] \<and> (\<forall>x \<in> set xs. steady ns k z x)" "40000 \<le> length points" "k < 300"
  shows "calibrate_delta mam_min mam_max off (points # rounds) = Inr (Some (uint k, rounds))"
proof -
  have "take_data mam_min off xs = \<lparr>data_min = ns - off, delta1 = k, delta2 = k\<rparr>" if "xs \<in> set points" for xs
    using assms(3) that by (intro take_data_steady [OF assms(1)]) auto
  then have "delta_round mam_min mam_max (map (take_data mam_min off) points) = Inr (Some (uint k))"
    using assms(4) by (intro delta_round_steady [OF assms(1,2)]) (auto simp: assms(5))
  then show ?thesis by simp
qed

section \<open>The cycles of a steady machine\<close>

text \<open>The state after \<^verbatim>\<open>c\<close> rounds, as long as the targets are not known.\<close>

definition counting :: "64 word \<Rightarrow> int \<Rightarrow> nat \<Rightarrow> cycles_state" where
  "counting k dm c =
     (let cs = (replicate (nat (2 * dm)) 0)[unat k := int c]; t = (if c < 10 then 0 else k) in
      \<lparr>delta1_count = cs, delta2_count = cs, target_delta1 = t, target_delta2 = t, ratios = []\<rparr>)"

lemma near_self:
  assumes "k < 300" "k \<noteq> 0"
  shows "near_target k k"
proof -
  have u: "uint k < 300" "0 < uint k" using assms by (auto simp: word_less_def word_neq_0_conv)
  then have "uint (k + 1) = uint k + 1" by (simp add: uint_plus_if')
  then show ?thesis using u uint_sub_ge [of k 1] by (simp add: near_target_def word_le_def uint_sub_if')
qed

lemma count_delta_steady:
  assumes "0 < uint k" "uint k < 300" "k < 300" "c < 10"
  shows "count_delta (uint k) k ((replicate (nat (2 * uint k)) 0)[unat k := int c]) 0 =
    Inr ((replicate (nat (2 * uint k)) 0)[unat k := int (Suc c)], if Suc c < 10 then 0 else k)"
proof -
  have "k < 2147483647" by (rule less_trans [OF assms(3)]) simp
  then have "as_int k = uint k" by (rule as_int_small)
  moreover have "unat k < nat (2 * uint k)" using assms(1) by (simp add: unat_in_range)
  ultimately show ?thesis using assms by (simp add: count_delta_def get_at_def set_at_def add.commute)
qed

lemma cycles_body_counting:
  assumes "k \<noteq> 0" "k < 300" "c < 10"
  shows "cycles_body (uint k) (k, k, z, clocks) (counting k (uint k) c) = Inr (counting k (uint k) (Suc c), False)"
proof -
  have "0 < uint k" "uint k < 300" using assms by (auto simp: word_less_def word_neq_0_conv)
  from count_delta_steady [OF this assms(2,3)] assms(3) show ?thesis by (simp add: cycles_body_def counting_def Let_def)
qed

lemma cycles_body_near:
  assumes "near_target k k" "target_delta1 s = k" "target_delta2 s = k"
  shows "cycles_body dm (k, k, z, clocks) s = Inr (s\<lparr>ratios := ratios s @ [(z, clocks)]\<rparr>, length (ratios s) + 1 = 20)"
  using assms by (simp add: cycles_body_def Let_def)

lemma cycles_loop_counting:
  assumes "k \<noteq> 0" "k < 300" and m: "\<And>xs. xs \<in> set rounds \<Longrightarrow> least_sample mam_min off xs [] (0, 0, 0, 0) = (k, k, z, clocks)"
    and "c \<le> 10" "10 - c \<le> length rounds"
  shows "cycles_loop mam_min off (uint k) rounds (counting k (uint k) c) =
    cycles_loop mam_min off (uint k) (drop (10 - c) rounds) (counting k (uint k) 10)"
  using m assms(4,5)
proof (induction rounds arbitrary: c)
  case (Cons xs rounds)
  show ?case
  proof (cases "c < 10")
    case True
    then have "10 - c = Suc (10 - Suc c)" by simp
    then show ?thesis using True Cons cycles_body_counting [OF assms(1,2) True] by simp
  qed (use Cons.prems in simp)
qed simp

lemma cycles_loop_near:
  assumes "near_target k k" and m: "\<And>xs. xs \<in> set rounds \<Longrightarrow> least_sample mam_min off xs [] (0, 0, 0, 0) = (k, k, z, clocks)"
    and "target_delta1 s = k" "target_delta2 s = k" "length (ratios s) < 20" "20 - length (ratios s) \<le> length rounds"
  shows "cycles_loop mam_min off dm rounds s =
    Inr (Some (s\<lparr>ratios := ratios s @ replicate (20 - length (ratios s)) (z, clocks)\<rparr>, drop (20 - length (ratios s)) rounds))"
  using m assms(3-6)
proof (induction rounds arbitrary: s)
  case (Cons xs rounds)
  note body = cycles_body_near [OF assms(1) Cons.prems(2,3), of dm z clocks]
  show ?case
  proof (cases "length (ratios s) = 19")
    case True
    then show ?thesis using Cons.prems(1) body by simp
  next
    case False
    then have "20 - length (ratios s) = Suc (19 - length (ratios s))" using Cons.prems(4) by simp
    then show ?thesis using Cons body False by simp
  qed
qed simp

lemma cycles_steady:
  assumes "\<And>xs :: 'r list. xs \<noteq> [] \<Longrightarrow> mam_min xs = Min (set xs)"
    and "\<forall>xs \<in> set rounds. xs \<noteq> [] \<and> (\<forall>x \<in> set xs. steady ns k z x)" "30 \<le> length rounds" "k \<noteq> 0" "k < 300"
  shows "\<exists>s. calibrate_cycles_per_ns mam_min (off :: 'r :: linordered_field) (uint k) rounds = Inr (Some (s, drop 30 rounds)) \<and>
    ratios s = replicate 20 (z, of_int ns)"
proof -
  have m: "least_sample mam_min off xs [] (0, 0, 0, 0) = (k, k, z, of_int ns)" if "xs \<in> set rounds" for xs
    using assms(2) that by (intro least_sample_steady [OF assms(1)]) auto
  have start: "new_cycles (uint k) = counting k (uint k) 0"
    by (simp add: new_cycles_def counting_def Let_def list_update_same_conv list_update_beyond)
       (metis list_update_id nth_replicate list_update_beyond not_le_imp_less length_replicate)
  let ?s = "counting k (uint k) 10"
  have "cycles_loop mam_min off (uint k) (drop 10 rounds) ?s =
      Inr (Some (?s\<lparr>ratios := ratios ?s @ replicate (20 - length (ratios ?s)) (z, of_int ns)\<rparr>, drop (20 - length (ratios ?s)) (drop 10 rounds)))"
    using assms(3) m by (intro cycles_loop_near [OF near_self [OF assms(5,4)]]) (auto simp: counting_def Let_def dest: in_set_dropD)
  moreover have "cycles_loop mam_min off (uint k) rounds (counting k (uint k) 0) = cycles_loop mam_min off (uint k) (drop (10 - 0) rounds) ?s"
    using assms(3) m by (intro cycles_loop_counting [OF assms(4,5)]) auto
  ultimately show ?thesis by (simp add: calibrate_cycles_per_ns_def start counting_def Let_def)
qed

section \<open>The overhead of now() on a steady machine\<close>

lemma count_samples_steady:
  assumes "p < 4 * q" "length (d r) = unat (4 * q)" "d r ! unat p = int v" "v < 1000000" "1000000 - v \<le> n" "cnt r = int v" "total_ns r = int v * uint p"
  shows "\<exists>r'. count_samples q (replicate n p) r = Inr (Some (r', p, replicate (n - (1000000 - v)) p)) \<and>
    cnt r' = 999999 \<and> total_ns r' = 999999 * uint p"
  using assms(2-7)
proof (induction n arbitrary: r v)
  case (Suc n)
  have i: "uint p < int (length (d r))" using assms(1) Suc.prems(1) by (simp add: word_less_def)
  then have at: "get_at (d r) (uint p) = Inr (int v)" "set_at (d r) (uint p) (int v + 1) = Inr ((d r)[unat p := int v + 1])"
    using Suc.prems(2) by (simp_all add: get_at_def set_at_def)
  show ?case
  proof (cases "v = 999999")
    case True
    then show ?thesis using assms(1) at Suc.prems by (simp add: stop_count_def)
  next
    case False
    let ?r = "r\<lparr>d := (d r)[unat p := int v + 1], total_ns := total_ns r + uint p, cnt := int v + 1\<rparr>"
    have v: "v < 999999" using False Suc.prems(3) by simp
    then have "to_int (cnt r + 1) = Inr (int v + 1)" using Suc.prems(5) by (simp add: to_int_def)
    then have "count_samples q (replicate (Suc n) p) r = count_samples q (replicate n p) ?r"
      using assms(1) at v by (simp add: stop_count_def)
    moreover have "\<exists>r'. count_samples q (replicate n p) ?r = Inr (Some (r', p, replicate (n - (1000000 - Suc v)) p)) \<and>
        cnt r' = 999999 \<and> total_ns r' = 999999 * uint p"
      using Suc.prems v i by (intro Suc.IH) (simp_all add: unat_in_range algebra_simps)
    moreover have "Suc n - (1000000 - v) = n - (1000000 - Suc v)" using v by simp
    ultimately show ?thesis by simp
  qed
qed simp

lemma round_steady:
  assumes "p < 4 * q" "1000000 \<le> n"
  shows "\<exists>r'. count_samples q (replicate n p) (new_round q) = Inr (Some (r', p, replicate (n - 1000000) p)) \<and>
    cnt r' = 999999 \<and> total_ns r' = 999999 * uint p"
  using count_samples_steady [OF assms(1), of "new_round q" 0 n] assms
  by (simp add: new_round_def word_less_nat_alt)

lemma now_offset_steady:
  assumes "0 < p" "p < 4000" "2000000 \<le> n"
  shows "\<exists>r. calibrate_now_offset 1000 (replicate n p) = Inr (Some (r, p)) \<and> cnt r = 999999 \<and> total_ns r = 999999 * uint p"
proof -
  have "uint p < 4000" "0 < uint p" using assms by (auto simp: word_less_def)
  then have "p < 4 * p" by (simp add: word_less_def uint_mult_lem uint_word_ariths)
  obtain r where r: "count_samples 1000 (replicate n p) (new_round 1000) = Inr (Some (r, p, replicate (n - 1000000) p))"
    "cnt r = 999999" "total_ns r = 999999 * uint p"
    using round_steady [of p 1000 n] assms by auto
  have n: "1000000 \<le> n - 1000000" using assms(3) by simp
  obtain r2 where r2: "count_samples p (replicate (n - 1000000) p) (new_round p) = Inr (Some (r2, p, replicate (n - 1000000 - 1000000) p))"
    "cnt r2 = 999999" "total_ns r2 = 999999 * uint p"
    using round_steady [OF \<open>p < 4 * p\<close> n] by blast
  show ?thesis using r r2 by (cases "p = 1000") (simp_all add: calibrate_now_offset.simps [of 1000] calibrate_now_offset.simps [of p])
qed

section \<open>Properties\<close>

definition min_max_avg :: "'r :: linordered_field mma \<Rightarrow> bool" where
  "min_max_avg M \<longleftrightarrow>
     (\<forall>xs. xs \<noteq> [] \<longrightarrow> int_min M xs = Min (set xs) \<and> int_max M xs = Max (set xs)) \<and>
     (\<forall>xs. xs \<noteq> [] \<longrightarrow> double_min M xs = Min (set xs) \<and> double_avg M xs = sum_list xs / of_nat (length xs))"



section \<open>The threads of main\<close>

text \<open>
  \<^verbatim>\<open>run1\<close> and the functor that main measures increment the same atomic counter. \<^verbatim>\<open>calls\<close> are the calls of the functor
  that \<^verbatim>\<open>measure\<close> still makes, by their number of turns, and \<^verbatim>\<open>r\<close> the turns of the current call that were made.
\<close>

record bench_threads =
  s_atomic :: "32 word"
  run1_cnt :: int
  functor_calls :: "nat list"
  functor_r :: nat
  bv :: int

definition run1_turn :: "bench_threads \<Rightarrow> bench_threads" where
  "run1_turn s =
     (let cnt = run1_cnt s + 1; s1 = s\<lparr>run1_cnt := cnt\<rparr> in
      if cnt < 1000000000 then s1\<lparr>s_atomic := s_atomic s + 1\<rparr> else s1)"

definition functor_turn :: "bench_threads \<Rightarrow> bench_threads" where
  "functor_turn s =
     (case functor_calls s of
        [] \<Rightarrow> s
      | rm # calls \<Rightarrow>
          if functor_r s < rm then s\<lparr>bv := sint (s_atomic s), s_atomic := s_atomic s + 1, functor_r := functor_r s + 1\<rparr>
          else s\<lparr>functor_calls := calls, functor_r := 0\<rparr>)"

text \<open>\<^verbatim>\<open>how_often\<close> tells how often \<^verbatim>\<open>measure\<close> calls the functor for a value of \<^verbatim>\<open>rm\<close>.\<close>

definition bench_start :: "(nat \<Rightarrow> nat) \<Rightarrow> bench_threads" where
  "bench_start how_often =
     \<lparr>s_atomic = 0, run1_cnt = 0, functor_calls = concat (map (\<lambda>rm. replicate (how_often rm) rm) [1..<100]), functor_r = 0, bv = 0\<rparr>"

inductive bench_step :: "bench_threads \<Rightarrow> bench_threads \<Rightarrow> bool" where
  run1_runs: "run1_cnt s < 1000000000 \<Longrightarrow> bench_step s (run1_turn s)"
| main_measures: "functor_calls s \<noteq> [] \<Longrightarrow> bench_step s (functor_turn s)"

text \<open>The increments that were made and those that are still to come.\<close>

definition bench_ok :: "nat \<Rightarrow> bench_threads \<Rightarrow> bool" where
  "bench_ok all_turns s \<longleftrightarrow> run1_cnt s \<le> 1000000000 \<and> (\<forall>rm \<in> set (take 1 (functor_calls s)). functor_r s \<le> rm) \<and>
     (functor_calls s = [] \<longrightarrow> functor_r s = 0) \<and>
     s_atomic s = of_int (min (run1_cnt s) 999999999) + of_int (int all_turns + int (functor_r s) - int (sum_list (functor_calls s)))"

interpretation bench: inductive_invariant "\<lambda>s. s = bench_start how_often" bench_step "bench_ok (sum_list (functor_calls (bench_start how_often)))" for how_often
proof
  show "bench_ok (sum_list (functor_calls (bench_start how_often))) s" if "s = bench_start how_often" for s
    using that by (auto simp: bench_ok_def bench_start_def)
  fix s t assume ok: "bench_ok (sum_list (functor_calls (bench_start how_often))) s" and "bench_step s t"
  from this(2) show "bench_ok (sum_list (functor_calls (bench_start how_often))) t"
  proof cases
    case run1_runs
    then show ?thesis using ok by (cases "run1_cnt s = 999999999") (auto simp: bench_ok_def run1_turn_def Let_def)
  next
    case main_measures
    then show ?thesis using ok
      by (cases "functor_calls s") (auto simp: bench_ok_def functor_turn_def split: list.splits)
  qed
qed

text \<open>
  No increment is lost: when both threads have ended, the counter is the number of increments of the loop of run1
  and of all calls of the functor, as an int.
\<close>

theorem no_increment_is_lost:
  assumes "reach (\<lambda>s. s = bench_start how_often) bench_step s" "\<not> (\<exists>s'. bench_step s s')"
  shows "s_atomic s = of_nat (999999999 + sum_list (concat (map (\<lambda>rm. replicate (how_often rm) rm) [1..<100])))"
proof -
  have "run1_cnt s \<ge> 1000000000" "functor_calls s = []" using assms(2) by (meson run1_runs main_measures not_less)+
  then show ?thesis using bench.inv_reach [OF assms(1)] by (simp add: bench_ok_def bench_start_def)
qed

end
