(* ===== verification/Futex_Model.thy ===== *)
theory Futex_Model
  imports Prelude
begin

unbundle bit_operations_syntax

text \<open>
  The futex that \<^verbatim>\<open>src/genmc_spinsemaphore_test.c\<close> gives to the spin semaphore under test, and the check
  that its posting thread makes. The operations of the semaphore itself (\<^verbatim>\<open>post\<close>, \<^verbatim>\<open>wait\<close>,
  \<^verbatim>\<open>slow_wait\<close>) are in headers that the build generates: here they are arbitrary changes of \<^verbatim>\<open>m_word\<close>
  and arbitrary calls of the futex. Each section that holds \<^verbatim>\<open>qad_mutex\<close> accesses \<^verbatim>\<open>m_word\<close> once, so it
  is one step.
\<close>

section \<open>The fields of the word\<close>

definition tokens_mask :: "64 word" where
  "tokens_mask = 0xffffffff"

definition spinner_mask :: "64 word" where
  "spinner_mask = 0x100000000"

definition futex_wake_mask :: "64 word" where
  "futex_wake_mask = 0xfe00000000"

definition futex_woke_bit :: "64 word" where
  "futex_woke_bit = 0x10000000000"

definition futex_woke_mask :: "64 word" where
  "futex_woke_mask = 0xff0000000000"

definition futex_woke_shift :: nat where
  "futex_woke_shift = 40"

definition nwaiters_shift :: nat where
  "nwaiters_shift = 48"

section \<open>The futex\<close>

record futex =
  m_word :: "64 word"
  qad_ntokens :: "32 word"
  qad_nwaiters :: int

definition new_futex :: futex where
  "new_futex = \<lparr>m_word = 0, qad_ntokens = 0, qad_nwaiters = 0\<rparr>"

text \<open>\<^verbatim>\<open>futex_wait\<close>: the first section, which may return -1, and a turn of the loop, which may take a token.\<close>

definition futex_wait_enter :: "32 word \<Rightarrow> futex \<Rightarrow> (futex \<times> int) result" where
  "futex_wait_enter expected s =
     (if (ucast (m_word s) :: 32 word) = expected
      then bindE (to_int (qad_nwaiters s + 1)) (\<lambda>nw. Inr (s\<lparr>qad_nwaiters := nw\<rparr>, 0))
      else Inr (s, - 1))"

definition futex_wait_turn :: "futex \<Rightarrow> (futex \<times> bool) result" where
  "futex_wait_turn s =
     (if qad_ntokens s > 0 then
        bindE (to_int (qad_nwaiters s - 1)) (\<lambda>nw.
          Inr (s\<lparr>m_word := m_word s + futex_woke_bit, qad_ntokens := qad_ntokens s - 1, qad_nwaiters := nw\<rparr>, True))
      else Inr (s, False))"

text \<open>In the comparison and the subtraction of \<^verbatim>\<open>futex_wake\<close> the signed number of waiters is converted to unsigned.\<close>

definition futex_wake :: "32 word \<Rightarrow> futex \<Rightarrow> (futex \<times> 32 word) result" where
  "futex_wake n_threads s =
     bindE (assertE (word_of_int (qad_nwaiters s) \<ge> qad_ntokens s)) (\<lambda>_.
       let actual_waiters = word_of_int (qad_nwaiters s) - qad_ntokens s;
           woken_up = (if n_threads \<le> actual_waiters then n_threads else actual_waiters)
       in Inr (s\<lparr>qad_ntokens := qad_ntokens s + woken_up\<rparr>, woken_up))"

text \<open>The check of \<^verbatim>\<open>post_thread\<close> after each \<^verbatim>\<open>post\<close>, with the shift of the number of wakers as an argument.\<close>

definition post_check :: "nat \<Rightarrow> futex \<Rightarrow> unit result" where
  "post_check wake_shift s =
     (let word = m_word s;
          nwaiters = uint (drop_bit nwaiters_shift word);
          ntokens = uint (word AND tokens_mask);
          have_spinner = word AND spinner_mask \<noteq> 0;
          futex_wakers = uint (drop_bit wake_shift (word AND futex_wake_mask));
          futex_wokers = uint (drop_bit futex_woke_shift (word AND futex_woke_mask))
      in bindE (assertE (nwaiters \<ge> qad_nwaiters s)) (\<lambda>_.
         assertE (\<not> (qad_nwaiters s > 0 \<and> \<not> have_spinner \<and> ntokens > futex_wokers \<and> qad_ntokens s = 0 \<and> futex_wakers = 0))))"

section \<open>Threads that use the futex\<close>

datatype futex_pc = Outside | Waiting | Returned int

text \<open>The futex, its threads, and how many wake-ups were granted and how many waits have ended.\<close>

record futex_run =
  ftx :: futex
  pcs :: "futex_pc list"
  granted :: nat
  woken :: nat

definition new_run :: "nat \<Rightarrow> futex_run" where
  "new_run n = \<lparr>ftx = new_futex, pcs = replicate n Outside, granted = 0, woken = 0\<rparr>"

inductive futex_step :: "futex_run \<Rightarrow> futex_run \<Rightarrow> bool" where
  enters: "i < length (pcs r) \<Longrightarrow> pcs r ! i \<noteq> Waiting \<Longrightarrow> futex_wait_enter e (ftx r) = Inr (f, ret) \<Longrightarrow>
    futex_step r (r\<lparr>ftx := f, pcs := (pcs r)[i := if ret = 0 then Waiting else Returned ret]\<rparr>)"
| turns: "i < length (pcs r) \<Longrightarrow> pcs r ! i = Waiting \<Longrightarrow> futex_wait_turn (ftx r) = Inr (f, got) \<Longrightarrow>
    futex_step r (if got then r\<lparr>ftx := f, pcs := (pcs r)[i := Returned 0], woken := woken r + 1\<rparr> else r)"
| wakes: "i < length (pcs r) \<Longrightarrow> pcs r ! i \<noteq> Waiting \<Longrightarrow> futex_wake k (ftx r) = Inr (f, w) \<Longrightarrow>
    futex_step r (r\<lparr>ftx := f, granted := granted r + unat w\<rparr>)"
| elsewhere: "futex_step r (r\<lparr>ftx := (ftx r)\<lparr>m_word := w\<rparr>\<rparr>)"

section \<open>Tokens and waiters\<close>

definition waiting :: "futex_run \<Rightarrow> nat" where
  "waiting r = length (filter (\<lambda>p. p = Waiting) (pcs r))"

definition run_ok :: "nat \<Rightarrow> futex_run \<Rightarrow> bool" where
  "run_ok n r \<longleftrightarrow> length (pcs r) = n \<and> qad_nwaiters (ftx r) = int (waiting r) \<and>
     unat (qad_ntokens (ftx r)) \<le> waiting r \<and> granted r = woken r + unat (qad_ntokens (ftx r))"

lemma waiting_le: "waiting r \<le> length (pcs r)"
  by (simp add: waiting_def)

lemma waiting_update:
  assumes "i < length (pcs r)"
  shows "waiting (r\<lparr>ftx := f, pcs := (pcs r)[i := p]\<rparr>) + (if pcs r ! i = Waiting then 1 else 0) = waiting r + (if p = Waiting then 1 else 0)"
  using filter_update [OF assms, of "\<lambda>p. p = Waiting" p] by (simp add: waiting_def)

lemma waiting_simps [simp]:
  "waiting (r\<lparr>ftx := f\<rparr>) = waiting r" "waiting (r\<lparr>granted := g\<rparr>) = waiting r" "waiting (r\<lparr>woken := v\<rparr>) = waiting r"
  by (simp_all add: waiting_def)

lemma futex_wake_ok:
  assumes "run_ok n r" "n < 2147483648"
  shows "\<exists>w. futex_wake k (ftx r) = Inr ((ftx r)\<lparr>qad_ntokens := qad_ntokens (ftx r) + w\<rparr>, w) \<and>
    unat w = min (unat k) (waiting r - unat (qad_ntokens (ftx r))) \<and>
    unat (qad_ntokens (ftx r) + w) = unat (qad_ntokens (ftx r)) + unat w"
proof -
  define t where "t = qad_ntokens (ftx r)"
  define a :: "32 word" where "a = of_nat (waiting r)"
  have small: "waiting r < 2147483648" using assms waiting_le [of r] by (simp add: run_ok_def)
  have ua: "unat a = waiting r" unfolding a_def using small by (simp add: unat_of_nat)
  have t: "t \<le> a" using assms(1) by (simp add: word_le_nat_alt ua t_def run_ok_def)
  have d: "unat (a - t) = waiting r - unat t" using t ua by (simp add: unat_sub)
  define w where "w = (if k \<le> a - t then k else a - t)"
  have w: "unat w = min (unat k) (waiting r - unat t)" unfolding w_def using d by (simp add: word_le_nat_alt min_def)
  have "unat t + unat w < 2 ^ 32" using w t ua small by (simp add: word_le_nat_alt)
  then have s: "unat (t + w) = unat t + unat w" by (subst unat_add_lem [symmetric]) simp
  have "word_of_int (qad_nwaiters (ftx r)) = a" using assms(1) by (simp add: run_ok_def a_def)
  then have "futex_wake k (ftx r) = Inr ((ftx r)\<lparr>qad_ntokens := t + w\<rparr>, w)"
    using t by (simp add: futex_wake_def Let_def w_def t_def)
  then show ?thesis using w s by (auto simp: t_def)
qed

interpretation futex: inductive_invariant "\<lambda>r. n < 2147483648 \<and> r = new_run n" futex_step "\<lambda>r. n < 2147483648 \<and> run_ok n r"
  for n
proof
  show "n < 2147483648 \<and> run_ok n r" if "n < 2147483648 \<and> r = new_run n" for r
    using that by (simp add: run_ok_def new_run_def new_futex_def waiting_def)
  fix r r' assume inv: "n < 2147483648 \<and> run_ok n r" and "futex_step r r'"
  from this(2) have "run_ok n r'"
  proof cases
    case (enters i e f ret)
    then show ?thesis using inv waiting_update [OF enters(2), where f = f and p = "if ret = 0 then Waiting else Returned ret"]
      by (auto simp: run_ok_def futex_wait_enter_def result_simps to_int_eq_Inr split: if_splits)
  next
    case (turns i f got)
    show ?thesis
    proof (cases got)
      case True
      then have f: "qad_ntokens (ftx r) > 0" "qad_nwaiters f = qad_nwaiters (ftx r) - 1" "qad_ntokens f = qad_ntokens (ftx r) - 1"
        using turns(4) by (auto simp: futex_wait_turn_def result_simps to_int_eq_Inr split: if_splits)
      then have "unat (qad_ntokens f) + 1 = unat (qad_ntokens (ftx r))" by (simp add: unat_minus_one unat_gt_0 word_gt_0)
      then show ?thesis using inv True turns f waiting_update [OF turns(2), where f = f and p = "Returned 0"] by (auto simp: run_ok_def waiting_def)
    qed (use turns inv in simp)
  next
    case (wakes i k f w)
    then show ?thesis using inv futex_wake_ok [of n r k] by (auto simp: run_ok_def waiting_def)
  next
    case (elsewhere w)
    then show ?thesis using inv by (simp add: run_ok_def)
  qed
  then show "n < 2147483648 \<and> run_ok n r'" using inv by simp
qed

text \<open>
  C31. The futex under every interleaving of fewer than 2^31 threads that wait, wake and change the word: the
  assertion of futex_wake never fails, it wakes as many threads as it is asked to or as there are threads
  that wait and were not woken yet, every granted wake-up ends exactly one wait, and a waiting thread
  returns at its next turn if and only if a granted wake-up is left.
\<close>

theorem futex_wakes_waiters:
  assumes "n < 2147483648" "reach (\<lambda>r. r = new_run n) futex_step r"
  shows "granted r = woken r + unat (qad_ntokens (ftx r)) \<and> unat (qad_ntokens (ftx r)) \<le> waiting r \<and>
    (\<exists>f w. futex_wake k (ftx r) = Inr (f, w) \<and> unat w = min (unat k) (waiting r - unat (qad_ntokens (ftx r)))) \<and>
    (\<forall>i < n. pcs r ! i = Waiting \<longrightarrow> (\<exists>f. futex_wait_turn (ftx r) = Inr (f, woken r < granted r)))"
proof -
  have "reach (\<lambda>r. n < 2147483648 \<and> r = new_run n) futex_step r" using assms(2,1) by (induction rule: reach.induct) (auto intro: reach.intros)
  from futex.inv_reach [OF this] have ok: "run_ok n r" by simp
  from futex_wake_ok [OF ok assms(1), of k] obtain w where w: "futex_wake k (ftx r) = Inr ((ftx r)\<lparr>qad_ntokens := qad_ntokens (ftx r) + w\<rparr>, w)"
    "unat w = min (unat k) (waiting r - unat (qad_ntokens (ftx r)))" by auto
  have "\<exists>f. futex_wait_turn (ftx r) = Inr (f, woken r < granted r)"
  proof (cases "qad_ntokens (ftx r) = 0")
    case True
    then show ?thesis using ok by (simp add: futex_wait_turn_def run_ok_def)
  next
    case False
    then have "0 < unat (qad_ntokens (ftx r))" by (simp add: unat_gt_0)
    moreover have "waiting r \<le> 2147483647" using assms(1) ok waiting_le [of r] by (simp add: run_ok_def)
    ultimately show ?thesis using False ok by (simp add: futex_wait_turn_def run_ok_def word_gt_0)
  qed
  then show ?thesis using ok w by (auto simp: run_ok_def)
qed

text \<open>
  Three threads of which two wait: five wake-ups are asked for, two are granted.
\<close>

theorem futex_wakes_waiters_witness:
  "\<exists>r. reach (\<lambda>r. r = new_run 3) futex_step r \<and> waiting r = 2 \<and> (\<exists>f w. futex_wake 5 (ftx r) = Inr (f, w) \<and> unat w = 2)"
proof -
  let ?r0 = "new_run 3"
  let ?f1 = "(ftx ?r0)\<lparr>qad_nwaiters := 1\<rparr>" let ?f2 = "(ftx ?r0)\<lparr>qad_nwaiters := 2\<rparr>"
  let ?r1 = "?r0\<lparr>ftx := ?f1, pcs := (pcs ?r0)[0 := if (0 :: int) = 0 then Waiting else Returned 0]\<rparr>"
  let ?r2 = "?r1\<lparr>ftx := ?f2, pcs := (pcs ?r1)[1 := if (0 :: int) = 0 then Waiting else Returned 0]\<rparr>"
  have "futex_step ?r0 ?r1" by (rule futex_step.enters [where e = 0]) (simp_all add: new_run_def new_futex_def futex_wait_enter_def)
  moreover have "futex_step ?r1 ?r2" by (rule futex_step.enters [where e = 0]) (simp_all add: new_run_def new_futex_def futex_wait_enter_def)
  moreover have "reach (\<lambda>r. r = new_run 3) futex_step ?r0" by (rule reach.reach_init) (rule refl)
  ultimately have r: "reach (\<lambda>r. r = new_run 3) futex_step ?r2" by (blast intro: reach.reach_step)
  have w: "waiting ?r2 = 2" "unat (qad_ntokens (ftx ?r2)) = 0" by (simp_all add: waiting_def new_run_def new_futex_def numeral_3_eq_3)
  from futex_wakes_waiters [OF _ r, of 5] have "\<exists>f w. futex_wake 5 (ftx ?r2) = Inr (f, w) \<and> unat w = 2" unfolding w by simp
  then show ?thesis using r w(1) by blast
qed

lemma drop_low_bits:
  fixes x :: "64 word"
  assumes "\<And>i. bit x i \<Longrightarrow> k \<le> i"
  shows "drop_bit k x = 0 \<longleftrightarrow> x = 0"
proof
  assume z: "drop_bit k x = 0"
  have "\<not> bit x i" for i
  proof
    assume "bit x i"
    then have "bit (drop_bit k x) (i - k)" using assms [of i] by (simp add: bit_drop_bit_eq)
    with z show False by simp
  qed
  then show "x = 0" by (simp add: bit_eq_iff)
qed simp

lemma wake_field_high: "bit (w AND futex_wake_mask) i \<Longrightarrow> 33 \<le> i"
proof -
  have m: "futex_wake_mask = push_bit 33 (mask 7)" by (simp add: futex_wake_mask_def mask_eq_exp_minus_1 push_bit_eq_mult)
  show "bit (w AND futex_wake_mask) i \<Longrightarrow> 33 \<le> i" unfolding m by (auto simp: bit_and_iff bit_push_bit_iff)
qed

lemma wake_field_shift: "k \<le> 33 \<Longrightarrow> uint (drop_bit k (w AND futex_wake_mask)) = 0 \<longleftrightarrow> w AND futex_wake_mask = 0"
  unfolding unsigned_eq_0_iff using wake_field_high [of w] by (intro drop_low_bits) (meson order_trans)

text \<open>
  The number of wakers is shifted by 31 although its field begins at bit 33; the number is four times too
  large, but it is only compared with zero and the check is the same.
\<close>

theorem post_check_shift: "post_check 31 s = post_check 33 s"
proof -
  have w: "uint (drop_bit 31 (w AND futex_wake_mask)) = 0 \<longleftrightarrow> w AND futex_wake_mask = 0"
    "uint (drop_bit 33 (w AND futex_wake_mask)) = 0 \<longleftrightarrow> w AND futex_wake_mask = 0" for w
    by (rule wake_field_shift, simp)+
  show ?thesis unfolding post_check_def Let_def by (simp only: w)
qed

end
