(* ===== verification/Task_Mutex.thy ===== *)
theory Task_Mutex
  imports Prelude
begin

text \<open>
  The read-write mutex of \<^verbatim>\<open>src/FileLock_test.cxx\<close> whose locks belong to tasks: the class \<^verbatim>\<open>TaskMutex\<close>, the
  policy \<^verbatim>\<open>ReadWriteTask\<close> and the part of \<^verbatim>\<open>main\<close> that tries the locks out. Every operation holds
  \<^verbatim>\<open>m_mutex\<close> while it works, so it is one step. A task is a number, a pointer to a task an option. The
  access objects of \<^verbatim>\<open>threadsafe::Unlocked\<close> (a submodule) are represented by the locks they take and by a
  parameter for what the end of their scope does.
\<close>

section \<open>TaskMutex\<close>

type_synonym task_id = nat

record TaskMutex =
  m_write_owner :: "task_id option"
  m_readers :: int

definition new_TaskMutex :: TaskMutex where
  "new_TaskMutex = \<lparr>m_write_owner = None, m_readers = 0\<rparr>"

definition wrlock :: "task_id option \<Rightarrow> TaskMutex \<Rightarrow> TaskMutex \<times> bool" where
  "wrlock owner m =
     (let success = (m_write_owner m = None \<and> m_readers m = 0)
      in (if success then m\<lparr>m_write_owner := owner\<rparr> else m, success))"

definition rdlock :: "TaskMutex \<Rightarrow> (TaskMutex \<times> bool) result" where
  "rdlock m =
     (if m_write_owner m = None
      then bindE (to_int (m_readers m + 1)) (\<lambda>n. Inr (m\<lparr>m_readers := n\<rparr>, True))
      else Inr (m, False))"

definition wr2rdlock :: "TaskMutex \<Rightarrow> TaskMutex result" where
  "wr2rdlock m =
     bindE (assertE (m_write_owner m \<noteq> None)) (\<lambda>_.
     bindE (assertE (m_readers m = 0)) (\<lambda>_.
       Inr (m\<lparr>m_readers := 1, m_write_owner := None\<rparr>)))"

definition TaskMutex_wrunlock :: "TaskMutex \<Rightarrow> TaskMutex" where
  "TaskMutex_wrunlock m = m"

definition TaskMutex_rdunlock :: "TaskMutex \<Rightarrow> TaskMutex" where
  "TaskMutex_rdunlock m = m"

definition reset_owner :: "TaskMutex \<Rightarrow> TaskMutex result" where
  "reset_owner m = bindE (assertE (m_write_owner m \<noteq> None)) (\<lambda>_. Inr (m\<lparr>m_write_owner := None\<rparr>))"

definition release_rdlock :: "TaskMutex \<Rightarrow> TaskMutex result" where
  "release_rdlock m = bindE (assertE (m_readers m > 0)) (\<lambda>_. Inr (m\<lparr>m_readers := m_readers m - 1\<rparr>))"

section \<open>The policy\<close>

definition policy_wrunlock :: "TaskMutex \<Rightarrow> TaskMutex result" where
  "policy_wrunlock m = reset_owner m"

definition policy_rdunlock :: "TaskMutex \<Rightarrow> TaskMutex result" where
  "policy_rdunlock m = release_rdlock m"

section \<open>main\<close>

text \<open>
  The locks that \<^verbatim>\<open>main\<close> takes for its two tasks. \<^verbatim>\<open>rat_end\<close> and \<^verbatim>\<open>wat_end\<close> are the ends of the scopes of the
  access objects, which run the functions \<^verbatim>\<open>rdunlock\<close> and \<^verbatim>\<open>wrunlock\<close> of the mutex.
\<close>

definition try_locks :: "(TaskMutex \<Rightarrow> TaskMutex) \<Rightarrow> (TaskMutex \<Rightarrow> TaskMutex) \<Rightarrow> task_id \<Rightarrow> TaskMutex \<Rightarrow> TaskMutex result" where
  "try_locks rat_end wat_end my_task2 data =
     bindE (rdlock data) (\<lambda>(data, have_read_lock1).
     bindE (Inr (rat_end data)) (\<lambda>data.
     bindE (assertE have_read_lock1) (\<lambda>_.
     bindE (rdlock data) (\<lambda>(data, have_read_lock2).
     bindE (assertE have_read_lock2) (\<lambda>_.
     bindE (policy_rdunlock data) (\<lambda>data.
     bindE (Inr (wrlock (Some my_task2) data)) (\<lambda>(data, have_write_lock2).
     bindE (Inr (wat_end data)) (\<lambda>data.
     bindE (assertE (\<not> have_write_lock2)) (\<lambda>_.
     bindE (Inr (rat_end data)) (\<lambda>data.
     bindE (policy_rdunlock data) (\<lambda>data.
     bindE (Inr (wrlock (Some my_task2) data)) (\<lambda>(data, have_write_lock2).
     bindE (Inr (wat_end data)) (\<lambda>data.
     bindE (assertE have_write_lock2) (\<lambda>_.
       policy_wrunlock data))))))))))))))"

section \<open>What the mutex promises\<close>

text \<open>
  The contract: a writer, or any number of readers, a task counting as often as it took the lock.
  The operations a task may use depend on the locks it holds.
\<close>

record locks =
  writer :: "task_id option"
  readers :: "task_id multiset"

datatype lock_op = Wrlock task_id | Rdlock task_id | Wr2rdlock task_id | Wrunlock task_id | Rdunlock task_id

definition allowed :: "lock_op \<Rightarrow> locks \<Rightarrow> bool" where
  "allowed p l = (case p of Wr2rdlock t \<Rightarrow> writer l = Some t | Wrunlock t \<Rightarrow> writer l = Some t | Rdunlock t \<Rightarrow> t \<in># readers l | _ \<Rightarrow> True)"

text \<open>The contract of an operation and its result: whether a lock was obtained.\<close>

definition lock_spec :: "lock_op \<Rightarrow> locks \<Rightarrow> locks \<times> bool" where
  "lock_spec p l = (case p of
       Wrlock t \<Rightarrow> if writer l = None \<and> readers l = {#} then (l\<lparr>writer := Some t\<rparr>, True) else (l, False)
     | Rdlock t \<Rightarrow> if writer l = None then (l\<lparr>readers := add_mset t (readers l)\<rparr>, True) else (l, False)
     | Wr2rdlock t \<Rightarrow> (l\<lparr>writer := None, readers := {#t#}\<rparr>, True)
     | Wrunlock t \<Rightarrow> (l\<lparr>writer := None\<rparr>, True)
     | Rdunlock t \<Rightarrow> (l\<lparr>readers := readers l - {#t#}\<rparr>, True))"

definition lock_impl :: "lock_op \<Rightarrow> TaskMutex \<Rightarrow> (TaskMutex \<times> bool) result" where
  "lock_impl p m = (case p of
       Wrlock t \<Rightarrow> Inr (wrlock (Some t) m)
     | Rdlock t \<Rightarrow> rdlock m
     | Wr2rdlock t \<Rightarrow> bindE (wr2rdlock m) (\<lambda>m'. Inr (m', True))
     | Wrunlock t \<Rightarrow> bindE (policy_wrunlock m) (\<lambda>m'. Inr (m', True))
     | Rdunlock t \<Rightarrow> bindE (policy_rdunlock m) (\<lambda>m'. Inr (m', True)))"

primrec run_locks :: "lock_op list \<Rightarrow> locks \<Rightarrow> (locks \<times> bool list) option" where
  "run_locks [] l = Some (l, [])"
| "run_locks (p # ps) l =
     (if allowed p l then
        (case run_locks ps (fst (lock_spec p l)) of None \<Rightarrow> None | Some (l', bs) \<Rightarrow> Some (l', snd (lock_spec p l) # bs))
      else None)"

primrec run_mutex :: "lock_op list \<Rightarrow> TaskMutex \<Rightarrow> (TaskMutex \<times> bool list) result" where
  "run_mutex [] m = Inr (m, [])"
| "run_mutex (p # ps) m =
     bindE (lock_impl p m) (\<lambda>(m', b). bindE (run_mutex ps m') (\<lambda>(m'', bs). Inr (m'', b # bs)))"

definition mutex_of :: "locks \<Rightarrow> TaskMutex" where
  "mutex_of l = \<lparr>m_write_owner = writer l, m_readers = int (size (readers l))\<rparr>"

definition exclusive :: "locks \<Rightarrow> bool" where
  "exclusive l \<longleftrightarrow> writer l = None \<or> readers l = {#}"

section \<open>Refinement\<close>

lemma lock_step_refines:
  assumes "exclusive l" "allowed p l" "int (size (readers l)) < 2147483647"
  shows "lock_impl p (mutex_of l) = Inr (mutex_of (fst (lock_spec p l)), snd (lock_spec p l))"
    and "exclusive (fst (lock_spec p l))" "size (readers (fst (lock_spec p l))) \<le> size (readers l) + 1"
proof -
  have d: "int (size (readers l - {#t#})) = int (size (readers l)) - 1" "0 < size (readers l)" if "t \<in># readers l" for t
    using that by (auto dest!: multi_member_split)
  show "lock_impl p (mutex_of l) = Inr (mutex_of (fst (lock_spec p l)), snd (lock_spec p l))"
    using assms d
    by (cases p) (auto simp: lock_impl_def lock_spec_def mutex_of_def wrlock_def rdlock_def wr2rdlock_def policy_wrunlock_def
      policy_rdunlock_def reset_owner_def release_rdlock_def allowed_def exclusive_def)
  show "exclusive (fst (lock_spec p l))" "size (readers (fst (lock_spec p l))) \<le> size (readers l) + 1"
    using assms by (cases p; auto simp: lock_spec_def exclusive_def allowed_def size_Diff_singleton)+
qed

lemma run_refines:
  assumes "exclusive l" "run_locks ps l = Some (l', bs)" "int (size (readers l) + length ps) \<le> 2147483647"
  shows "run_mutex ps (mutex_of l) = Inr (mutex_of l', bs) \<and> exclusive l'"
  using assms
proof (induction ps arbitrary: l bs)
  case (Cons p ps)
  let ?l = "fst (lock_spec p l)"
  from Cons.prems(2) obtain bs' where r: "allowed p l" "run_locks ps ?l = Some (l', bs')" "bs = snd (lock_spec p l) # bs'"
    by (auto split: if_splits option.splits)
  note step = lock_step_refines [OF Cons.prems(1) r(1)]
  from Cons.IH [OF step(2) r(2)] step(3) Cons.prems(3)
  have "run_mutex ps (mutex_of ?l) = Inr (mutex_of l', bs') \<and> exclusive l'" by simp
  then show ?case using step(1) Cons.prems(3) r(3) by simp
qed simp

text \<open>
  C32. TaskMutex implements its contract: for every sequence of operations in which a task releases or
  converts only locks it holds (and that is too short for the number of readers to overflow), no assertion
  fails, every attempt to take a lock succeeds exactly when the contract says so, the state of the mutex
  is that of the contract, and there is never a writer together with a reader.
\<close>

theorem task_mutex_refines:
  assumes "run_locks ps \<lparr>writer = None, readers = {#}\<rparr> = Some (l, bs)" "int (length ps) \<le> 2147483647"
  shows "run_mutex ps new_TaskMutex = Inr (mutex_of l, bs) \<and> (writer l = None \<or> readers l = {#})"
  using run_refines [OF _ assms(1)] assms(2) by (simp add: mutex_of_def new_TaskMutex_def exclusive_def)

text \<open>
  The locks that main tries, followed by a conversion to a read lock.
\<close>

theorem task_mutex_refines_witness:
  "run_mutex [Rdlock 1, Rdlock 2, Rdunlock 2, Wrlock 2, Rdunlock 1, Wrlock 2, Wr2rdlock 2, Wrlock 1] new_TaskMutex =
     Inr (mutex_of \<lparr>writer = None, readers = {#2#}\<rparr>, [True, True, True, False, True, True, True, False])"
proof -
  have "run_locks [Rdlock 1, Rdlock 2, Rdunlock 2, Wrlock 2, Rdunlock 1, Wrlock 2, Wr2rdlock 2, Wrlock 1] \<lparr>writer = None, readers = {#}\<rparr> =
    Some (\<lparr>writer = None, readers = {#2#}\<rparr>, [True, True, True, False, True, True, True, False])"
    by (simp add: allowed_def lock_spec_def)
  from task_mutex_refines [OF this] show ?thesis by simp
qed

text \<open>
  The assertions of \<^verbatim>\<open>main\<close> hold when the end of an access object runs the empty functions of the mutex.
\<close>

theorem main_tries_locks: "try_locks TaskMutex_rdunlock TaskMutex_wrunlock t new_TaskMutex = Inr new_TaskMutex"
  by (simp add: try_locks_def new_TaskMutex_def rdlock_def wrlock_def policy_rdunlock_def policy_wrunlock_def release_rdlock_def
    reset_owner_def TaskMutex_rdunlock_def TaskMutex_wrunlock_def)

text \<open>
  A null pointer as owner gets the write lock and does not lock anything.
\<close>

theorem null_owner_locks_nothing: "wrlock None new_TaskMutex = (new_TaskMutex, True)"
  by (simp add: wrlock_def new_TaskMutex_def)

end
