(* ===== verification/Mutex_Task.thy ===== *)
theory Mutex_Task
  imports Wait_Signal_Script
begin

text \<open>
  The tasks of \<^verbatim>\<open>src/AIStatefulTaskMutex_test.cxx\<close>, which take turns in a critical area. The base class is the
  parameter \<^verbatim>\<open>T\<close> of the theory \<^verbatim>\<open>Wait_Signal_Script\<close>; the mutex (a submodule as well) is the parameter
  \<^verbatim>\<open>M\<close>: \<^verbatim>\<open>lock\<close> tells whether the task got the mutex, and \<^verbatim>\<open>unlock\<close> tells which task it wakes up. The
  tasks run under every interleaving of their actions; a call of the mutex is one action.
\<close>

section \<open>The mutex\<close>

record 'm mutex_ops =
  mutex_lock :: "nat \<Rightarrow> 'm \<Rightarrow> 'm \<times> bool"
  mutex_unlock :: "'m \<Rightarrow> 'm \<times> nat option"

text \<open>What the test relies on: the tasks that called \<^verbatim>\<open>lock\<close> get the mutex in that order.\<close>

definition mutex_contract :: "'m mutex_ops \<Rightarrow> ('m \<Rightarrow> nat list) \<Rightarrow> bool" where
  "mutex_contract M owners \<longleftrightarrow>
     (\<forall>t m. t \<notin> set (owners m) \<longrightarrow>
        owners (fst (mutex_lock M t m)) = owners m @ [t] \<and> snd (mutex_lock M t m) = (owners m = [])) \<and>
     (\<forall>m t ts. owners m = t # ts \<longrightarrow>
        owners (fst (mutex_unlock M m)) = ts \<and> snd (mutex_unlock M m) = (case ts of [] \<Rightarrow> None | u # _ \<Rightarrow> Some u))"

section \<open>The tasks\<close>

text \<open>
  The control points of \<^verbatim>\<open>MyTask::multiplex_impl\<close>: in state \<^verbatim>\<open>MyTask_call_lock\<close> before the increment of
  \<^verbatim>\<open>m_locked\<close>, before \<^verbatim>\<open>lock\<close> and before \<^verbatim>\<open>wait\<close>; state \<^verbatim>\<open>MyTask_locked\<close>; in state \<^verbatim>\<open>MyTask_critical_area\<close> before the
  loop, before the assertion, before \<^verbatim>\<open>unlock\<close> and before the decrement of \<^verbatim>\<open>m_locked\<close>; state \<^verbatim>\<open>MyTask_done\<close>.
\<close>

datatype mytask_pc =
    MyTask_call_lock | MyTask_lock | MyTask_wait | MyTask_locked
  | MyTask_critical_area | MyTask_leave | MyTask_unlock | MyTask_unlocked | MyTask_done | MyTask_finished

record ('m, 's) mutex_test =
  mutex :: 'm
  m_inside_critical_area :: int
  m_locked :: int
  finished_counter :: int
  is_first :: bool
  pc :: "nat \<Rightarrow> mytask_pc"
  base :: "nat \<Rightarrow> 's"

definition new_mutex_test :: "'m \<Rightarrow> 's \<Rightarrow> ('m, 's) mutex_test" where
  "new_mutex_test m b =
     \<lparr>mutex = m, m_inside_critical_area = 0, m_locked = 0, finished_counter = 0, is_first = True,
      pc = (\<lambda>_. MyTask_call_lock), base = (\<lambda>_. b)\<rparr>"

text \<open>One action of task \<^verbatim>\<open>i\<close>; finishing calls the call-back that \<^verbatim>\<open>main\<close> passed to \<^verbatim>\<open>run\<close>.\<close>

definition MyTask_multiplex_impl ::
  "'m mutex_ops \<Rightarrow> 's task_ops \<Rightarrow> nat \<Rightarrow> nat \<Rightarrow> ('m, 's) mutex_test \<Rightarrow> ('m, 's) mutex_test result"
where
  "MyTask_multiplex_impl M T number_of_tasks i s =
     (let go = (\<lambda>p s. s\<lparr>pc := (pc s)(i := p)\<rparr>) in
      case pc s i of
        MyTask_call_lock \<Rightarrow> Inr (go MyTask_lock (s\<lparr>m_locked := m_locked s + 1\<rparr>))
      | MyTask_lock \<Rightarrow>
          (let (m, got) = mutex_lock M i (mutex s) in
           Inr (go (if got then MyTask_locked else MyTask_wait) (s\<lparr>mutex := m\<rparr>)))
      | MyTask_wait \<Rightarrow> Inr (go MyTask_locked (s\<lparr>base := (base s)(i := wait_op T 1 (base s i))\<rparr>))
      | MyTask_locked \<Rightarrow>
          bindE (assertE (m_inside_critical_area s = 0)) (\<lambda>_.
            Inr (go MyTask_critical_area (s\<lparr>m_inside_critical_area := m_inside_critical_area s + 1\<rparr>)))
      | MyTask_critical_area \<Rightarrow>
          if is_first s \<and> m_locked s < int number_of_tasks then Inr s
          else Inr (go MyTask_leave (s\<lparr>is_first := False\<rparr>))
      | MyTask_leave \<Rightarrow>
          bindE (assertE (m_inside_critical_area s = 1)) (\<lambda>_.
            Inr (go MyTask_unlock (s\<lparr>m_inside_critical_area := m_inside_critical_area s - 1\<rparr>)))
      | MyTask_unlock \<Rightarrow>
          (let (m, woken) = mutex_unlock M (mutex s);
               b = (case woken of None \<Rightarrow> base s | Some u \<Rightarrow> (base s)(u := fst (signal_op T 1 (base s u)))) in
           Inr (go MyTask_unlocked (s\<lparr>mutex := m, base := b\<rparr>)))
      | MyTask_unlocked \<Rightarrow> Inr (go MyTask_done (s\<lparr>m_locked := m_locked s - 1\<rparr>))
      | MyTask_done \<Rightarrow> Inr (go MyTask_finished (s\<lparr>finished_counter := finished_counter s + 1\<rparr>))
      | MyTask_finished \<Rightarrow> Inr s)"

text \<open>A turn of the loop in which the first task waits for the others changes nothing and is not a step.\<close>

inductive mutex_step ::
  "'m mutex_ops \<Rightarrow> 's task_ops \<Rightarrow> nat \<Rightarrow> ('m, 's) mutex_test \<Rightarrow> ('m, 's) mutex_test \<Rightarrow> bool"
  for M T n where
  runs: "i < n \<Longrightarrow> \<not> waiting_op T (base s i) \<Longrightarrow> MyTask_multiplex_impl M T n i s = Inr s' \<Longrightarrow> s' \<noteq> s \<Longrightarrow> mutex_step M T n s s'"

text \<open>The gate opens with the last call-back; then \<^verbatim>\<open>main\<close> checks the counters.\<close>

definition mutex_test_checks :: "('m, 's) mutex_test \<Rightarrow> unit result" where
  "mutex_test_checks s =
     bindE (assertE (m_inside_critical_area s = 0)) (\<lambda>_. assertE (m_locked s = 0))"

section \<open>The invariant\<close>

text \<open>Where a task is, in terms of the queue of the mutex and of the two masks of the base class.\<close>

definition mytask_ok :: "nat list \<Rightarrow> nat \<Rightarrow> mytask_pc \<Rightarrow> condition_type \<Rightarrow> condition_type \<Rightarrow> bool" where
  "mytask_ok q i p idle skip \<longleftrightarrow>
     (case p of
        MyTask_wait \<Rightarrow> i \<in> set q \<and> idle = 0 \<and> skip = (if hd q = i then 1 else 0)
      | MyTask_locked \<Rightarrow> i \<in> set q \<and> idle = (if hd q = i then 0 else 1) \<and> skip = 0
      | MyTask_critical_area \<Rightarrow> i \<in> set q \<and> hd q = i \<and> idle = 0 \<and> skip = 0
      | MyTask_leave \<Rightarrow> i \<in> set q \<and> hd q = i \<and> idle = 0 \<and> skip = 0
      | MyTask_unlock \<Rightarrow> i \<in> set q \<and> hd q = i \<and> idle = 0 \<and> skip = 0
      | _ \<Rightarrow> i \<notin> set q \<and> idle = 0 \<and> skip = 0)"

definition is_inside :: "mytask_pc \<Rightarrow> bool" where
  "is_inside p \<longleftrightarrow> p \<in> {MyTask_critical_area, MyTask_leave}"

definition is_locked :: "mytask_pc \<Rightarrow> bool" where
  "is_locked p \<longleftrightarrow> p \<notin> {MyTask_call_lock, MyTask_done, MyTask_finished}"

definition is_early :: "mytask_pc \<Rightarrow> bool" where
  "is_early p \<longleftrightarrow> p \<in> {MyTask_call_lock, MyTask_lock, MyTask_wait, MyTask_locked, MyTask_critical_area}"

text \<open>How many actions the tasks still have to make.\<close>

primrec actions_left :: "mytask_pc \<Rightarrow> nat" where
  "actions_left MyTask_call_lock = 9"
| "actions_left MyTask_lock = 8"
| "actions_left MyTask_wait = 7"
| "actions_left MyTask_locked = 6"
| "actions_left MyTask_critical_area = 5"
| "actions_left MyTask_leave = 4"
| "actions_left MyTask_unlock = 3"
| "actions_left MyTask_unlocked = 2"
| "actions_left MyTask_done = 1"
| "actions_left MyTask_finished = 0"

definition work_left :: "nat \<Rightarrow> ('m, 's) mutex_test \<Rightarrow> nat" where
  "work_left n s = (\<Sum>i < n. actions_left (pc s i))"

definition mutex_test_ok ::
  "('m \<Rightarrow> nat list) \<Rightarrow> ('s \<Rightarrow> condition_type) \<Rightarrow> ('s \<Rightarrow> condition_type) \<Rightarrow> nat \<Rightarrow> ('m, 's) mutex_test \<Rightarrow> bool"
where
  "mutex_test_ok owners idle skip n s \<longleftrightarrow>
     distinct (owners (mutex s)) \<and> set (owners (mutex s)) \<subseteq> {..<n} \<and>
     (\<forall>i < n. mytask_ok (owners (mutex s)) i (pc s i) (idle (base s i)) (skip (base s i))) \<and>
     m_inside_critical_area s = number_at is_inside n (pc s) \<and> m_locked s = number_at is_locked n (pc s) \<and>
     finished_counter s = number_at (\<lambda>p. p = MyTask_finished) n (pc s) \<and>
     (is_first s \<longrightarrow> (\<forall>i < n. is_early (pc s i)))"

text \<open>
  An action succeeds, keeps the invariant and brings the end nearer, unless the task is the first one and
  waits for the others, or has finished.
\<close>

definition acts_well ::
  "'m mutex_ops \<Rightarrow> 's task_ops \<Rightarrow> ('m \<Rightarrow> nat list) \<Rightarrow> ('s \<Rightarrow> condition_type) \<Rightarrow> ('s \<Rightarrow> condition_type) \<Rightarrow> nat \<Rightarrow> nat \<Rightarrow> ('m, 's) mutex_test \<Rightarrow> bool"
where
  "acts_well M T owners idle skip n i s \<longleftrightarrow>
     (\<exists>s'. MyTask_multiplex_impl M T n i s = Inr s' \<and> mutex_test_ok owners idle skip n s' \<and>
        (work_left n s' < work_left n s \<or>
         s' = s \<and> (pc s i = MyTask_finished \<or> pc s i = MyTask_critical_area \<and> is_first s \<and> m_locked s < int n)))"

text \<open>A mutex with the contract: the queue itself.\<close>

definition queue_mutex :: "nat list mutex_ops" where
  "queue_mutex =
     \<lparr>mutex_lock = (\<lambda>t q. (q @ [t], q = [])),
      mutex_unlock = (\<lambda>q. (tl q, case tl q of [] \<Rightarrow> None | u # _ \<Rightarrow> Some u))\<rparr>"

section \<open>Lemmas\<close>

lemma work_left_update: "i < n \<Longrightarrow> work_left n (s\<lparr>pc := (pc s)(i := p)\<rparr>) + actions_left (pc s i) = work_left n s + actions_left p"
  using sum_update [of i n actions_left "pc s" p] by (simp add: work_left_def)

text \<open>Only the owner can be inside.\<close>

lemma inside_owner:
  assumes "\<forall>i < n. mytask_ok q i (pc s i) (idle (base s i)) (skip (base s i))" "set q \<subseteq> {..<n}"
  shows "number_at is_inside n (pc s) = (if q = [] then 0 else of_bool (is_inside (pc s (hd q))))"
proof (cases "q = []")
  case True
  then have "\<not> is_inside (pc s i)" if "i < n" for i
    using assms(1) that by (cases "pc s i") (auto simp: mytask_ok_def is_inside_def)
  then show ?thesis using True by (simp add: number_at_def)
next
  case False
  have other: "\<not> is_inside (pc s i)" if "i < n" "i \<noteq> hd q" for i
    using assms(1) that by (cases "pc s i") (auto simp: mytask_ok_def is_inside_def)
  have "hd q < n" using assms(2) False by (meson hd_in_set lessThan_iff subset_iff)
  then have "number_at is_inside n (pc s) = of_bool (is_inside (pc s (hd q))) + (\<Sum>i \<in> {..<n} - {hd q}. of_bool (is_inside (pc s i)))"
    unfolding number_at_def by (intro sum.remove) auto
  also have "(\<Sum>i \<in> {..<n} - {hd q}. of_bool (is_inside (pc s i))) = (0 :: int)" using other by (intro sum.neutral) auto
  finally show ?thesis using False by simp
qed


lemma mytask_ok_append: "i \<noteq> j \<Longrightarrow> mytask_ok q j p idle skip \<Longrightarrow> mytask_ok (q @ [i]) j p idle skip"
  by (cases p; cases q) (auto simp: mytask_ok_def split: if_splits)

lemma mytask_ok_pop:
  assumes c: "wait_signal_contract T idle skip" and "distinct (i # ts)" "j \<noteq> i" "mytask_ok (i # ts) j p (idle b) (skip b)"
  shows "ts = [] \<or> hd ts \<noteq> j \<Longrightarrow> mytask_ok ts j p (idle b) (skip b)"
    and "ts \<noteq> [] \<Longrightarrow> hd ts = j \<Longrightarrow> mytask_ok ts j p (idle (fst (signal_op T 1 b))) (skip (fst (signal_op T 1 b)))"
proof -
  show "ts = [] \<or> hd ts \<noteq> j \<Longrightarrow> mytask_ok ts j p (idle b) (skip b)"
    using assms(3,4) by (cases p) (auto simp: mytask_ok_def split: if_splits)
next
  assume h: "ts \<noteq> []" "hd ts = j"
  then have j: "j \<in> set ts" using hd_in_set by blast
  obtain b' r where s: "signal_op T 1 b = (b', r)" by fastforce
  show "mytask_ok ts j p (idle (fst (signal_op T 1 b))) (skip (fst (signal_op T 1 b)))"
  proof (cases p)
    case MyTask_wait
    then have "idle b = 0" "skip b = 0" using assms(3,4) by (auto simp: mytask_ok_def)
    with contract_remember [OF c _ s] show ?thesis using MyTask_wait h j s by (simp add: mytask_ok_def)
  next
    case MyTask_locked
    then have "idle b = 1" "skip b = 0" using assms(3,4) by (auto simp: mytask_ok_def)
    with contract_wake [OF c _ _ s] show ?thesis using MyTask_locked h j s by (simp add: mytask_ok_def)
  qed (use assms(3,4) h j in \<open>auto simp: mytask_ok_def\<close>)
qed

text \<open>An action that only moves task \<^verbatim>\<open>i\<close> on.\<close>

lemma move_ok:
  assumes "\<forall>j < n. mytask_ok q j (pc s j) (idle (base s j)) (skip (base s j))" "mytask_ok q i p (idle (base s i)) (skip (base s i))"
  shows "\<forall>j < n. mytask_ok q j (((pc s)(i := p)) j) (idle (base s j)) (skip (base s j))"
  using assms by auto

lemmas pc_kinds = is_inside_def is_locked_def is_early_def

lemma lock_ok:
  assumes m: "mutex_contract M owners" and ok: "mutex_test_ok owners idle skip n s" and i: "i < n" "pc s i = MyTask_lock"
  shows "\<exists>s'. MyTask_multiplex_impl M T n i s = Inr s' \<and> mutex_test_ok owners idle skip n s' \<and> work_left n s' < work_left n s"
proof -
  let ?q = "owners (mutex s)"
  obtain m' got where l: "mutex_lock M i (mutex s) = (m', got)" by fastforce
  have t: "i \<notin> set ?q" "idle (base s i) = 0" "skip (base s i) = 0" using ok i by (auto simp: mutex_test_ok_def mytask_ok_def)
  then have q: "owners m' = ?q @ [i]" "got = (?q = [])" using m l unfolding mutex_contract_def by (metis fst_conv, metis snd_conv)
  let ?p = "if got then MyTask_locked else MyTask_wait"
  let ?s = "s\<lparr>mutex := m', pc := (pc s)(i := ?p)\<rparr>"
  have "MyTask_multiplex_impl M T n i s = Inr ?s" using i(2) l by (simp add: MyTask_multiplex_impl_def)
  moreover have "mytask_ok (owners m') j (pc ?s j) (idle (base s j)) (skip (base s j))" if "j < n" for j
  proof (cases "j = i")
    case True
    then show ?thesis using q t by (cases ?q) (auto simp: mytask_ok_def)
  next
    case False
    then show ?thesis using ok that mytask_ok_append [of i j ?q] q(1) by (auto simp: mutex_test_ok_def)
  qed
  then have "mutex_test_ok owners idle skip n ?s" using ok i q t(1)
    by (auto simp: mutex_test_ok_def number_at_update pc_kinds)
  moreover have "work_left n ?s < work_left n s" using work_left_update [of i n s ?p] i by (simp add: work_left_def split: if_splits)
  ultimately show ?thesis by blast
qed

lemma unlock_ok:
  assumes c: "wait_signal_contract T idle skip" and m: "mutex_contract M owners"
    and ok: "mutex_test_ok owners idle skip n s" and i: "i < n" "pc s i = MyTask_unlock"
  shows "\<exists>s'. MyTask_multiplex_impl M T n i s = Inr s' \<and> mutex_test_ok owners idle skip n s' \<and> work_left n s' < work_left n s"
proof -
  have t: "i \<in> set (owners (mutex s))" "hd (owners (mutex s)) = i" "idle (base s i) = 0" "skip (base s i) = 0"
    using ok i by (auto simp: mutex_test_ok_def mytask_ok_def)
  then obtain ts where q: "owners (mutex s) = i # ts" by (cases "owners (mutex s)") auto
  obtain m' woken where u: "mutex_unlock M (mutex s) = (m', woken)" by fastforce
  have q': "owners m' = ts" "woken = (case ts of [] \<Rightarrow> None | u # _ \<Rightarrow> Some u)" using m u q unfolding mutex_contract_def by (metis fst_conv, metis snd_conv)
  have d: "distinct (i # ts)" using ok q by (simp add: mutex_test_ok_def)
  let ?b = "case woken of None \<Rightarrow> base s | Some u \<Rightarrow> (base s)(u := fst (signal_op T 1 (base s u)))"
  let ?s = "s\<lparr>mutex := m', base := ?b, pc := (pc s)(i := MyTask_unlocked)\<rparr>"
  have "MyTask_multiplex_impl M T n i s = Inr ?s" using i(2) u by (simp add: MyTask_multiplex_impl_def)
  moreover have "mytask_ok ts j (pc ?s j) (idle (base ?s j)) (skip (base ?s j))" if "j < n" for j
  proof (cases "j = i")
    case True
    then show ?thesis using d t q' by (cases ts) (auto simp: mytask_ok_def)
  next
    case False
    have old: "mytask_ok (i # ts) j (pc s j) (idle (base s j)) (skip (base s j))" using ok that q by (simp add: mutex_test_ok_def)
    show ?thesis using mytask_ok_pop [OF c d False old] False q' by (cases ts) auto
  qed
  then have "mutex_test_ok owners idle skip n ?s" using ok i q q'(1) d
    by (auto simp: mutex_test_ok_def number_at_update pc_kinds)
  moreover have "work_left n ?s < work_left n s" using work_left_update [of i n s MyTask_unlocked] i by (simp add: work_left_def)
  ultimately show ?thesis by blast
qed

lemma wait_ok:
  assumes c: "wait_signal_contract T idle skip" and ok: "mutex_test_ok owners idle skip n s" and i: "i < n" "pc s i = MyTask_wait"
  shows "\<exists>s'. MyTask_multiplex_impl M T n i s = Inr s' \<and> mutex_test_ok owners idle skip n s' \<and> work_left n s' < work_left n s"
proof -
  let ?q = "owners (mutex s)" and ?b = "wait_op T 1 (base s i)"
  let ?s = "s\<lparr>base := (base s)(i := ?b), pc := (pc s)(i := MyTask_locked)\<rparr>"
  have t: "i \<in> set ?q" "idle (base s i) = 0" "skip (base s i) = (if hd ?q = i then 1 else 0)"
    using ok i by (auto simp: mutex_test_ok_def mytask_ok_def)
  have "idle ?b = (if hd ?q = i then 0 else 1) \<and> skip ?b = 0"
    using contract_wait [OF c, of "base s i" 1] contract_skip [OF c, of "base s i" 1] t by (simp split: if_splits)
  then have "mytask_ok ?q i MyTask_locked (idle ?b) (skip ?b)" using t by (simp add: mytask_ok_def)
  then have "mutex_test_ok owners idle skip n ?s" using ok i
    by (auto simp: mutex_test_ok_def number_at_update pc_kinds)
  moreover have "MyTask_multiplex_impl M T n i s = Inr ?s" using i(2) by (simp add: MyTask_multiplex_impl_def)
  moreover have "work_left n ?s < work_left n s" using work_left_update [of i n s MyTask_locked] i by (simp add: work_left_def)
  ultimately show ?thesis by blast
qed


lemma acts_wellI:
  assumes ok: "mutex_test_ok owners idle skip n s" and i: "i < n"
    and "MyTask_multiplex_impl M T n i s = Inr s'" "mutex s' = mutex s" "base s' = base s" "pc s' = (pc s)(i := p)"
    and me: "mytask_ok (owners (mutex s)) i p (idle (base s i)) (skip (base s i))"
    and "m_inside_critical_area s' = number_at is_inside n ((pc s)(i := p))"
      "m_locked s' = number_at is_locked n ((pc s)(i := p))" "finished_counter s' = number_at (\<lambda>p. p = MyTask_finished) n ((pc s)(i := p))"
      "is_first s' \<longrightarrow> is_first s \<and> is_early p" "actions_left p < actions_left (pc s i)"
  shows "acts_well M T owners idle skip n i s"
proof -
  have tasks: "\<forall>j < n. mytask_ok (owners (mutex s)) j (pc s j) (idle (base s j)) (skip (base s j))" using ok by (simp add: mutex_test_ok_def)
  have "mutex_test_ok owners idle skip n s'" using assms move_ok [OF tasks me] by (auto simp: mutex_test_ok_def)
  moreover have "work_left n s' < work_left n s" using assms(6,12) work_left_update [OF i, of s p] by (simp add: work_left_def)
  ultimately show ?thesis using assms(3) unfolding acts_well_def by blast
qed

lemmas moved = MyTask_multiplex_impl_def mytask_ok_def number_at_update pc_kinds

lemma mutex_test_okD:
  assumes "mutex_test_ok owners idle skip n s"
  shows "set (owners (mutex s)) \<subseteq> {..<n}" "\<forall>j < n. mytask_ok (owners (mutex s)) j (pc s j) (idle (base s j)) (skip (base s j))"
    and "m_inside_critical_area s = number_at is_inside n (pc s)" "m_locked s = number_at is_locked n (pc s)"
    and "finished_counter s = number_at (\<lambda>p. p = MyTask_finished) n (pc s)"
    and "i < n \<Longrightarrow> \<not> is_early (pc s i) \<Longrightarrow> \<not> is_first s"
    and "i < n \<Longrightarrow> mytask_ok (owners (mutex s)) i (pc s i) (idle (base s i)) (skip (base s i))"
  using assms by (auto simp: mutex_test_ok_def)

text \<open>The actions of a task that does not own the mutex, and of its owner.\<close>

lemma outside_action_ok:
  assumes ok: "mutex_test_ok owners idle skip n s" and i: "i < n" "pc s i \<in> {MyTask_call_lock, MyTask_unlocked, MyTask_done}"
  shows "acts_well M T owners idle skip n i s"
proof -
  note me = mutex_test_okD(7) [OF ok i(1)] and late = mutex_test_okD(6) [OF ok i(1)] and counts = mutex_test_okD(3-5) [OF ok]
  from i(2) consider "pc s i = MyTask_call_lock" | "pc s i = MyTask_unlocked" | "pc s i = MyTask_done" by auto
  then show ?thesis
  proof cases
    case 1
    then show ?thesis using me counts i(1)
      by (intro acts_wellI [OF ok i(1), of M T "s\<lparr>m_locked := m_locked s + 1, pc := (pc s)(i := MyTask_lock)\<rparr>" MyTask_lock]) (simp_all add: moved)
  next
    case 2
    then show ?thesis using late me counts i(1)
      by (intro acts_wellI [OF ok i(1), of M T "s\<lparr>m_locked := m_locked s - 1, pc := (pc s)(i := MyTask_done)\<rparr>" MyTask_done]) (simp_all add: moved)
  next
    case 3
    then show ?thesis using late me counts i(1)
      by (intro acts_wellI [OF ok i(1), of M T "s\<lparr>finished_counter := finished_counter s + 1, pc := (pc s)(i := MyTask_finished)\<rparr>" MyTask_finished]) (simp_all add: moved)
  qed
qed

lemma owner_action_ok:
  assumes ok: "mutex_test_ok owners idle skip n s" and i: "i < n" "idle (base s i) = 0"
    and p: "pc s i \<in> {MyTask_locked, MyTask_critical_area, MyTask_leave}"
  shows "acts_well M T owners idle skip n i s"
proof -
  note counts = mutex_test_okD(3-5) [OF ok] and late = mutex_test_okD(6) [OF ok i(1)]
  have h: "i \<in> set (owners (mutex s))" "hd (owners (mutex s)) = i" "skip (base s i) = 0"
    using mutex_test_okD(7) [OF ok i(1)] i(2) p by (auto simp: mytask_ok_def split: if_splits)
  then have inside: "m_inside_critical_area s = of_bool (is_inside (pc s i))"
    using inside_owner [OF mutex_test_okD(2,1) [OF ok]] counts(1) by (cases "owners (mutex s)") auto
  from p consider "pc s i = MyTask_locked" | "pc s i = MyTask_critical_area" | "pc s i = MyTask_leave" by auto
  then show ?thesis
  proof cases
    case 1
    then show ?thesis using inside h counts i
      by (intro acts_wellI [OF ok i(1), of M T "s\<lparr>m_inside_critical_area := 1, pc := (pc s)(i := MyTask_critical_area)\<rparr>" MyTask_critical_area]) (simp_all add: moved)
  next
    case 2
    show ?thesis
    proof (cases "is_first s \<and> m_locked s < int n")
      case True
      then show ?thesis using 2 ok by (simp add: MyTask_multiplex_impl_def acts_well_def)
    next
      case False
      then show ?thesis using 2 h counts i
        by (intro acts_wellI [OF ok i(1), of M T "s\<lparr>is_first := False, pc := (pc s)(i := MyTask_leave)\<rparr>" MyTask_leave]) (auto simp add: moved)
    qed
  next
    case 3
    then show ?thesis using inside late h counts i
      by (intro acts_wellI [OF ok i(1), of M T "s\<lparr>m_inside_critical_area := 0, pc := (pc s)(i := MyTask_unlock)\<rparr>" MyTask_unlock]) (simp_all add: moved)
  qed
qed

lemma mytask_action_ok:
  assumes "wait_signal_contract T idle skip" "mutex_contract M owners"
    and ok: "mutex_test_ok owners idle skip n s" and i: "i < n" "idle (base s i) = 0"
  shows "acts_well M T owners idle skip n i s"
proof (cases "pc s i")
  case MyTask_lock
  then show ?thesis using lock_ok [OF assms(2) ok i(1)] by (auto simp: acts_well_def)
next
  case MyTask_wait
  then show ?thesis using wait_ok [OF assms(1) ok i(1)] by (auto simp: acts_well_def)
next
  case MyTask_unlock
  then show ?thesis using unlock_ok [OF assms(1,2) ok i(1)] by (auto simp: acts_well_def)
next
  case MyTask_finished
  then show ?thesis using ok by (simp add: MyTask_multiplex_impl_def acts_well_def)
qed (use outside_action_ok [OF ok i(1)] owner_action_ok [OF ok i] in simp_all)

lemma new_mutex_test_ok:
  "owners m0 = [] \<Longrightarrow> idle b0 = 0 \<Longrightarrow> skip b0 = 0 \<Longrightarrow> mutex_test_ok owners idle skip n (new_mutex_test m0 b0)"
  by (simp add: mutex_test_ok_def new_mutex_test_def mytask_ok_def number_at_def pc_kinds)

lemma mutex_step_ok:
  assumes c: "wait_signal_contract T idle skip" and m: "mutex_contract M owners"
    and ok: "mutex_test_ok owners idle skip n s" and step: "mutex_step M T n s s'"
  shows "mutex_test_ok owners idle skip n s' \<and> work_left n s' < work_left n s"
  using step
proof cases
  case (runs i)
  then show ?thesis using mytask_action_ok [OF c m ok runs(1)] contract_waiting [OF c] by (auto simp: acts_well_def)
qed

lemma moves:
  assumes c: "wait_signal_contract T idle skip" and m: "mutex_contract M owners"
    and ok: "mutex_test_ok owners idle skip n s" and i: "i < n" "idle (base s i) = 0" "pc s i \<noteq> MyTask_finished"
    and "\<not> (pc s i = MyTask_critical_area \<and> is_first s \<and> m_locked s < int n)"
  shows "\<exists>s'. mutex_step M T n s s'"
  using mytask_action_ok [OF c m ok i(1,2)] contract_waiting [OF c] i assms(7) by (auto simp: acts_well_def intro: runs)

lemma mutex_test_progress:
  assumes c: "wait_signal_contract T idle skip" and m: "mutex_contract M owners"
    and ok: "mutex_test_ok owners idle skip n s" and j: "j < n" "pc s j \<noteq> MyTask_finished"
  shows "\<exists>s'. mutex_step M T n s s'"
proof (cases "owners (mutex s)")
  case Nil
  have "idle (base s j) = 0" "pc s j \<noteq> MyTask_critical_area" using ok j Nil
    by (cases "pc s j"; force simp: mutex_test_ok_def mytask_ok_def)+
  then show ?thesis using moves [OF c m ok j(1) _ j(2)] by blast
next
  case (Cons h ts)
  have h: "h < n" using ok Cons by (simp add: mutex_test_ok_def)
  have h2: "idle (base s h) = 0 \<and> pc s h \<noteq> MyTask_finished" using ok h Cons
    by (cases "pc s h"; force simp: mutex_test_ok_def mytask_ok_def)
  show ?thesis
  proof (cases "pc s h = MyTask_critical_area \<and> is_first s \<and> m_locked s < int n")
    case False
    then show ?thesis using moves [OF c m ok h] h2 by blast
  next
    case True
    then obtain k where k: "k < n" "\<not> is_locked (pc s k)" using ok not_all_at [of is_locked n "pc s"] by (auto simp: mutex_test_ok_def)
    then have "pc s k = MyTask_call_lock" using ok True by (auto simp: mutex_test_ok_def is_locked_def is_early_def)
    moreover from this have "idle (base s k) = 0" using ok k(1) by (force simp: mutex_test_ok_def mytask_ok_def)
    ultimately show ?thesis using moves [OF c m ok k(1)] by simp
  qed
qed

definition mutex_setting ::
  "'s task_ops \<Rightarrow> ('s \<Rightarrow> condition_type) \<Rightarrow> ('s \<Rightarrow> condition_type) \<Rightarrow> 'm mutex_ops \<Rightarrow> ('m \<Rightarrow> nat list) \<Rightarrow> bool"
where
  "mutex_setting T idle skip M owners \<longleftrightarrow> wait_signal_contract T idle skip \<and> mutex_contract M owners"

interpretation mutex_tasks: terminating
  "\<lambda>s. mutex_setting T idle skip M owners \<and> owners m0 = [] \<and> idle b0 = 0 \<and> skip b0 = 0 \<and> s = new_mutex_test m0 b0"
  "mutex_step M T n" "\<lambda>s. mutex_setting T idle skip M owners \<and> mutex_test_ok owners idle skip n s" "work_left n"
  for T :: "'s task_ops" and idle skip and M :: "'m mutex_ops" and owners m0 b0 n
  by unfold_locales (auto simp: mutex_setting_def intro: new_mutex_test_ok dest: mutex_step_ok)

lemma mutex_runs_bounded:
  assumes "wait_signal_contract T idle skip" "mutex_contract M owners" "owners m0 = []" "idle b0 = 0" "skip b0 = 0"
    and "(mutex_step M T n ^^ k) (new_mutex_test m0 b0) s"
  shows "k + work_left n s \<le> 9 * n \<and> mutex_test_ok owners idle skip n s"
proof -
  have "work_left n (new_mutex_test m0 b0) = 9 * n" by (simp add: work_left_def new_mutex_test_def)
  then show ?thesis
    using mutex_tasks.run_from_start [of k M T n "new_mutex_test m0 b0" s idle skip owners m0 b0] assms by (simp add: mutex_setting_def)
qed

text \<open>
  C34. Well-formed states are kept and never get stuck: with every base class and every mutex that keep their
  contracts, for any number of tasks and under every interleaving, no assertion of a task fails, at most
  one task is in the critical area, some task can act until all have finished, which takes at most nine
  actions for each task, and then the assertions of main hold.
\<close>

theorem mutex_tasks_take_turns:
  assumes "wait_signal_contract T idle skip" "mutex_contract M owners" "owners m0 = []" "idle b0 = 0" "skip b0 = 0"
    and "(mutex_step M T n ^^ k) (new_mutex_test m0 b0) s"
  shows "k \<le> 9 * n \<and> (\<forall>i < n. \<not> waiting_op T (base s i) \<longrightarrow> succeeds (MyTask_multiplex_impl M T n i s)) \<and>
    (\<forall>i < n. \<forall>j < n. is_inside (pc s i) \<and> is_inside (pc s j) \<longrightarrow> i = j) \<and>
    ((\<exists>s'. mutex_step M T n s s') \<longleftrightarrow> finished_counter s \<noteq> int n) \<and>
    (finished_counter s = int n \<longrightarrow> mutex_test_checks s = Inr ())"
proof -
  have b: "k + work_left n s \<le> 9 * n" and ok: "mutex_test_ok owners idle skip n s" using mutex_runs_bounded [OF assms] by auto
  have "is_inside (pc s i) \<Longrightarrow> i < n \<Longrightarrow> hd (owners (mutex s)) = i" for i
    using ok by (cases "pc s i") (force simp: mutex_test_ok_def mytask_ok_def is_inside_def)+
  then have one: "\<forall>i < n. \<forall>j < n. is_inside (pc s i) \<and> is_inside (pc s j) \<longrightarrow> i = j" by blast
  have acts: "\<forall>i < n. \<not> waiting_op T (base s i) \<longrightarrow> succeeds (MyTask_multiplex_impl M T n i s)"
    using mytask_action_ok [OF assms(1,2) ok] contract_waiting [OF assms(1)] unfolding succeeds_iff acts_well_def by blast
  have fin: "finished_counter s = int n \<longleftrightarrow> (\<forall>i < n. pc s i = MyTask_finished)" using ok all_at [of "\<lambda>p. p = MyTask_finished" n "pc s"] by (simp add: mutex_test_ok_def)
  have "\<not> mutex_step M T n s s'" if "finished_counter s = int n" for s'
    using that fin by (auto simp: MyTask_multiplex_impl_def elim!: mutex_step.cases)
  moreover have "\<exists>s'. mutex_step M T n s s'" if "finished_counter s \<noteq> int n"
    using that fin mutex_test_progress [OF assms(1,2) ok] by blast
  moreover have "mutex_test_checks s = Inr ()" if "finished_counter s = int n"
  proof -
    have "number_at is_inside n (pc s) = 0" "number_at is_locked n (pc s) = 0" using that fin by (auto simp: none_at pc_kinds)
    then show ?thesis using ok by (simp add: mutex_test_checks_def mutex_test_ok_def)
  qed
  ultimately show ?thesis using b one acts by fastforce
qed


text \<open>
  Three tasks with the queue as mutex.
\<close>

theorem mutex_tasks_take_turns_witness:
  "\<exists>s'. mutex_step queue_mutex mask_ops 3 (new_mutex_test [] \<lparr>idle_mask = 0, skip_mask = 0\<rparr>) s'"
proof -
  have "mutex_contract queue_mutex (\<lambda>q. q)" by (simp add: mutex_contract_def queue_mutex_def)
  from mutex_tasks_take_turns [OF mask_ops_contract this, of "[]" "\<lparr>idle_mask = 0, skip_mask = 0\<rparr>" 0 3] show ?thesis
    by (simp add: new_mutex_test_def)
qed

end
