(* ===== verification/Pointer_Storage.thy ===== *)
theory Pointer_Storage
  imports Prelude
begin

text \<open>
  The threads of \<^verbatim>\<open>src/pointer_storage_test.cxx\<close>, for every pointer storage that keeps the contract below;
  \<^verbatim>\<open>threadsafe::PointerStorage\<close> (a submodule) is a parameter. A turn of the inner loops of \<^verbatim>\<open>thread\<close> is one
  step: its objects and positions belong to the thread, the storage is thread-safe, \<^verbatim>\<open>counter\<close> is atomic,
  and both are only evaluated after all threads have ended. The timing of an optimised build is left out.
\<close>

section \<open>The storage\<close>

record 'p storage =
  ps_new :: 'p
  ps_insert :: "nat \<Rightarrow> 'p \<Rightarrow> 'p \<times> int"
  ps_get :: "int \<Rightarrow> 'p \<Rightarrow> nat"
  ps_erase :: "int \<Rightarrow> 'p \<Rightarrow> 'p"
  ps_debug_empty :: "'p \<Rightarrow> bool"
  ps_for_each :: "'p \<Rightarrow> nat list"

text \<open>What the test relies on, in terms of the pointer that is stored at an index.\<close>

definition storage_contract :: "'p storage \<Rightarrow> ('p \<Rightarrow> int \<Rightarrow> nat option) \<Rightarrow> bool" where
  "storage_contract S content \<longleftrightarrow>
     content (ps_new S) = Map.empty \<and>
     (\<forall>a p p' i. ps_insert S a p = (p', i) \<longrightarrow> finite (dom (content p)) \<longrightarrow>
        content p i = None \<and> content p' = (content p)(i \<mapsto> a)) \<and>
     (\<forall>p i a. content p i = Some a \<longrightarrow> ps_get S i p = a \<and> content (ps_erase S i p) = (content p)(i := None)) \<and>
     (\<forall>p. ps_debug_empty S p = (content p = Map.empty)) \<and>
     (\<forall>p. finite (dom (content p)) \<longrightarrow> length (ps_for_each S p) = card (dom (content p)))"

section \<open>The objects\<close>

text \<open>An object of class \<^verbatim>\<open>B\<close>; the heap keeps those that have not been deleted.\<close>

record B =
  obj_n :: int
  obj_m :: int

record 'p ps_world =
  ps :: 'p
  objects :: "nat \<Rightarrow> B option"
  next_object :: nat
  counter :: int

definition new_B :: "int \<Rightarrow> int \<Rightarrow> 'p ps_world \<Rightarrow> 'p ps_world \<times> nat" where
  "new_B n m w =
     (w\<lparr>objects := (objects w)(next_object w \<mapsto> \<lparr>obj_n = n, obj_m = m\<rparr>), next_object := next_object w + 1, counter := counter w + 1\<rparr>, next_object w)"

definition delete_B :: "nat \<Rightarrow> 'p ps_world \<Rightarrow> 'p ps_world result" where
  "delete_B a w =
     (case objects w a of
        None \<Rightarrow> Inl Null_pointer
      | Some b \<Rightarrow> bindE (assertE (obj_n b \<ge> 0)) (\<lambda>_. Inr (w\<lparr>objects := (objects w)(a := None), counter := counter w - 1\<rparr>)))"

section \<open>A thread\<close>

text \<open>
  The local variables of \<^verbatim>\<open>thread\<close>. \<^verbatim>\<open>todo\<close> is the number of turns that the inner loop still has to make:
  positive for insertions, negative for removals; nothing while \<^verbatim>\<open>target\<close> is still to be computed.
\<close>

record ps_thread =
  rn :: "int list"
  j :: nat
  todo :: "int option"
  positions :: "int list"

definition new_thread :: "int list \<Rightarrow> ps_thread" where
  "new_thread r = \<lparr>rn = r, j = 0, todo = None, positions = []\<rparr>"

definition ramp :: "ps_thread \<Rightarrow> int" where
  "ramp t = int (j t) mod 1000"

definition target :: "ps_thread \<Rightarrow> int" where
  "target t = rn t ! j t + ramp t"

definition insert_turn :: "'p storage \<Rightarrow> int \<Rightarrow> 'p ps_world \<Rightarrow> ps_thread \<Rightarrow> ('p ps_world \<times> ps_thread) result" where
  "insert_turn S n w t =
     (let (w1, a) = new_B n (int (j t)) w; (p, index) = ps_insert S a (ps w1)
      in Inr (w1\<lparr>ps := p\<rparr>, t\<lparr>positions := positions t @ [index]\<rparr>))"

definition remove_turn :: "'p storage \<Rightarrow> 'p ps_world \<Rightarrow> ps_thread \<Rightarrow> ('p ps_world \<times> ps_thread) result" where
  "remove_turn S w t =
     (if positions t = [] then Inl Division_by_zero
      else
        let pos = nat (ramp t) mod length (positions t);
            index = positions t ! pos;
            a = ps_get S index (ps w);
            w1 = w\<lparr>ps := ps_erase S index (ps w)\<rparr>
        in bindE (delete_B a w1) (\<lambda>w2. Inr (w2, t\<lparr>positions := take pos (positions t) @ drop (pos + 1) (positions t)\<rparr>)))"

definition thread_turn :: "'p storage \<Rightarrow> int \<Rightarrow> 'p ps_world \<Rightarrow> ps_thread \<Rightarrow> ('p ps_world \<times> ps_thread) result" where
  "thread_turn S n w t =
     (case todo t of
        None \<Rightarrow> Inr (w, t\<lparr>todo := Some (target t - int (length (positions t)))\<rparr>)
      | Some k \<Rightarrow>
          if k > 0 then bindE (insert_turn S n w t) (\<lambda>(w', t'). Inr (w', t'\<lparr>todo := Some (k - 1)\<rparr>))
          else if k < 0 then bindE (remove_turn S w t) (\<lambda>(w', t'). Inr (w', t'\<lparr>todo := Some (k + 1)\<rparr>))
          else bindE (assertE (int (length (positions t)) = target t)) (\<lambda>_. Inr (w, t\<lparr>todo := None, j := j t + 1\<rparr>)))"

section \<open>main\<close>

record 'p ps_run =
  world :: "'p ps_world"
  threads :: "ps_thread list"

definition start_threads :: "'p storage \<Rightarrow> int list list \<Rightarrow> 'p ps_run" where
  "start_threads S rnd =
     \<lparr>world = \<lparr>ps = ps_new S, objects = Map.empty, next_object = 0, counter = 0\<rparr>, threads = map new_thread rnd\<rparr>"

definition running :: "ps_thread \<Rightarrow> bool" where
  "running t \<longleftrightarrow> j t < length (rn t)"

inductive ps_step :: "'p storage \<Rightarrow> 'p ps_run \<Rightarrow> 'p ps_run \<Rightarrow> bool" for S where
  turn: "i < length (threads r) \<Longrightarrow> running (threads r ! i) \<Longrightarrow>
    thread_turn S (int i) (world r) (threads r ! i) = Inr (w, t) \<Longrightarrow>
    ps_step S r (r\<lparr>world := w, threads := (threads r)[i := t]\<rparr>)"

text \<open>The assertions after the threads were joined.\<close>

definition final_checks :: "'p storage \<Rightarrow> 'p ps_run \<Rightarrow> unit result" where
  "final_checks S r =
     bindE (assertE (\<not> ps_debug_empty S (ps (world r)))) (\<lambda>_.
     bindE (assertE (sum_list (map (\<lambda>t. int (length (positions t))) (threads r)) = counter (world r))) (\<lambda>_.
       assertE (int (length (ps_for_each S (ps (world r)))) = counter (world r))))"

section \<open>The invariant\<close>

text \<open>The indices that the threads remember.\<close>

definition all_positions :: "ps_thread list \<Rightarrow> int multiset" where
  "all_positions ts = \<Sum>\<^sub># (mset (map (\<lambda>t. mset (positions t)) ts))"

text \<open>The storage holds exactly the objects at these indices, each of them once, and none was deleted.\<close>

definition world_ok :: "('p \<Rightarrow> int \<Rightarrow> nat option) \<Rightarrow> 'p ps_world \<Rightarrow> int multiset \<Rightarrow> bool" where
  "world_ok content w P \<longleftrightarrow>
     finite (dom (content (ps w))) \<and> mset_set (dom (content (ps w))) = P \<and>
     inj_on (content (ps w)) (dom (content (ps w))) \<and>
     (\<forall>i a. content (ps w) i = Some a \<longrightarrow> a < next_object w \<and> (\<exists>b. objects w a = Some b \<and> 0 \<le> obj_n b)) \<and>
     counter w = int (size P)"

text \<open>
  A thread: the random numbers are positive, the number of positions is on its way to the target, and after
  the first number it is not zero.
\<close>

definition thread_ok :: "ps_thread \<Rightarrow> bool" where
  "thread_ok t \<longleftrightarrow> (\<forall>x \<in> set (rn t). 1 \<le> x) \<and> j t \<le> length (rn t) \<and>
     (\<forall>k. todo t = Some k \<longrightarrow> running t \<and> int (length (positions t)) + k = target t) \<and>
     (running t \<or> todo t = None) \<and>
     (todo t = None \<and> 0 < j t \<longrightarrow> int (length (positions t)) = rn t ! (j t - 1) + int (j t - 1) mod 1000)"

definition run_ok :: "('p \<Rightarrow> int \<Rightarrow> nat option) \<Rightarrow> int list list \<Rightarrow> 'p ps_run \<Rightarrow> bool" where
  "run_ok content rnd r \<longleftrightarrow> map rn (threads r) = rnd \<and> (\<forall>t \<in> set (threads r). thread_ok t) \<and>
     world_ok content (world r) (all_positions (threads r))"

text \<open>The programs that the invariant is about: a storage with its contract, and positive random numbers.\<close>

definition good_start :: "'p storage \<Rightarrow> ('p \<Rightarrow> int \<Rightarrow> nat option) \<Rightarrow> int list list \<Rightarrow> bool" where
  "good_start S content rnd \<longleftrightarrow> storage_contract S content \<and> (\<forall>r \<in> set rnd. \<forall>x \<in> set r. 1 \<le> x)"

text \<open>A storage with the contract: a list of indices and pointers.\<close>

definition list_storage :: "(int \<times> nat) list storage" where
  "list_storage =
     \<lparr>ps_new = [], ps_insert = (\<lambda>a p. let i = 1 + sum_list (map (\<lambda>x. \<bar>fst x\<bar>) p) in ((i, a) # p, i)),
      ps_get = (\<lambda>i p. the (map_of p i)), ps_erase = (\<lambda>i p. filter (\<lambda>x. fst x \<noteq> i) p), ps_debug_empty = (\<lambda>p. p = []),
      ps_for_each = (\<lambda>p. map (\<lambda>i. the (map_of p i)) (remdups (map fst p)))\<rparr>"

lemma all_positions_update:
  assumes "i < length ts"
  shows "all_positions (ts[i := t]) + mset (positions (ts ! i)) = all_positions ts + mset (positions t)"
  using assms
proof (induction ts arbitrary: i)
  case (Cons x ts)
  then show ?case
  proof (cases i)
    case (Suc k)
    with Cons.IH [of k] Cons.prems show ?thesis by (simp add: all_positions_def add.assoc add.commute add.left_commute)
  qed (simp add: all_positions_def)
qed simp

lemma positions_in_all: "t \<in> set ts \<Longrightarrow> mset (positions t) \<subseteq># all_positions ts"
  by (induction ts) (auto simp: all_positions_def intro: subset_mset.add_increasing2 subset_mset.add_increasing)

lemma insert_turn_ok:
  assumes "storage_contract S content" "world_ok content w P" "0 \<le> n"
  shows "\<exists>w' index. insert_turn S n w t = Inr (w', t\<lparr>positions := positions t @ [index]\<rparr>) \<and> world_ok content w' (add_mset index P)"
proof -
  let ?c = "content (ps w)"
  obtain p index where ins: "ps_insert S (next_object w) (ps w) = (p, index)" by (cases "ps_insert S (next_object w) (ps w)")
  have fin: "finite (dom ?c)" using assms(2) by (simp add: world_ok_def)
  then have c: "?c index = None" "content p = ?c(index \<mapsto> next_object w)"
    using assms(1) ins unfolding storage_contract_def by blast+
  have fresh: "next_object w \<notin> ran ?c" using assms(2) by (auto simp: world_ok_def ran_def)
  let ?w = "(fst (new_B n (int (j t)) w))\<lparr>ps := p\<rparr>"
  have "inj_on (content p) (dom (content p))"
    using assms(2) c fresh by (auto simp: world_ok_def inj_on_def ran_def dom_def split: if_splits)
  moreover have "mset_set (dom (content p)) = add_mset index P" using assms(2) c fin by (simp add: world_ok_def domIff)
  ultimately have "world_ok content ?w (add_mset index P)"
    using assms(2,3) c fin by (auto simp: world_ok_def new_B_def less_Suc_eq)
  moreover have "insert_turn S n w t = Inr (?w, t\<lparr>positions := positions t @ [index]\<rparr>)"
    using ins by (simp add: insert_turn_def new_B_def)
  ultimately show ?thesis by blast
qed

lemma remove_turn_ok:
  assumes "storage_contract S content" "world_ok content w P" "mset (positions t) \<subseteq># P" "positions t \<noteq> []"
  shows "\<exists>w' pos. pos < length (positions t) \<and>
    remove_turn S w t = Inr (w', t\<lparr>positions := take pos (positions t) @ drop (pos + 1) (positions t)\<rparr>) \<and>
    world_ok content w' (P - {#positions t ! pos#})"
proof -
  let ?c = "content (ps w)" and ?pos = "nat (ramp t) mod length (positions t)"
  let ?index = "positions t ! ?pos"
  have pos: "?pos < length (positions t)" using assms(4) by simp
  have fin: "finite (dom ?c)" "mset_set (dom ?c) = P" using assms(2) by (simp_all add: world_ok_def)
  have "?index \<in># P" using pos mset_subset_eqD [OF assms(3)] by simp
  then have "?index \<in> dom ?c" using fin by (metis finite_set_mset_mset_set)
  then obtain a where a: "?c ?index = Some a" by auto
  then have g: "ps_get S ?index (ps w) = a" "content (ps_erase S ?index (ps w)) = ?c(?index := None)"
    using assms(1) unfolding storage_contract_def by blast+
  from a assms(2) obtain b where b: "objects w a = Some b" "0 \<le> obj_n b" by (auto simp: world_ok_def)
  let ?w = "w\<lparr>ps := ps_erase S ?index (ps w), objects := (objects w)(a := None), counter := counter w - 1\<rparr>"
  have other: "i = ?index" if "?c i = Some a" for i
    using assms(2) a that by (auto simp: world_ok_def inj_on_def dom_def)
  have "inj_on ?c (dom ?c)" using assms(2) by (simp add: world_ok_def)
  then have inj: "inj_on (?c(?index := None)) (dom ?c - {?index})" by (auto simp: inj_on_def)
  have "mset_set (dom ?c - {?index}) = P - {#?index#}" using fin \<open>?index \<in> dom ?c\<close> by (simp add: mset_set_Diff)
  moreover have "int (size (P - {#?index#})) = int (size P) - 1" using \<open>?index \<in># P\<close> by (auto dest!: multi_member_split)
  ultimately have "world_ok content ?w (P - {#?index#})"
    using assms(2) g other fin inj by (auto simp: world_ok_def split: if_splits)
  moreover have "remove_turn S w t = Inr (?w, t\<lparr>positions := take ?pos (positions t) @ drop (?pos + 1) (positions t)\<rparr>)"
    using assms(4) g b by (simp add: remove_turn_def delete_B_def Let_def)
  ultimately show ?thesis using pos by blast
qed


lemma mset_remove_nth: "k < length xs \<Longrightarrow> mset (take k xs @ drop (k + 1) xs) + {#xs ! k#} = mset xs"
  by (metis Suc_eq_plus1 add.commute id_take_nth_drop mset.simps(2) mset_append union_mset_add_mset_right add_mset_add_single)

lemma target_pos: "thread_ok t \<Longrightarrow> running t \<Longrightarrow> 1 \<le> target t"
  by (auto simp: thread_ok_def running_def target_def ramp_def intro: order_trans [of 1 "rn t ! j t"])

lemma thread_turn_ok:
  assumes "storage_contract S content" "world_ok content w P" "mset (positions t) \<subseteq># P" "thread_ok t" "running t" "0 \<le> n"
  shows "\<exists>w' t'. thread_turn S n w t = Inr (w', t') \<and> thread_ok t' \<and> rn t' = rn t \<and>
    world_ok content w' (P - mset (positions t) + mset (positions t'))"
proof (cases "todo t")
  case None
  then show ?thesis using assms(2-5) by (auto simp: thread_turn_def thread_ok_def running_def target_def ramp_def)
next
  case (Some k)
  then have k: "int (length (positions t)) + k = target t" using assms(4) by (simp add: thread_ok_def)
  consider "k > 0" | "k < 0" | "k = 0" by linarith
  then show ?thesis
  proof cases
    case 1
    from insert_turn_ok [OF assms(1,2,6)] obtain w' index
      where i: "insert_turn S n w t = Inr (w', t\<lparr>positions := positions t @ [index]\<rparr>)" "world_ok content w' (add_mset index P)" by blast
    have "P - mset (positions t) + mset (positions t @ [index]) = add_mset index P" using assms(3) by simp
    then show ?thesis using i 1 Some assms(4) by (auto simp: thread_turn_def thread_ok_def running_def target_def ramp_def)
  next
    case 2
    have "positions t \<noteq> []" using k 2 target_pos [OF assms(4,5)] by auto
    from remove_turn_ok [OF assms(1-3) this] obtain w' pos where r: "pos < length (positions t)"
      "remove_turn S w t = Inr (w', t\<lparr>positions := take pos (positions t) @ drop (pos + 1) (positions t)\<rparr>)"
      "world_ok content w' (P - {#positions t ! pos#})" by blast
    let ?rest = "take pos (positions t) @ drop (pos + 1) (positions t)"
    have m: "mset (positions t) = add_mset (positions t ! pos) (mset ?rest)" using mset_remove_nth [OF r(1)] by simp
    obtain Q where Q: "P = mset (positions t) + Q" using assms(3) by (auto simp: subset_mset.le_iff_add)
    have "P - mset (positions t) + mset ?rest = P - {#positions t ! pos#}" unfolding Q m by simp
    moreover have "int (length ?rest) = int (length (positions t)) - 1" using r(1) by simp
    ultimately show ?thesis using r(2,3) 2 Some assms(4) by (auto simp: thread_turn_def thread_ok_def running_def target_def ramp_def)
  next
    case 3
    then show ?thesis using Some k assms(2-5)
      by (auto simp: thread_turn_def thread_ok_def running_def target_def ramp_def)
  qed
qed


lemma start_ok: "good_start S content rnd \<Longrightarrow> run_ok content rnd (start_threads S rnd)"
proof -
  assume g: "good_start S content rnd"
  have "all_positions (map new_thread rnd) = {#}" by (induction rnd) (simp_all add: all_positions_def new_thread_def)
  then show ?thesis using g
    by (auto simp: good_start_def run_ok_def start_threads_def world_ok_def storage_contract_def thread_ok_def new_thread_def running_def comp_def)
qed

lemma run_turn_ok:
  assumes "good_start S content rnd" "run_ok content rnd r" "i < length (threads r)" "running (threads r ! i)"
  shows "\<exists>w t. thread_turn S (int i) (world r) (threads r ! i) = Inr (w, t) \<and>
    run_ok content rnd (r\<lparr>world := w, threads := (threads r)[i := t]\<rparr>)"
proof -
  let ?t = "threads r ! i" and ?P = "all_positions (threads r)"
  have t: "?t \<in> set (threads r)" using assms(3) by simp
  have sub: "mset (positions ?t) \<subseteq># ?P" by (rule positions_in_all [OF t])
  from thread_turn_ok [OF _ _ sub _ assms(4), of S content "world r" "int i"] obtain w t'
    where t': "thread_turn S (int i) (world r) ?t = Inr (w, t')" "thread_ok t'" "rn t' = rn ?t"
      "world_ok content w (?P - mset (positions ?t) + mset (positions t'))"
    using assms(1,2) t by (auto simp: good_start_def run_ok_def)
  have "all_positions ((threads r)[i := t']) + mset (positions ?t) = ?P + mset (positions t')"
    by (rule all_positions_update [OF assms(3)])
  then have "all_positions ((threads r)[i := t']) = ?P - mset (positions ?t) + mset (positions t')"
    using sub by (metis add_diff_cancel_right' subset_mset.add_diff_assoc2)
  moreover have "map rn ((threads r)[i := t']) = rnd"
    using assms(2,3) t'(3) by (simp add: run_ok_def map_update) (metis list_update_id nth_map)
  ultimately have "run_ok content rnd (r\<lparr>world := w, threads := (threads r)[i := t']\<rparr>)"
    using assms(2) t' by (auto simp: run_ok_def dest!: set_update_subset_insert [THEN subsetD])
  with t'(1) show ?thesis by blast
qed

interpretation storage: inductive_invariant "\<lambda>r. good_start S content rnd \<and> r = start_threads S rnd" "ps_step S"
  "\<lambda>r. good_start S content rnd \<and> run_ok content rnd r"
  for S content rnd
proof
  show "good_start S content rnd \<and> run_ok content rnd r" if "good_start S content rnd \<and> r = start_threads S rnd" for r
    using that start_ok by auto
  fix r r' assume inv: "good_start S content rnd \<and> run_ok content rnd r" and "ps_step S r r'"
  from this(2) show "good_start S content rnd \<and> run_ok content rnd r'"
  proof cases
    case (turn i w t)
    from run_turn_ok [OF inv [THEN conjunct1] inv [THEN conjunct2] turn(2,3)] turn(1,4) inv show ?thesis by auto
  qed
qed

lemma size_all_positions: "int (size (all_positions ts)) = sum_list (map (\<lambda>t. int (length (positions t))) ts)"
  by (induction ts) (simp_all add: all_positions_def)

lemma final_checks_ok:
  assumes "good_start S content rnd" "run_ok content rnd r" "\<forall>t \<in> set (threads r). \<not> running t" "rnd \<noteq> []" "\<forall>x \<in> set rnd. x \<noteq> []"
  shows "final_checks S r = Inr ()"
proof -
  let ?c = "content (ps (world r))" and ?P = "all_positions (threads r)"
  have w: "finite (dom ?c)" "mset_set (dom ?c) = ?P" "counter (world r) = int (size ?P)"
    using assms(2) by (simp_all add: run_ok_def world_ok_def)
  have "threads r \<noteq> []" using assms(2,4) by (auto simp: run_ok_def)
  then obtain t where t: "t \<in> set (threads r)" by (cases "threads r") auto
  then have "thread_ok t" "\<not> running t" "rn t \<noteq> []" using assms by (auto simp: run_ok_def)
  then have "1 \<le> rn t ! (j t - 1)" "int (length (positions t)) = rn t ! (j t - 1) + int (j t - 1) mod 1000"
    by (auto simp: thread_ok_def running_def of_nat_diff Suc_leI)
  moreover have "0 \<le> int (j t - 1) mod 1000" by simp
  ultimately have "positions t \<noteq> []" by auto
  then have "?P \<noteq> {#}" using positions_in_all [OF t] by auto
  then have "?c \<noteq> Map.empty" using w(2) by auto
  moreover have "size ?P = card (dom ?c)" using w(1,2) by (metis size_mset_set)
  ultimately show ?thesis using assms(1) w size_all_positions [of "threads r"]
    by (simp add: final_checks_def good_start_def storage_contract_def)
qed

text \<open>
  C33. For every pointer storage that keeps its contract, positive random numbers and every scheduling of the
  threads: no turn of a thread fails (no position is taken from an empty vector, no object is deleted
  twice or through a stale index, the assertion on the number of positions holds), the counter is always
  the number of stored pointers, and after all threads have ended the three assertions of main hold.
\<close>

theorem pointer_storage_test_passes:
  assumes "storage_contract S content" "\<forall>numbers \<in> set rnd. \<forall>x \<in> set numbers. 1 \<le> x"
    and "reach (\<lambda>r. r = start_threads S rnd) (ps_step S) r"
  shows "(\<forall>i < length (threads r). running (threads r ! i) \<longrightarrow> succeeds (thread_turn S (int i) (world r) (threads r ! i))) \<and>
    counter (world r) = int (card (dom (content (ps (world r))))) \<and>
    (rnd \<noteq> [] \<longrightarrow> (\<forall>numbers \<in> set rnd. numbers \<noteq> []) \<longrightarrow> (\<forall>t \<in> set (threads r). \<not> running t) \<longrightarrow> final_checks S r = Inr ())"
proof -
  have g: "good_start S content rnd" using assms(1,2) by (simp add: good_start_def)
  have "reach (\<lambda>r. good_start S content rnd \<and> r = start_threads S rnd) (ps_step S) r"
    using assms(3) g by (induction rule: reach.induct) (auto intro: reach.intros)
  from storage.inv_reach [OF this] have ok: "run_ok content rnd r" by simp
  have "counter (world r) = int (card (dom (content (ps (world r)))))"
    using ok by (auto simp: run_ok_def world_ok_def simp flip: size_mset_set)
  moreover have "\<forall>i < length (threads r). running (threads r ! i) \<longrightarrow> succeeds (thread_turn S (int i) (world r) (threads r ! i))"
    using run_turn_ok [OF g ok] unfolding succeeds_iff by blast
  ultimately show ?thesis using final_checks_ok [OF g ok] by blast
qed


lemma list_storage_contract: "storage_contract list_storage map_of"
proof -
  have le: "\<bar>fst x\<bar> \<le> sum_list (map (\<lambda>x. \<bar>fst x\<bar>) p)" if "x \<in> set p" for x and p :: "(int \<times> nat) list"
    using that
  proof (induction p)
    case (Cons y p)
    have "0 \<le> sum_list (map (\<lambda>x. \<bar>fst x\<bar>) p)" by (intro sum_list_nonneg) auto
    then show ?case using Cons by auto
  qed simp
  have fresh: "map_of p (1 + sum_list (map (\<lambda>x. \<bar>fst x\<bar>) p)) = None" for p :: "(int \<times> nat) list"
  proof -
    have "\<bar>fst x\<bar> \<noteq> \<bar>1 + sum_list (map (\<lambda>x. \<bar>fst x\<bar>) p)\<bar>" if "x \<in> set p" for x using le [OF that] by linarith
    then show ?thesis unfolding map_of_eq_None_iff by (metis imageE)
  qed
  have erase: "map_of (filter (\<lambda>x. fst x \<noteq> i) p) = (map_of p)(i := None)" for i and p :: "(int \<times> nat) list"
    by (induction p) (auto simp: fun_eq_iff)
  show ?thesis using fresh erase
    by (auto simp: storage_contract_def list_storage_def Let_def length_remdups_card_conv dom_map_of_conv_image_fst)
qed

text \<open>
  A thread with the single random number 1 on the list storage.
\<close>

theorem pointer_storage_test_passes_witness:
  "\<exists>r. reach (\<lambda>r. r = start_threads list_storage [[1]]) (ps_step list_storage) r \<and> counter (world r) = 1 \<and> final_checks list_storage r = Inr ()"
proof -
  let ?S = list_storage
  let ?r0 = "start_threads ?S [[1]]"
  let ?t0 = "new_thread [1]" and ?w0 = "world ?r0"
  let ?t1 = "?t0\<lparr>todo := Some 1\<rparr>" let ?t2 = "?t0\<lparr>todo := Some 0, positions := [1]\<rparr>" let ?t3 = "?t0\<lparr>j := 1, positions := [1]\<rparr>"
  let ?w1 = "?w0\<lparr>ps := [(1, 0)], objects := [0 \<mapsto> \<lparr>obj_n = 0, obj_m = 0\<rparr>], next_object := 1, counter := 1\<rparr>"
  let ?r1 = "?r0\<lparr>world := ?w0, threads := (threads ?r0)[0 := ?t1]\<rparr>"
  let ?r2 = "?r1\<lparr>world := ?w1, threads := (threads ?r1)[0 := ?t2]\<rparr>"
  let ?r3 = "?r2\<lparr>world := ?w1, threads := (threads ?r2)[0 := ?t3]\<rparr>"
  note defs = start_threads_def new_thread_def running_def thread_turn_def target_def ramp_def insert_turn_def new_B_def list_storage_def
  have "ps_step ?S ?r0 ?r1" by (rule ps_step.turn) (simp_all add: defs)
  moreover have "ps_step ?S ?r1 ?r2" by (rule ps_step.turn) (simp_all add: defs)
  moreover have "ps_step ?S ?r2 ?r3" by (rule ps_step.turn) (simp_all add: defs)
  moreover have "reach (\<lambda>r. r = ?r0) (ps_step ?S) ?r0" by (rule reach.reach_init) (rule refl)
  ultimately have r: "reach (\<lambda>r. r = ?r0) (ps_step ?S) ?r3" by (blast intro: reach.reach_step)
  have "final_checks ?S ?r3 = Inr ()"
    using pointer_storage_test_passes [OF list_storage_contract _ r] by (simp add: defs)
  moreover have "counter (world ?r3) = 1" by simp
  ultimately show ?thesis using r by blast
qed

end
