(* ===== verification/Signal_Test.thy ===== *)
theory Signal_Test
  imports Prelude
begin

text \<open>
  The threads of \<^verbatim>\<open>src/signal_test.cxx\<close> and the signal handlers that interrupt them. The handlers count the
  signals in two atomic counters and post a semaphore; the threads take from the counters until they are
  empty and wait for the semaphore. Every interleaving is covered; \<^verbatim>\<open>compare_exchange_weak\<close> may fail without
  a reason, and \<^verbatim>\<open>sem_wait\<close> may return early because it was interrupted. The record of the lines at which
  the threads were interrupted is left out.
\<close>

section \<open>The shared variables\<close>

record sig_vars =
  tasks :: nat
  count34 :: int
  count35 :: int
  was_here34 :: int
  was_here35 :: int
  running :: bool

section \<open>The handler\<close>

text \<open>
  \<^verbatim>\<open>sighandler\<close> in its two actions on the shared variables.
\<close>

definition sighandler_count :: "int \<Rightarrow> sig_vars \<Rightarrow> sig_vars" where
  "sighandler_count nr v = (if nr = 34 then v\<lparr>count34 := count34 v + 1\<rparr> else v\<lparr>count35 := count35 v + 1\<rparr>)"

definition sighandler_post :: "sig_vars \<Rightarrow> sig_vars" where
  "sighandler_post v = v\<lparr>tasks := tasks v + 1\<rparr>"

section \<open>A thread\<close>

text \<open>The control points of \<^verbatim>\<open>thrx_run\<close>; the points before an exchange remember \<^verbatim>\<open>cnt\<close>.\<close>

datatype sig_pc =
    While_running | Load34 | Exchange34 int | Was_here34 | Load35 | Exchange35 int | Was_here35 | Sem_wait | Left

text \<open>An action of a thread; \<^verbatim>\<open>fails\<close> is a failure of \<^verbatim>\<open>compare_exchange_weak\<close> without a reason.\<close>

definition thrx_run :: "bool \<Rightarrow> sig_pc \<Rightarrow> sig_vars \<Rightarrow> (sig_pc \<times> sig_vars) option" where
  "thrx_run fails p v =
     (case p of
        While_running \<Rightarrow> Some (if running v then Load34 else Left, v)
      | Load34 \<Rightarrow> Some (if count34 v > 0 then Exchange34 (count34 v) else Load35, v)
      | Exchange34 cnt \<Rightarrow>
          Some (if \<not> fails \<and> count34 v = cnt then (Was_here34, v\<lparr>count34 := cnt - 1\<rparr>) else (Load34, v))
      | Was_here34 \<Rightarrow> Some (Load34, v\<lparr>was_here34 := was_here34 v + 1\<rparr>)
      | Load35 \<Rightarrow> Some (if count35 v > 0 then Exchange35 (count35 v) else Sem_wait, v)
      | Exchange35 cnt \<Rightarrow>
          Some (if \<not> fails \<and> count35 v = cnt then (Was_here35, v\<lparr>count35 := cnt - 1\<rparr>) else (Load35, v))
      | Was_here35 \<Rightarrow> Some (Load35, v\<lparr>was_here35 := was_here35 v + 1\<rparr>)
      | Sem_wait \<Rightarrow> if tasks v > 0 then Some (While_running, v\<lparr>tasks := tasks v - 1\<rparr>) else None
      | Left \<Rightarrow> None)"

section \<open>The sender\<close>

text \<open>
  The signals that \<^verbatim>\<open>thr7_run\<close> sends before it clears \<^verbatim>\<open>running\<close>: the index of the thread and the signal.
\<close>

definition sent_signals :: "int \<Rightarrow> (int \<times> int) list" where
  "sent_signals signr = concat (map (\<lambda>k. map (\<lambda>i. (c_mod i 7, signr + c_mod i 2)) [0..499]) [0..1999])"

section \<open>All threads\<close>

text \<open>
  The variables, the threads, the handlers that have counted and not yet posted, and the signals that were
  handled so far.
\<close>

record sig_state =
  vars :: sig_vars
  at :: "nat \<Rightarrow> sig_pc"
  due :: nat
  handled34 :: int
  handled35 :: int

definition sig_start :: sig_state where
  "sig_start =
     \<lparr>vars = \<lparr>tasks = 0, count34 = 0, count35 = 0, was_here34 = 0, was_here35 = 0, running = True\<rparr>,
      at = (\<lambda>_. While_running), due = 0, handled34 = 0, handled35 = 0\<rparr>"

inductive sig_step :: "nat \<Rightarrow> sig_state \<Rightarrow> sig_state \<Rightarrow> bool" for n where
  acts: "i < n \<Longrightarrow> thrx_run fails (at s i) (vars s) = Some (p, v) \<Longrightarrow>
    sig_step n s (s\<lparr>at := (at s)(i := p), vars := v\<rparr>)"
| interrupted: "i < n \<Longrightarrow> at s i = Sem_wait \<Longrightarrow> sig_step n s (s\<lparr>at := (at s)(i := While_running)\<rparr>)"
| counts: "i < n \<Longrightarrow> at s i \<noteq> Left \<Longrightarrow>
    sig_step n s (s\<lparr>vars := sighandler_count nr (vars s), due := due s + 1,
      handled34 := handled34 s + of_bool (nr = 34), handled35 := handled35 s + of_bool (nr \<noteq> 34)\<rparr>)"
| posts: "0 < due s \<Longrightarrow> sig_step n s (s\<lparr>vars := sighandler_post (vars s), due := due s - 1\<rparr>)"
| stops: "sig_step n s (s\<lparr>vars := (vars s)\<lparr>running := False\<rparr>\<rparr>)"

section \<open>The invariant\<close>

text \<open>A thread at these points looks at the counter again before it waits.\<close>

definition looks34 :: "sig_pc \<Rightarrow> bool" where
  "looks34 p \<longleftrightarrow> (case p of While_running \<Rightarrow> True | Load34 \<Rightarrow> True | Exchange34 _ \<Rightarrow> True | Was_here34 \<Rightarrow> True | _ \<Rightarrow> False)"

definition looks35 :: "sig_pc \<Rightarrow> bool" where
  "looks35 p \<longleftrightarrow> p \<noteq> Sem_wait \<and> p \<noteq> Left"

text \<open>The wake-ups that are on their way and the threads that still look at a counter.\<close>

definition lookers :: "(sig_pc \<Rightarrow> bool) \<Rightarrow> nat \<Rightarrow> sig_state \<Rightarrow> int" where
  "lookers P n s = int (tasks (vars s)) + int (due s) + number_at P n (at s)"

definition counters_ok :: "nat \<Rightarrow> sig_state \<Rightarrow> bool" where
  "counters_ok n s \<longleftrightarrow>
     0 \<le> count34 (vars s) \<and> 0 \<le> count35 (vars s) \<and>
     was_here34 (vars s) + count34 (vars s) + number_at (\<lambda>p. p = Was_here34) n (at s) = handled34 s \<and>
     was_here35 (vars s) + count35 (vars s) + number_at (\<lambda>p. p = Was_here35) n (at s) = handled35 s \<and>
     (\<forall>i < n. case at s i of Exchange34 cnt \<Rightarrow> 0 < cnt | Exchange35 cnt \<Rightarrow> 0 < cnt | _ \<Rightarrow> True)"

definition wake_ups_ok :: "nat \<Rightarrow> sig_state \<Rightarrow> bool" where
  "wake_ups_ok n s \<longleftrightarrow> running (vars s) \<longrightarrow>
     (0 < count34 (vars s) \<longrightarrow> 0 < lookers looks34 n s) \<and> (0 < count35 (vars s) \<longrightarrow> 0 < lookers looks35 n s)"

definition sig_ok :: "nat \<Rightarrow> sig_state \<Rightarrow> bool" where
  "sig_ok n s \<longleftrightarrow> counters_ok n s \<and> wake_ups_ok n s"

lemma looks_simps [simp]:
  "looks34 While_running" "looks34 Load34" "looks34 (Exchange34 c)" "looks34 Was_here34" "\<not> looks34 Load35"
  "\<not> looks34 (Exchange35 c)" "\<not> looks34 Was_here35" "\<not> looks34 Sem_wait" "\<not> looks34 Left"
  by (simp_all add: looks34_def)

lemma looks35_simps [simp]: "looks35 p \<longleftrightarrow> p \<noteq> Sem_wait \<and> p \<noteq> Left"
  by (simp add: looks35_def)

lemma lookers_move:
  "i < n \<Longrightarrow> lookers P n (s\<lparr>at := (at s)(i := p), vars := v\<rparr>) =
     lookers P n s + (of_bool (P p) - of_bool (P (at s i))) + (int (tasks v) - int (tasks (vars s)))"
  by (simp add: lookers_def number_at_update)

lemma lookers_nonneg: "0 \<le> lookers P n s"
  by (simp add: lookers_def number_at_nonneg)

lemma counters_acts:
  assumes "counters_ok n s" "i < n" "thrx_run fails (at s i) (vars s) = Some (p, v)"
  shows "counters_ok n (s\<lparr>at := (at s)(i := p), vars := v\<rparr>)"
  using assms by (cases "at s i") (auto simp: counters_ok_def thrx_run_def number_at_update split: if_splits)

lemma wake_ups_acts:
  assumes "wake_ups_ok n s" "i < n" "thrx_run fails (at s i) (vars s) = Some (p, v)"
  shows "wake_ups_ok n (s\<lparr>at := (at s)(i := p), vars := v\<rparr>)"
  using assms lookers_nonneg [of looks34 n s] lookers_nonneg [of looks35 n s]
  by (cases "at s i") (auto simp: wake_ups_ok_def thrx_run_def lookers_move split: if_splits)

lemmas sig_acts_ok = counters_acts wake_ups_acts

lemmas sig_defs = sig_ok_def counters_ok_def wake_ups_ok_def lookers_def

interpretation signals: inductive_invariant "\<lambda>s. s = sig_start" "sig_step n" "sig_ok n" for n
proof
  show "sig_ok n s" if "s = sig_start" for s
    using that by (simp add: sig_defs sig_start_def number_at_def)
  fix s t assume ok: "sig_ok n s" and "sig_step n s t"
  from this(2) show "sig_ok n t"
  proof cases
    case (acts i fails p v)
    then show ?thesis using ok sig_acts_ok by (simp add: sig_ok_def)
  next
    case (interrupted i)
    then show ?thesis using ok number_at_nonneg [of looks34 n "at s"] number_at_nonneg [of looks35 n "at s"]
      by (auto simp: sig_defs number_at_update)
  next
    case (counts i nr)
    then show ?thesis using ok number_at_nonneg [of looks34 n "at s"] number_at_nonneg [of looks35 n "at s"]
      by (auto simp: sig_defs sighandler_count_def)
  next
    case posts
    then show ?thesis using ok by (auto simp: sig_defs sighandler_post_def of_nat_diff)
  next
    case stops
    then show ?thesis using ok by (simp add: sig_defs)
  qed
qed

text \<open>
  C35. No signal is lost or handled twice, under every interleaving of the threads and their handlers: when the
  threads wait or have left, the signals that were handled by a handler are those that a thread has seen
  and those that are left in the counters; and as long as the program runs, threads that wait with no
  wake-up on its way have seen all of them.
\<close>

theorem no_signal_is_lost:
  assumes "reach (\<lambda>s. s = sig_start) (sig_step n) s"
  shows "(\<forall>i < n. at s i = Sem_wait \<or> at s i = Left) \<longrightarrow>
      was_here34 (vars s) + count34 (vars s) = handled34 s \<and> was_here35 (vars s) + count35 (vars s) = handled35 s \<and>
      (running (vars s) \<and> tasks (vars s) = 0 \<and> due s = 0 \<longrightarrow> was_here34 (vars s) = handled34 s \<and> was_here35 (vars s) = handled35 s)"
proof
  assume q: "\<forall>i < n. at s i = Sem_wait \<or> at s i = Left"
  have ok: "sig_ok n s" by (rule signals.inv_reach [OF assms])
  have "number_at P n (at s) = 0" if "\<not> P Sem_wait" "\<not> P Left" for P using q that by (auto simp: none_at)
  then have "number_at (\<lambda>p. p = Was_here34) n (at s) = 0" "number_at (\<lambda>p. p = Was_here35) n (at s) = 0"
    "number_at looks34 n (at s) = 0" "number_at looks35 n (at s) = 0" by simp_all
  then show "was_here34 (vars s) + count34 (vars s) = handled34 s \<and> was_here35 (vars s) + count35 (vars s) = handled35 s \<and>
      (running (vars s) \<and> tasks (vars s) = 0 \<and> due s = 0 \<longrightarrow> was_here34 (vars s) = handled34 s \<and> was_here35 (vars s) = handled35 s)"
    using ok by (auto simp: sig_defs)
qed

lemma length_concat_same: "\<forall>x \<in> set xs. length (f x) = k \<Longrightarrow> length (concat (map f xs)) = length xs * k"
  by (induction xs) auto

text \<open>
  The sender sends a million signals (not two million, as the comment in main says), all to one of the seven
  threads.
\<close>

theorem sent_signals_count: "length (sent_signals signr) = 1000000 \<and> (\<forall>x \<in> set (sent_signals signr). 0 \<le> fst x \<and> fst x < 7 \<and> (snd x = signr \<or> snd x = signr + 1))"
proof -
  have "length (sent_signals signr) = length [0..1999 :: int] * 500" unfolding sent_signals_def by (intro length_concat_same) simp
  moreover have "i mod 2 = 0 \<or> i mod 2 = 1" for i :: int by presburger
  ultimately show ?thesis by (auto simp: sent_signals_def)
qed

text \<open>
  The end can be missed: \<^verbatim>\<open>running\<close> is cleared without posting the semaphore, so a thread that waits is only
  woken up by one of the interrupting signals that follow, and a thread that is interrupted before it calls
  \<^verbatim>\<open>sem_wait\<close> for the last time waits for ever.
\<close>

theorem threads_can_miss_the_end:
  "\<exists>s. reach (\<lambda>s. s = sig_start) (sig_step 1) s \<and> \<not> running (vars s) \<and> at s 0 = Sem_wait \<and> tasks (vars s) = 0 \<and> due s = 0"
proof -
  let ?R = "reach (\<lambda>s. s = sig_start) (sig_step 1)"
  let ?s = "\<lambda>p r. sig_start\<lparr>at := (at sig_start)(0 := p), vars := (vars sig_start)\<lparr>running := r\<rparr>\<rparr>"
  have "?R sig_start" by (rule reach_init) (rule refl)
  then have "?R (?s While_running True)" by (simp add: sig_start_def fun_upd_idem)
  moreover have "sig_step 1 (?s While_running True) (?s Load34 True)"
    using acts [of 0 1 False "?s While_running True"] by (simp add: thrx_run_def sig_start_def)
  moreover have "sig_step 1 (?s Load34 True) (?s Load35 True)"
    using acts [of 0 1 False "?s Load34 True"] by (simp add: thrx_run_def sig_start_def)
  moreover have "sig_step 1 (?s Load35 True) (?s Sem_wait True)"
    using acts [of 0 1 False "?s Load35 True"] by (simp add: thrx_run_def sig_start_def)
  moreover have "sig_step 1 (?s Sem_wait True) (?s Sem_wait False)"
    using stops [of 1 "?s Sem_wait True"] by (simp add: sig_start_def)
  ultimately have "?R (?s Sem_wait False)" by (blast intro: reach_step)
  then show ?thesis by (intro exI [of _ "?s Sem_wait False"]) (simp add: sig_start_def)
qed


text \<open>
  A thread that was interrupted by signal 34 has seen it when it waits for the semaphore.
\<close>

theorem no_signal_is_lost_witness:
  "\<exists>s. reach (\<lambda>s. s = sig_start) (sig_step 1) s \<and> at s 0 = Sem_wait \<and> handled34 s = 1 \<and> was_here34 (vars s) + count34 (vars s) = 1"
proof -
  let ?R = "reach (\<lambda>s. s = sig_start) (sig_step 1)"
  let ?s = "\<lambda>p t c w d h. \<lparr>vars = \<lparr>tasks = t, count34 = c, count35 = 0, was_here34 = w, was_here35 = 0, running = True\<rparr>,
    at = (\<lambda>_. While_running)(0 := p), due = d, handled34 = h, handled35 = 0\<rparr>"
  have act: "?R s \<Longrightarrow> thrx_run False (at s 0) (vars s) = Some (p, v) \<Longrightarrow> ?R (s\<lparr>at := (at s)(0 := p), vars := v\<rparr>)" for s p v
    by (rule reach_step) (assumption, rule acts, simp_all)
  have "?R sig_start" by (rule reach_init) (rule refl)
  then have "?R (?s While_running 0 0 0 0 0)" by (simp add: sig_start_def fun_upd_idem)
  moreover have "sig_step 1 (?s While_running 0 0 0 0 0) (?s While_running 0 1 0 1 1)"
    using counts [of 0 1 "?s While_running 0 0 0 0 0" 34] by (simp add: sighandler_count_def)
  moreover have "sig_step 1 (?s While_running 0 1 0 1 1) (?s While_running 1 1 0 0 1)"
    using posts [of "?s While_running 0 1 0 1 1" 1] by (simp add: sighandler_post_def)
  ultimately have "?R (?s While_running 1 1 0 0 1)" by (blast intro: reach_step)
  from act [OF this] have "?R (?s Load34 1 1 0 0 1)" by (simp add: thrx_run_def)
  from act [OF this] have "?R (?s (Exchange34 1) 1 1 0 0 1)" by (simp add: thrx_run_def)
  from act [OF this] have "?R (?s Was_here34 1 0 0 0 1)" by (simp add: thrx_run_def)
  from act [OF this] have "?R (?s Load34 1 0 1 0 1)" by (simp add: thrx_run_def)
  from act [OF this] have "?R (?s Load35 1 0 1 0 1)" by (simp add: thrx_run_def)
  from act [OF this] have r: "?R (?s Sem_wait 1 0 1 0 1)" by (simp add: thrx_run_def)
  from no_signal_is_lost [OF r] have "was_here34 (vars (?s Sem_wait 1 0 1 0 1)) + count34 (vars (?s Sem_wait 1 0 1 0 1)) = 1" by simp
  then show ?thesis using r by (intro exI [of _ "?s Sem_wait 1 0 1 0 1"]) simp
qed

end
