(* ===== verification/Timer_Safety.thy ===== *)
theory Timer_Safety
  imports Prelude
begin

text \<open>
  The test of \<^verbatim>\<open>src/timer_threadsafety_test.cxx\<close>: a timer is started and stopped again, and its call-back may run
  in another thread at the same time. The timer itself (a submodule) is represented by what it may do: while
  it runs it can expire at any time, which starts the call-back; \<^verbatim>\<open>stop\<close> succeeds if it still runs, and
  \<^verbatim>\<open>wait_for_possible_expire_to_finish\<close> returns when no call-back runs.
\<close>

section \<open>The test object\<close>

datatype timer_state = Not_running | Running | Expired

text \<open>\<^verbatim>\<open>m_count\<close> and \<^verbatim>\<open>m_stopped\<close> of \<^verbatim>\<open>Test\<close>, the timer and the gate.\<close>

record Test =
  m_timer :: timer_state
  m_count :: int
  m_stopped :: bool
  gate_open :: bool

definition new_Test :: Test where
  "new_Test = \<lparr>m_timer = Not_running, m_count = 0, m_stopped = False, gate_open = False\<rparr>"

definition count_one :: "Test \<Rightarrow> Test result" where
  "count_one t = bindE (assertE (m_count t = 0)) (\<lambda>_. Inr (t\<lparr>m_count := m_count t + 1\<rparr>))"

definition Test_callback :: "Test \<Rightarrow> Test result" where
  "Test_callback t = bindE (count_one t) (\<lambda>t1. Inr (t1\<lparr>gate_open := True\<rparr>))"

definition Test_check_result :: "Test \<Rightarrow> unit result" where
  "Test_check_result t = assertE (m_count t = 1)"

section \<open>main\<close>

definition loop_size :: "int list" where
  "loop_size = [58000, 85000, 136000, 187000, 293000, 345000, 450000, 503000] @ replicate 22 0"

text \<open>
  The control points of the loop of \<^verbatim>\<open>main\<close>: the actions of \<^verbatim>\<open>start\<close>, the delay, the actions of \<^verbatim>\<open>stop\<close>, waiting in
  \<^verbatim>\<open>check_result\<close> and its assertion, and the adjustment of \<^verbatim>\<open>l\<close>.
\<close>

datatype safety_pc =
    Store_zero | Start_timer | Clear_stopped | Delay | Stop_timer | Count_stop | Set_stopped | Wait_expire | Check | Adjust | Ended

record safety =
  test :: Test
  turn :: nat
  l :: int
  at :: safety_pc

definition new_safety :: "int \<Rightarrow> safety" where
  "new_safety l0 = \<lparr>test = new_Test, turn = 0, l = l0, at = Store_zero\<rparr>"

definition number_of_turns :: nat where
  "number_of_turns = 100000"

text \<open>
  An action of \<^verbatim>\<open>main\<close>; \<^const>\<open>None\<close> while it waits for the call-back to end. The delay loop counts \<^verbatim>\<open>l\<close> down
  to zero, which for a negative \<^verbatim>\<open>l\<close> would pass the smallest \<^verbatim>\<open>int\<close>.
\<close>

definition safety_main :: "safety \<Rightarrow> safety result option" where
  "safety_main s =
     (let t = test s in
      case at s of
        Store_zero \<Rightarrow>
          Some (Inr (if turn s < number_of_turns then s\<lparr>test := t\<lparr>m_count := 0\<rparr>, at := Start_timer\<rparr> else s\<lparr>at := Ended\<rparr>))
      | Start_timer \<Rightarrow> Some (Inr (s\<lparr>test := t\<lparr>m_timer := Running\<rparr>, at := Clear_stopped\<rparr>))
      | Clear_stopped \<Rightarrow> Some (Inr (s\<lparr>test := t\<lparr>m_stopped := False\<rparr>, at := Delay\<rparr>))
      | Delay \<Rightarrow> Some (if l s < 0 then Inl Arithmetic_overflow else Inr (s\<lparr>at := Stop_timer\<rparr>))
      | Stop_timer \<Rightarrow>
          Some (Inr (if m_timer t = Running then s\<lparr>test := t\<lparr>m_timer := Not_running\<rparr>, at := Count_stop\<rparr> else s\<lparr>at := Wait_expire\<rparr>))
      | Count_stop \<Rightarrow> Some (bindE (count_one t) (\<lambda>t1. Inr (s\<lparr>test := t1, at := Set_stopped\<rparr>)))
      | Set_stopped \<Rightarrow> Some (Inr (s\<lparr>test := t\<lparr>m_stopped := True, gate_open := True\<rparr>, at := Wait_expire\<rparr>))
      | Wait_expire \<Rightarrow> if m_timer t = Expired then None else Some (Inr (s\<lparr>at := Check\<rparr>))
      | Check \<Rightarrow> Some (bindE (Test_check_result t) (\<lambda>_. Inr (s\<lparr>at := Adjust\<rparr>)))
      | Adjust \<Rightarrow> Some (Inr (s\<lparr>l := (if m_stopped t then l s + 1 else l s - 1), turn := turn s + 1, at := Store_zero\<rparr>))
      | Ended \<Rightarrow> None)"

inductive safety_step :: "safety \<Rightarrow> safety \<Rightarrow> bool" where
  main_acts: "safety_main s = Some (Inr s') \<Longrightarrow> safety_step s s'"
| expires: "m_timer (test s) = Running \<Longrightarrow> safety_step s (s\<lparr>test := (test s)\<lparr>m_timer := Expired\<rparr>\<rparr>)"
| calls_back: "m_timer (test s) = Expired \<Longrightarrow> Test_callback (test s) = Inr t \<Longrightarrow>
    safety_step s (s\<lparr>test := t\<lparr>m_timer := Not_running\<rparr>\<rparr>)"

section \<open>The invariant\<close>

text \<open>
  Between the start and the check exactly one of these is still to happen or has happened: the stop or the
  call-back.
\<close>

definition safety_ok :: "int \<Rightarrow> safety \<Rightarrow> bool" where
  "safety_ok l0 s \<longleftrightarrow>
     (let t = test s in
      (case at s of
         Store_zero \<Rightarrow> m_timer t = Not_running
       | Start_timer \<Rightarrow> m_timer t = Not_running \<and> m_count t = 0
       | Count_stop \<Rightarrow> m_timer t = Not_running \<and> m_count t = 0
       | Set_stopped \<Rightarrow> m_timer t = Not_running \<and> m_count t = 1
       | Wait_expire \<Rightarrow> m_timer t \<noteq> Running \<and> m_count t = of_bool (m_timer t = Not_running)
       | Check \<Rightarrow> m_timer t = Not_running \<and> m_count t = 1
       | Adjust \<Rightarrow> m_timer t = Not_running
       | Ended \<Rightarrow> m_timer t = Not_running
       | _ \<Rightarrow> m_count t = of_bool (m_timer t = Not_running))) \<and>
     turn s \<le> number_of_turns \<and> (at s \<notin> {Store_zero, Ended} \<longrightarrow> turn s < number_of_turns) \<and>
     l0 - int (turn s) \<le> l s \<and> l s \<le> l0 + int (turn s)"

lemma safety_main_ok:
  assumes "safety_ok l0 s" "safety_main s = Some r" "int number_of_turns \<le> l0"
  shows "\<exists>s'. r = Inr s' \<and> safety_ok l0 s'"
  using assms
  by (cases "at s"; cases "m_timer (test s)") (auto simp: safety_ok_def safety_main_def Let_def count_one_def Test_check_result_def split: if_splits)

lemma safety_callback_ok:
  assumes "safety_ok l0 s" "m_timer (test s) = Expired"
  shows "\<exists>t. Test_callback (test s) = Inr t \<and> safety_ok l0 (s\<lparr>test := t\<lparr>m_timer := Not_running\<rparr>\<rparr>)"
  using assms by (cases "at s") (auto simp: safety_ok_def Let_def Test_callback_def count_one_def)

interpretation safe_timer: inductive_invariant "\<lambda>s. int number_of_turns \<le> l0 \<and> s = new_safety l0" safety_step
  "\<lambda>s. int number_of_turns \<le> l0 \<and> safety_ok l0 s" for l0
proof
  show "int number_of_turns \<le> l0 \<and> safety_ok l0 s" if "int number_of_turns \<le> l0 \<and> s = new_safety l0" for s
    using that by (simp add: safety_ok_def new_safety_def new_Test_def)
  fix s s' assume i: "int number_of_turns \<le> l0 \<and> safety_ok l0 s" and "safety_step s s'"
  from this(2) show "int number_of_turns \<le> l0 \<and> safety_ok l0 s'"
  proof cases
    case main_acts
    then show ?thesis using i safety_main_ok [of l0 s] by auto
  next
    case expires
    then show ?thesis using i by (cases "at s") (auto simp: safety_ok_def Let_def)
  next
    case (calls_back t)
    then show ?thesis using i safety_callback_ok [of l0 s] by auto
  qed
qed



end
