(* ===== verification/Spin_Wakeup.thy ===== *)
theory Spin_Wakeup
  imports Prelude
begin

text \<open>
  The threads of \<^verbatim>\<open>src/spin_wakeup_test.cxx\<close>: sleepers take tokens from a semaphore and triggers post them, both as fast as they
  can, under every interleaving. The semaphore (a submodule) is represented by its tokens: \<^verbatim>\<open>fast_try_wait\<close> takes a token
  if there is one and returns how many there were, \<^verbatim>\<open>slow_wait\<close> returns when it has got a token, and \<^verbatim>\<open>post\<close> adds tokens. The
  number of waiting threads in the upper half of its word is left out. Then the evaluation of the points: buckets and averages; the
  time of a point is an input and the plot is left out.
\<close>

section \<open>The shared variables\<close>

definition post_amount :: int where
  "post_amount = 2"

definition number_of_sleeper_threads :: nat where
  "number_of_sleeper_threads = 4"

definition number_of_trigger_threads :: nat where
  "number_of_trigger_threads = 4"

definition number_of_times_to_wait :: int where
  "number_of_times_to_wait = 3000000"

definition number_of_times_to_wait_per_sleeper :: int where
  "number_of_times_to_wait_per_sleeper = c_div number_of_times_to_wait (int number_of_sleeper_threads)"

definition number_of_times_to_post_per_trigger :: int where
  "number_of_times_to_post_per_trigger = c_div (c_div number_of_times_to_wait (int number_of_trigger_threads)) post_amount"

record wake_vars =
  tokens :: int
  delay_loop :: "64 word"
  go :: bool
  woken_up_count :: int
  slow :: int
  fast :: int
  finished_sleepers :: int
  plot_data :: "nat \<Rightarrow> (64 word \<times> int) list"

section \<open>The threads\<close>

text \<open>
  The control points of \<^verbatim>\<open>sleepers\<close>, with \<^verbatim>\<open>n\<close>, \<^verbatim>\<open>dl\<close> and the tokens of \<^verbatim>\<open>word\<close> where they matter later.
\<close>

datatype sleeper_pc =
    Sleeper_start | Fast_try_wait int | Slow_wait int | Count_slow int | Load_delay int | Exchange int "64 word"
  | Add_delay int int | Count_fast int "64 word" int | Woken_up int "64 word" int | Emplace int "64 word" int
  | Count_finished | Sleeper_left

text \<open>
  An action of a sleeper: \<^const>\<open>None\<close> while it waits, \<^verbatim>\<open>fails\<close> is a failure of \<^verbatim>\<open>compare_exchange_weak\<close> without a reason.
\<close>

definition sleepers :: "bool \<Rightarrow> nat \<Rightarrow> sleeper_pc \<Rightarrow> wake_vars \<Rightarrow> (sleeper_pc \<times> wake_vars) result option" where
  "sleepers fails i p v =
     (case p of
        Sleeper_start \<Rightarrow> if go v then Some (Inr (Fast_try_wait 0, v)) else None
      | Fast_try_wait n \<Rightarrow>
          Some (Inr (if n < number_of_times_to_wait_per_sleeper then
              (if tokens v = 0 then (Slow_wait n, v) else (Add_delay n (tokens v), v\<lparr>tokens := tokens v - 1\<rparr>))
            else (Count_finished, v)))
      | Slow_wait n \<Rightarrow> if 0 < tokens v then Some (Inr (Count_slow n, v\<lparr>tokens := tokens v - 1\<rparr>)) else None
      | Count_slow n \<Rightarrow> Some (Inr (Load_delay n, v\<lparr>slow := slow v + 1\<rparr>))
      | Load_delay n \<Rightarrow> Some (Inr (Exchange n (delay_loop v), v))
      | Exchange n dl \<Rightarrow>
          Some (Inr (if dl \<ge> of_int post_amount then
              (if \<not> fails \<and> delay_loop v = dl then (Woken_up n dl 0, v\<lparr>delay_loop := dl - of_int post_amount\<rparr>)
               else (Exchange n (delay_loop v), v))
            else (Woken_up n dl 0, v)))
      | Add_delay n w \<Rightarrow> Some (Inr (Count_fast n (delay_loop v) w, v\<lparr>delay_loop := delay_loop v + 1\<rparr>))
      | Count_fast n dl w \<Rightarrow> Some (Inr (Woken_up n dl w, v\<lparr>fast := fast v + 1\<rparr>))
      | Woken_up n dl w \<Rightarrow> Some (Inr (Emplace n dl w, v\<lparr>woken_up_count := woken_up_count v + 1\<rparr>))
      | Emplace n dl w \<Rightarrow>
          Some (bindE (assertE (w < 40)) (\<lambda>_.
            Inr (Fast_try_wait (n + 1), v\<lparr>plot_data := (plot_data v)(i := plot_data v i @ [(dl, w)])\<rparr>)))
      | Count_finished \<Rightarrow> Some (Inr (Sleeper_left, v\<lparr>finished_sleepers := finished_sleepers v + 1\<rparr>))
      | Sleeper_left \<Rightarrow> None)"

datatype trigger_pc = Trigger_start | Check_tokens int | Post int | Delay int | Trigger_left

text \<open>An action of a trigger; it waits while there are more than eight tokens.\<close>

definition triggers :: "trigger_pc \<Rightarrow> wake_vars \<Rightarrow> (trigger_pc \<times> wake_vars) option" where
  "triggers p v =
     (case p of
        Trigger_start \<Rightarrow> if go v then Some (Check_tokens 0, v) else None
      | Check_tokens n \<Rightarrow>
          if n < number_of_times_to_post_per_trigger then (if tokens v > 8 then None else Some (Post n, v))
          else Some (Trigger_left, v)
      | Post n \<Rightarrow> Some (Delay n, v\<lparr>tokens := tokens v + post_amount\<rparr>)
      | Delay n \<Rightarrow> Some (Check_tokens (n + 1), v)
      | Trigger_left \<Rightarrow> None)"

record wakeup =
  vars :: wake_vars
  sleeper :: "nat \<Rightarrow> sleeper_pc"
  trigger :: "nat \<Rightarrow> trigger_pc"

definition wake_start :: wakeup where
  "wake_start =
     \<lparr>vars = \<lparr>tokens = 0, delay_loop = 0, go = False, woken_up_count = 0, slow = 0, fast = 0, finished_sleepers = 0, plot_data = (\<lambda>_. [])\<rparr>,
      sleeper = (\<lambda>_. Sleeper_start), trigger = (\<lambda>_. Trigger_start)\<rparr>"

inductive wake_step :: "wakeup \<Rightarrow> wakeup \<Rightarrow> bool" where
  main_goes: "\<not> go (vars s) \<Longrightarrow> wake_step s (s\<lparr>vars := (vars s)\<lparr>go := True\<rparr>\<rparr>)"
| sleeper_acts: "i < number_of_sleeper_threads \<Longrightarrow> sleepers fails i (sleeper s i) (vars s) = Some (Inr (p, v)) \<Longrightarrow>
    wake_step s (s\<lparr>vars := v, sleeper := (sleeper s)(i := p)\<rparr>)"
| trigger_acts: "i < number_of_trigger_threads \<Longrightarrow> triggers (trigger s i) (vars s) = Some (p, v) \<Longrightarrow>
    wake_step s (s\<lparr>vars := v, trigger := (trigger s)(i := p)\<rparr>)"

text \<open>The assertion of \<^verbatim>\<open>main\<close> after it has joined the threads, and \<^verbatim>\<open>sanity_check\<close>.\<close>

definition wake_checks :: "wakeup \<Rightarrow> unit result" where
  "wake_checks s =
     bindE (assertE (woken_up_count (vars s) = number_of_times_to_wait)) (\<lambda>_. assertE (tokens (vars s) = 0))"

section \<open>The evaluation of the points\<close>

text \<open>A point in time is a number of nanoseconds; a sum has the number of points that were added.\<close>

type_synonym sums = "(64 word \<times> int) list"

definition nbuckets :: int where
  "nbuckets = 3000"

definition bucket_width :: "int \<Rightarrow> int \<Rightarrow> int" where
  "bucket_width start stop = c_div (stop - start) nbuckets"

definition get_bucket :: "int \<Rightarrow> int \<Rightarrow> int \<Rightarrow> 32 word result" where
  "get_bucket start width tp = (if width = 0 then Inl Division_by_zero else Inr (word_of_int (c_div (tp - start) width)))"

definition add_to_bucket :: "int \<Rightarrow> 64 word \<Rightarrow> sums \<Rightarrow> sums result" where
  "add_to_bucket bucket x sums =
     bindE (get_at sums bucket) (\<lambda>(first, second). bindE (to_int (second + 1)) (\<lambda>second'. set_at sums bucket (first + x, second')))"

definition add_point :: "int \<Rightarrow> int \<Rightarrow> int \<times> 64 word \<times> 32 word \<Rightarrow> sums \<times> sums \<Rightarrow> (sums \<times> sums) result" where
  "add_point start width point sums =
     (case point of (m_time, m_delay_loop, m_tokens) \<Rightarrow> case sums of (delay_loop_sums, tokens_sums) \<Rightarrow>
        bindE (get_bucket start width m_time) (\<lambda>b.
          let bucket = sint b in
          if bucket > nbuckets then Inr (delay_loop_sums, tokens_sums)
          else bindE (add_to_bucket bucket m_delay_loop delay_loop_sums) (\<lambda>ds.
            bindE (add_to_bucket bucket (ucast m_tokens) tokens_sums) (\<lambda>ts. Inr (ds, ts)))))"

primrec add_points :: "int \<Rightarrow> int \<Rightarrow> (int \<times> 64 word \<times> 32 word) list \<Rightarrow> sums \<times> sums \<Rightarrow> (sums \<times> sums) result" where
  "add_points start width [] sums = Inr sums"
| "add_points start width (p # ps) sums = bindE (add_point start width p sums) (add_points start width ps)"

definition empty_sums :: sums where
  "empty_sums = replicate (nat nbuckets) (0, 0)"

definition delay_loop_avg :: "64 word \<times> int \<Rightarrow> 64 word" where
  "delay_loop_avg s = (case s of (first, second) \<Rightarrow> if second \<noteq> 0 then first div word_of_int second else 0)"

definition tokens_avg :: "64 word \<times> int \<Rightarrow> 32 word" where
  "tokens_avg s = (case s of (first, second) \<Rightarrow> if second \<noteq> 0 then ucast (first div word_of_int second) else 0)"

definition max_avg :: "('a :: len) word list \<Rightarrow> 'a word" where
  "max_avg avgs = fold max avgs 0"

section \<open>The invariant\<close>

text \<open>Sums over threads.\<close>

definition total :: "('p \<Rightarrow> int) \<Rightarrow> nat \<Rightarrow> (nat \<Rightarrow> 'p) \<Rightarrow> int" where
  "total g k f = (\<Sum>i < k. g (f i))"

lemma total_update: "i < k \<Longrightarrow> total g k (f(i := x)) = total g k f - g (f i) + g x"
  using sum_update [of i k g f x] by (simp add: total_def)

text \<open>How many tokens a trigger has posted and a sleeper has taken, and how many wake-ups a sleeper has counted.\<close>

definition posts_of :: "trigger_pc \<Rightarrow> int" where
  "posts_of p = (case p of Trigger_start \<Rightarrow> 0 | Check_tokens n \<Rightarrow> n | Post n \<Rightarrow> n | Delay n \<Rightarrow> n + 1 | Trigger_left \<Rightarrow> 375000)"

definition taken_of :: "sleeper_pc \<Rightarrow> int" where
  "taken_of p =
     (case p of
        Sleeper_start \<Rightarrow> 0 | Fast_try_wait n \<Rightarrow> n | Slow_wait n \<Rightarrow> n | Count_slow n \<Rightarrow> n + 1 | Load_delay n \<Rightarrow> n + 1
      | Exchange n _ \<Rightarrow> n + 1 | Add_delay n _ \<Rightarrow> n + 1 | Count_fast n _ _ \<Rightarrow> n + 1 | Woken_up n _ _ \<Rightarrow> n + 1 | Emplace n _ _ \<Rightarrow> n + 1
      | _ \<Rightarrow> 750000)"

definition kind_counted_of :: "sleeper_pc \<Rightarrow> int" where
  "kind_counted_of p = taken_of p - (case p of Count_slow _ \<Rightarrow> 1 | Add_delay _ _ \<Rightarrow> 1 | Count_fast _ _ _ \<Rightarrow> 1 | _ \<Rightarrow> 0)"

definition woken_of :: "sleeper_pc \<Rightarrow> int" where
  "woken_of p = kind_counted_of p - (case p of Load_delay _ \<Rightarrow> 1 | Exchange _ _ \<Rightarrow> 1 | Woken_up _ _ _ \<Rightarrow> 1 | _ \<Rightarrow> 0)"

definition is_post :: "trigger_pc \<Rightarrow> bool" where
  "is_post p \<longleftrightarrow> (case p of Post _ \<Rightarrow> True | _ \<Rightarrow> False)"

text \<open>The counter of a loop stays in its range, and the tokens that a sleeper saw are few.\<close>

definition sleeper_ok :: "sleeper_pc \<Rightarrow> bool" where
  "sleeper_ok p \<longleftrightarrow>
     (case p of
        Fast_try_wait n \<Rightarrow> 0 \<le> n \<and> n \<le> 750000
      | Slow_wait n \<Rightarrow> 0 \<le> n \<and> n < 750000
      | Count_slow n \<Rightarrow> 0 \<le> n \<and> n < 750000
      | Load_delay n \<Rightarrow> 0 \<le> n \<and> n < 750000
      | Exchange n _ \<Rightarrow> 0 \<le> n \<and> n < 750000
      | Add_delay n w \<Rightarrow> 0 \<le> n \<and> n < 750000 \<and> w \<le> 16
      | Count_fast n _ w \<Rightarrow> 0 \<le> n \<and> n < 750000 \<and> w \<le> 16
      | Woken_up n _ w \<Rightarrow> 0 \<le> n \<and> n < 750000 \<and> w \<le> 16
      | Emplace n _ w \<Rightarrow> 0 \<le> n \<and> n < 750000 \<and> w \<le> 16
      | _ \<Rightarrow> True)"

definition trigger_ok :: "trigger_pc \<Rightarrow> bool" where
  "trigger_ok p \<longleftrightarrow>
     (case p of
        Check_tokens n \<Rightarrow> 0 \<le> n \<and> n \<le> 375000
      | Post n \<Rightarrow> 0 \<le> n \<and> n < 375000
      | Delay n \<Rightarrow> 0 \<le> n \<and> n < 375000
      | _ \<Rightarrow> True)"

definition tokens_ok :: "wakeup \<Rightarrow> bool" where
  "tokens_ok s \<longleftrightarrow> 0 \<le> tokens (vars s) \<and> tokens (vars s) = 2 * total posts_of 4 (trigger s) - total taken_of 4 (sleeper s) \<and>
     tokens (vars s) + 2 * number_at is_post 4 (trigger s) \<le> 16"

definition counters_ok :: "wakeup \<Rightarrow> bool" where
  "counters_ok s \<longleftrightarrow> woken_up_count (vars s) = total woken_of 4 (sleeper s) \<and>
     slow (vars s) + fast (vars s) = total kind_counted_of 4 (sleeper s) \<and>
     finished_sleepers (vars s) = number_at (\<lambda>p. p = Sleeper_left) 4 (sleeper s)"

definition wake_ok :: "wakeup \<Rightarrow> bool" where
  "wake_ok s \<longleftrightarrow> tokens_ok s \<and> counters_ok s \<and> (\<forall>i < 4. sleeper_ok (sleeper s i)) \<and> (\<forall>i < 4. trigger_ok (trigger s i))"

lemma constants:
  "number_of_sleeper_threads = 4" "number_of_trigger_threads = 4"
  "number_of_times_to_wait_per_sleeper = 750000" "number_of_times_to_post_per_trigger = 375000"
  by (simp_all add: number_of_sleeper_threads_def number_of_trigger_threads_def number_of_times_to_wait_per_sleeper_def
      number_of_times_to_post_per_trigger_def number_of_times_to_wait_def post_amount_def)

lemmas pc_counts = taken_of_def kind_counted_of_def woken_of_def

text \<open>What an action of a sleeper does to the variables, in terms of the counts of its control points.\<close>

definition sleeper_effect :: "wake_vars \<Rightarrow> sleeper_pc \<Rightarrow> wake_vars \<Rightarrow> sleeper_pc \<Rightarrow> bool" where
  "sleeper_effect v p v' p' \<longleftrightarrow> sleeper_ok p' \<and> go v' = go v \<and>
     tokens v' - tokens v = taken_of p - taken_of p' \<and> 0 \<le> tokens v' \<and> tokens v' \<le> tokens v \<and>
     slow v' + fast v' - (slow v + fast v) = kind_counted_of p' - kind_counted_of p \<and>
     woken_up_count v' - woken_up_count v = woken_of p' - woken_of p \<and>
     finished_sleepers v' - finished_sleepers v = of_bool (p' = Sleeper_left) - of_bool (p = Sleeper_left)"

lemma sleeper_action:
  assumes "sleeper_ok p" "0 \<le> tokens v" "tokens v \<le> 16" "sleepers fails i p v = Some r"
  shows "\<exists>p' v'. r = Inr (p', v') \<and> sleeper_effect v p v' p'"
  using assms by (cases p) (auto simp: sleepers_def sleeper_effect_def sleeper_ok_def pc_counts constants split: if_splits)

lemma sleeper_keeps:
  assumes ok: "wake_ok s" and i: "i < 4" and e: "sleeper_effect (vars s) (sleeper s i) v p"
  shows "wake_ok (s\<lparr>vars := v, sleeper := (sleeper s)(i := p)\<rparr>)"
proof -
  note u = total_update [OF i, of _ "sleeper s" p] number_at_update [OF i, of _ "sleeper s" p]
  have "tokens_ok (s\<lparr>vars := v, sleeper := (sleeper s)(i := p)\<rparr>)"
    using ok e by (auto simp: wake_ok_def tokens_ok_def sleeper_effect_def u)
  moreover have "counters_ok (s\<lparr>vars := v, sleeper := (sleeper s)(i := p)\<rparr>)"
    using ok e by (simp add: wake_ok_def counters_ok_def sleeper_effect_def u)
  ultimately show ?thesis using ok e by (simp add: wake_ok_def sleeper_effect_def)
qed

lemma trigger_keeps:
  assumes ok: "wake_ok s" and i: "i < 4" and a: "triggers (trigger s i) (vars s) = Some (p, v)"
  shows "wake_ok (s\<lparr>vars := v, trigger := (trigger s)(i := p)\<rparr>)"
proof -
  note u = total_update [OF i, of _ "trigger s" p] number_at_update [OF i, of _ "trigger s" p]
  have t: "trigger_ok (trigger s i)" "tokens_ok s" using ok i by (auto simp: wake_ok_def)
  have "number_at is_post 4 (trigger s) \<le> 4 - of_bool (\<not> is_post (trigger s i))"
  proof (cases "is_post (trigger s i)")
    case False
    then have "number_at is_post 4 (trigger s) \<noteq> int 4" using all_at [of is_post 4 "trigger s"] i by blast
    then show ?thesis using number_at_le [of is_post 4 "trigger s"] False by simp
  qed (use number_at_le [of is_post 4 "trigger s"] in simp)
  then have "tokens_ok (s\<lparr>vars := v, trigger := (trigger s)(i := p)\<rparr>)" "trigger_ok p"
    using t a by (cases "trigger s i"; auto simp: triggers_def tokens_ok_def trigger_ok_def posts_of_def is_post_def u constants
        post_amount_def split: if_splits)+
  moreover have "counters_ok (s\<lparr>vars := v, trigger := (trigger s)(i := p)\<rparr>)"
    using ok a by (cases "trigger s i") (auto simp: wake_ok_def counters_ok_def triggers_def split: if_splits)
  ultimately show ?thesis using ok by (simp add: wake_ok_def)
qed

lemma wake_tokens: "wake_ok s \<Longrightarrow> 0 \<le> tokens (vars s) \<and> tokens (vars s) \<le> 16"
  using number_at_nonneg [of is_post 4 "trigger s"] by (simp add: wake_ok_def tokens_ok_def)

interpretation wake: inductive_invariant "\<lambda>s. s = wake_start" wake_step wake_ok
proof
  show "wake_ok s" if "s = wake_start" for s
    using that by (simp add: wake_ok_def tokens_ok_def counters_ok_def wake_start_def total_def number_at_def pc_counts posts_of_def
        is_post_def sleeper_ok_def trigger_ok_def)
  fix s s' assume ok: "wake_ok s" and "wake_step s s'"
  from this(2) show "wake_ok s'"
  proof cases
    case main_goes
    then show ?thesis using ok by (simp add: wake_ok_def tokens_ok_def counters_ok_def)
  next
    case (sleeper_acts i fails p v)
    have "sleeper_ok (sleeper s i)" using ok sleeper_acts(2) by (simp add: wake_ok_def constants)
    from sleeper_action [OF this _ _ sleeper_acts(3)] wake_tokens [OF ok] show ?thesis
      using sleeper_keeps [OF ok] sleeper_acts(1,2) by (auto simp: constants)
  next
    case (trigger_acts i p v)
    then show ?thesis using trigger_keeps [OF ok] by (simp add: constants)
  qed
qed

section \<open>Progress\<close>

lemma sleeper_can_act:
  "go v \<Longrightarrow> p \<noteq> Sleeper_left \<Longrightarrow> \<not> (\<exists>n. p = Slow_wait n \<and> tokens v \<le> 0) \<Longrightarrow> sleepers fails i p v \<noteq> None"
  by (cases p) (auto simp: sleepers_def)

lemma trigger_can_act: "go v \<Longrightarrow> p \<noteq> Trigger_left \<Longrightarrow> tokens v \<le> 8 \<Longrightarrow> triggers p v \<noteq> None"
  by (cases p) (auto simp: triggers_def)

lemma wake_progress:
  assumes ok: "wake_ok s" and left: "\<not> (\<forall>i < 4. sleeper s i = Sleeper_left \<and> trigger s i = Trigger_left)"
  shows "\<exists>s'. wake_step s s'"
proof (cases "go (vars s)")
  case False
  then show ?thesis using main_goes by blast
next
  case True
  have sl: "\<exists>s'. wake_step s s'" if i: "i < 4" "sleepers False i (sleeper s i) (vars s) \<noteq> None" for i
  proof -
    have "sleeper_ok (sleeper s i)" using ok i(1) by (simp add: wake_ok_def)
    then obtain p v where "sleepers False i (sleeper s i) (vars s) = Some (Inr (p, v))"
      using sleeper_action [of "sleeper s i" "vars s" False i] wake_tokens [OF ok] i(2) by auto
    then show ?thesis using sleeper_acts [of i False s p v] i(1) by (auto simp: constants)
  qed
  have tr: "\<exists>s'. wake_step s s'" if i: "i < 4" "triggers (trigger s i) (vars s) \<noteq> None" for i
    using trigger_acts [of i s] i by (auto simp: constants)
  show ?thesis
  proof (cases "0 < tokens (vars s)")
    case tokens: True
    show ?thesis
    proof (cases "\<exists>i < 4. sleeper s i \<noteq> Sleeper_left")
      case True
      then show ?thesis using sl sleeper_can_act [OF \<open>go (vars s)\<close>] tokens by (metis leD)
    next
      case False
      then have "total taken_of 4 (sleeper s) = 4 * 750000" by (simp add: total_def taken_of_def)
      moreover have "total posts_of 4 (trigger s) \<le> (\<Sum>i < (4 :: nat). 375000)" unfolding total_def
        using ok by (intro sum_mono) (auto simp: wake_ok_def trigger_ok_def posts_of_def split: trigger_pc.splits)
      ultimately show ?thesis using ok tokens by (simp add: wake_ok_def tokens_ok_def)
    qed
  next
    case none: False
    show ?thesis
    proof (cases "\<exists>i < 4. trigger s i \<noteq> Trigger_left")
      case True
      then show ?thesis using tr trigger_can_act [OF \<open>go (vars s)\<close>] none by fastforce
    next
      case False
      then have "total posts_of 4 (trigger s) = 4 * 375000" by (simp add: total_def posts_of_def)
      then have taken: "3000000 \<le> total taken_of 4 (sleeper s)" using ok none by (simp add: wake_ok_def tokens_ok_def)
      obtain i where i: "i < 4" "sleeper s i \<noteq> Sleeper_left" using left False by blast
      have "\<not> (\<exists>n. sleeper s i = Slow_wait n)"
      proof
        assume "\<exists>n. sleeper s i = Slow_wait n"
        then have "taken_of (sleeper s i) < 750000" using ok i(1) by (auto simp: wake_ok_def sleeper_ok_def taken_of_def split: sleeper_pc.splits)
        moreover have "taken_of (sleeper s j) \<le> 750000" if "j < 4" for j
          using ok that by (auto simp: wake_ok_def sleeper_ok_def taken_of_def split: sleeper_pc.splits)
        ultimately have "total taken_of 4 (sleeper s) < (\<Sum>i < (4 :: nat). 750000)" unfolding total_def
          using i(1) by (intro sum_strict_mono_ex1) auto
        then show False using taken by simp
      qed
      then show ?thesis using sl [OF i(1)] sleeper_can_act [OF True i(2)] by blast
    qed
  qed
qed

section \<open>The buckets\<close>

text \<open>After some points each sum has at most as many of them, and tokens of at most sixteen for each.\<close>

definition sums_ok :: "nat \<Rightarrow> sums \<Rightarrow> bool" where
  "sums_ok k sums \<longleftrightarrow> length sums = 3000 \<and> (\<forall>(first, second) \<in> set sums. 0 \<le> second \<and> second \<le> int k)"

definition tokens_sums_ok :: "sums \<Rightarrow> bool" where
  "tokens_sums_ok sums \<longleftrightarrow> (\<forall>(first, second) \<in> set sums. uint first \<le> 16 * second)"

text \<open>The quotient that \<^verbatim>\<open>get_bucket\<close> computes.\<close>

definition quotient :: "int \<Rightarrow> int \<Rightarrow> int \<Rightarrow> int" where
  "quotient start width tp = (tp - start) div width"

lemma get_bucket_quotient:
  assumes "start \<le> tp" "0 < width" "quotient start width tp < 2147483648"
  shows "\<exists>b. get_bucket start width tp = Inr b \<and> sint b = quotient start width tp"
proof -
  have "0 \<le> (tp - start) div width" using assms by (simp add: pos_imp_zdiv_nonneg_iff)
  then have "sint (word_of_int ((tp - start) div width) :: 32 word) = (tp - start) div width"
    using assms by (simp add: quotient_def sint_word_ariths signed_of_int signed_take_bit_int_eq_self)
  then show ?thesis using assms by (simp add: get_bucket_def quotient_def)
qed

lemma sum_list_update_int: "i < length xs \<Longrightarrow> sum_list (xs[i := x]) = sum_list xs - xs ! i + (x :: int)"
  by (induction xs arbitrary: i) (auto split: nat.splits)

lemma add_to_bucket_ok:
  assumes ok: "sums_ok k sums" and k: "k < 3000000" and b: "0 \<le> b" "b < 3000"
  shows "\<exists>sums'. add_to_bucket b x sums = Inr sums' \<and> sums_ok (Suc k) sums' \<and> sum_list (map snd sums') = sum_list (map snd sums) + 1 \<and>
    (tokens_sums_ok sums \<and> uint x \<le> 16 \<longrightarrow> tokens_sums_ok sums')"
proof -
  obtain f n where e: "sums ! nat b = (f, n)" by fastforce
  have l: "nat b < length sums" "length sums = 3000" using ok b by (auto simp: sums_ok_def)
  then have "(f, n) \<in> set sums" using e by (metis nth_mem)
  then have n: "0 \<le> n" "n \<le> int k" and t: "tokens_sums_ok sums \<Longrightarrow> uint f \<le> 16 * n" using ok by (auto simp: sums_ok_def tokens_sums_ok_def)
  let ?s = "sums[nat b := (f + x, n + 1)]"
  have "add_to_bucket b x sums = Inr ?s" using l b n k by (simp add: add_to_bucket_def get_at_in_range set_at_in_range e)
  moreover have "sums_ok (Suc k) ?s" using ok n by (fastforce simp: sums_ok_def dest!: set_update_subset_insert [THEN subsetD])
  moreover have "sum_list (map snd ?s) = sum_list (map snd sums) + 1"
    using l e by (simp add: map_update sum_list_update_int)
  moreover have "tokens_sums_ok ?s" if "tokens_sums_ok sums \<and> uint x \<le> 16"
  proof -
    have "uint (f + x) \<le> uint f + uint x" by (simp add: uint_word_ariths zmod_le_nonneg_dividend)
    then have "uint (f + x) \<le> 16 * (n + 1)" using t that by simp
    then show ?thesis using that by (fastforce simp: tokens_sums_ok_def dest!: set_update_subset_insert [THEN subsetD])
  qed
  ultimately show ?thesis by blast
qed

text \<open>One point: beyond the last bucket it is ignored, but number 3000, which does not exist, is not.\<close>

lemma add_point_out_of_range:
  assumes "start \<le> tp" "0 < width" "quotient start width tp = 3000" "length ds = 3000"
  shows "add_point start width (tp, dl, w) (ds, ts) = Inl Out_of_range"
  using get_bucket_quotient [of start tp width] assms by (auto simp: add_point_def add_to_bucket_def get_at_def nbuckets_def)

lemma add_point_ok:
  assumes ok: "sums_ok k ds" "sums_ok k ts" "tokens_sums_ok ts" "k < 3000000" and w: "uint w \<le> 16"
    and q: "start \<le> tp" "0 < width" "quotient start width tp < 2147483648" "quotient start width tp \<noteq> 3000"
  shows "\<exists>ds' ts'. add_point start width (tp, dl, w) (ds, ts) = Inr (ds', ts') \<and> sums_ok (Suc k) ds' \<and> sums_ok (Suc k) ts' \<and> tokens_sums_ok ts' \<and>
    sum_list (map snd ts') = sum_list (map snd ts) + of_bool (quotient start width tp < 3000)"
proof -
  obtain b where b: "get_bucket start width tp = Inr b" "sint b = quotient start width tp" using get_bucket_quotient q by blast
  have q0: "0 \<le> quotient start width tp" using q by (simp add: quotient_def pos_imp_zdiv_nonneg_iff)
  show ?thesis
  proof (cases "quotient start width tp < 3000")
    case True
    have "uint (ucast w :: 64 word) \<le> 16" using w by (simp add: unsigned_ucast_eq take_bit_int_eq_self)
    then show ?thesis using add_to_bucket_ok [OF ok(1,4) q0 True, of dl] add_to_bucket_ok [OF ok(2,4) q0 True, of "ucast w"] True b ok(3)
      by (auto simp: add_point_def nbuckets_def)
  next
    case False
    then show ?thesis using b q(4) ok by (fastforce simp: add_point_def nbuckets_def sums_ok_def)
  qed
qed

lemma tokens_avg_le:
  assumes "uint first \<le> 16 * second" "0 \<le> second" "second \<le> 3000000"
  shows "tokens_avg (first, second) \<le> 16"
proof (cases "second = 0")
  case False
  then have "uint first div second \<le> 16" using assms zdiv_mono1 [of "uint first" "16 * second" second] by simp
  moreover have "uint (word_of_int second :: 64 word) = second" using assms by (simp add: uint_word_of_int)
  ultimately have "uint (first div word_of_int second) \<le> 16" by (simp add: uint_div)
  then show ?thesis using False by (simp add: tokens_avg_def word_le_def unsigned_ucast_eq take_bit_int_eq_self)
qed (simp add: tokens_avg_def)

lemma max_avg_le: "\<forall>a \<in> set avgs. a \<le> b \<Longrightarrow> max_avg avgs \<le> b"
proof -
  have "\<forall>a \<in> set avgs. a \<le> b \<Longrightarrow> m \<le> b \<Longrightarrow> fold max avgs m \<le> b" for m
    by (induction avgs arbitrary: m) auto
  then show "\<forall>a \<in> set avgs. a \<le> b \<Longrightarrow> max_avg avgs \<le> b" by (simp add: max_avg_def)
qed

lemma add_points_ok:
  assumes "\<forall>(tp, dl, w) \<in> set ps. start \<le> tp \<and> quotient start width tp < 2147483648 \<and> quotient start width tp \<noteq> 3000 \<and> uint w \<le> 16"
    and "0 < width" "k + length ps \<le> 3000000" "sums_ok k ds" "sums_ok k ts" "tokens_sums_ok ts"
  shows "\<exists>ds' ts'. add_points start width ps (ds, ts) = Inr (ds', ts') \<and> sums_ok (k + length ps) ts' \<and> tokens_sums_ok ts' \<and>
    sum_list (map snd ts') = sum_list (map snd ts) + int (length (filter (\<lambda>p. quotient start width (fst p) < 3000) ps))"
  using assms
proof (induction ps arbitrary: k ds ts)
  case (Cons p ps)
  obtain tp dl w where p: "p = (tp, dl, w)" by (cases p)
  have "k < 3000000" using Cons.prems(3) by simp
  then obtain ds1 ts1 where s: "add_point start width p (ds, ts) = Inr (ds1, ts1)" "sums_ok (Suc k) ds1" "sums_ok (Suc k) ts1" "tokens_sums_ok ts1"
    "sum_list (map snd ts1) = sum_list (map snd ts) + of_bool (quotient start width tp < 3000)"
    using add_point_ok [OF Cons.prems(4-6), of w start tp width dl] Cons.prems(1,2) unfolding p by auto
  from Cons.IH [OF _ Cons.prems(2) _ s(2-4)] Cons.prems(1,3) show ?case using s p by auto
qed simp

section \<open>Properties\<close>



text \<open>
  What \<^verbatim>\<open>main\<close> makes of the points, when none has quotient 3000: all points before that are counted once, and the average of the tokens is
  at most sixteen in every bucket, and so is their maximum.
\<close>

theorem points_in_buckets:
  assumes "\<forall>(tp, dl, w) \<in> set ps. start \<le> tp \<and> quotient start width tp < 2147483648 \<and> quotient start width tp \<noteq> 3000 \<and> uint w \<le> 16"
    and "0 < width" "length ps \<le> 3000000"
  shows "\<exists>ds ts. add_points start width ps (empty_sums, empty_sums) = Inr (ds, ts) \<and>
    sum_list (map snd ts) = int (length (filter (\<lambda>p. quotient start width (fst p) < 3000) ps)) \<and> (\<forall>s \<in> set ts. tokens_avg s \<le> 16) \<and>
    max_avg (map tokens_avg ts) \<le> 16"
proof -
  have "sums_ok 0 empty_sums" "tokens_sums_ok empty_sums" "sum_list (map snd empty_sums) = 0"
    by (simp_all add: sums_ok_def tokens_sums_ok_def empty_sums_def nbuckets_def sum_list_replicate)
  with add_points_ok [OF assms(1,2), of 0 empty_sums empty_sums] assms(3)
  obtain ds ts where r: "add_points start width ps (empty_sums, empty_sums) = Inr (ds, ts)" "sums_ok (length ps) ts" "tokens_sums_ok ts"
    "sum_list (map snd ts) = int (length (filter (\<lambda>p. quotient start width (fst p) < 3000) ps))" by auto
  have "\<forall>s \<in> set ts. tokens_avg s \<le> 16"
    using r(2,3) assms(3) by (fastforce simp: sums_ok_def tokens_sums_ok_def intro!: tokens_avg_le)
  then show ?thesis using r max_avg_le [of "map tokens_avg ts" 16] by auto
qed

text \<open>
  The guard lets one point pass that is outside the arrays: with a run of six million nanoseconds and one more, a point at the very end
  of it has quotient 3000.
\<close>

theorem last_point_out_of_range:
  "add_point 0 (bucket_width 0 6000001) (6000001, dl, w) (empty_sums, empty_sums) = Inl Out_of_range"
  by (rule add_point_out_of_range) (simp_all add: bucket_width_def nbuckets_def quotient_def empty_sums_def)

end
