(* ===== verification/File_Lock.thy ===== *)
theory File_Lock
  imports Prelude
begin

text \<open>
  The program \<^verbatim>\<open>src/filelock.cxx\<close>, run by any number of processes at the same time on the same lock file. The lock (boost, a
  library) is represented by its documented behaviour: \<^verbatim>\<open>lock\<close> waits until nobody has the lock, \<^verbatim>\<open>unlock\<close> must be called by the
  process that has it. The time that is measured and printed is left out.
\<close>

section \<open>The program\<close>

definition loopsize :: nat where
  "loopsize = 100000"

text \<open>The control points of \<^verbatim>\<open>main\<close>: the first lock, the loop (before its unlock and before its lock) and the end.\<close>

datatype flock_pc = Attempting | Unlocking nat | Locking nat | Leaving

record flock =
  holder :: "nat option"
  at :: "nat \<Rightarrow> flock_pc"

definition new_flock :: flock where
  "new_flock = \<lparr>holder = None, at = (\<lambda>_. Attempting)\<rparr>"

text \<open>The calls of the lock; \<^const>\<open>None\<close> while \<^verbatim>\<open>lock\<close> waits.\<close>

definition flock_lock :: "nat \<Rightarrow> flock_pc \<Rightarrow> flock \<Rightarrow> flock result option" where
  "flock_lock p next s = (if holder s = None then Some (Inr (s\<lparr>holder := Some p, at := (at s)(p := next)\<rparr>)) else None)"

definition flock_unlock :: "nat \<Rightarrow> flock_pc \<Rightarrow> flock \<Rightarrow> flock result option" where
  "flock_unlock p next s =
     Some (bindE (assertE (holder s = Some p)) (\<lambda>_. Inr (s\<lparr>holder := None, at := (at s)(p := next)\<rparr>)))"

definition flock_main :: "nat \<Rightarrow> flock \<Rightarrow> flock result option" where
  "flock_main p s =
     (case at s p of
        Attempting \<Rightarrow> flock_lock p (Unlocking 0) s
      | Unlocking i \<Rightarrow> flock_unlock p (if i < loopsize then Locking i else Leaving) s
      | Locking i \<Rightarrow> flock_lock p (Unlocking (i + 1)) s
      | Leaving \<Rightarrow> None)"

inductive flock_step :: "nat \<Rightarrow> flock \<Rightarrow> flock \<Rightarrow> bool" for n where
  flock_calls: "p < n \<Longrightarrow> flock_main p s = Some (Inr s') \<Longrightarrow> flock_step n s s'"

section \<open>The invariant\<close>

definition has_lock :: "flock_pc \<Rightarrow> bool" where
  "has_lock q \<longleftrightarrow> (case q of Unlocking _ \<Rightarrow> True | _ \<Rightarrow> False)"

definition turn_ok :: "flock_pc \<Rightarrow> bool" where
  "turn_ok q \<longleftrightarrow> (case q of Unlocking i \<Rightarrow> i \<le> loopsize | Locking i \<Rightarrow> i < loopsize | _ \<Rightarrow> True)"

definition flock_ok :: "nat \<Rightarrow> flock \<Rightarrow> bool" where
  "flock_ok n s \<longleftrightarrow> (\<forall>p < n. has_lock (at s p) \<longleftrightarrow> holder s = Some p) \<and> (\<forall>p. holder s = Some p \<longrightarrow> p < n) \<and>
     (\<forall>p < n. turn_ok (at s p))"

text \<open>The calls that a process still makes.\<close>

definition calls_left :: "flock_pc \<Rightarrow> nat" where
  "calls_left q =
     (case q of
        Attempting \<Rightarrow> 2 * loopsize + 2
      | Unlocking i \<Rightarrow> 2 * (loopsize - i) + 1
      | Locking i \<Rightarrow> 2 * (loopsize - i)
      | Leaving \<Rightarrow> 0)"

lemma flock_lock_ok:
  "flock_ok n s \<Longrightarrow> p < n \<Longrightarrow> holder s = None \<Longrightarrow> has_lock q \<Longrightarrow> turn_ok q \<Longrightarrow> flock_ok n (s\<lparr>holder := Some p, at := (at s)(p := q)\<rparr>)"
  by (auto simp: flock_ok_def)

lemma flock_unlock_ok:
  "flock_ok n s \<Longrightarrow> p < n \<Longrightarrow> holder s = Some p \<Longrightarrow> \<not> has_lock q \<Longrightarrow> turn_ok q \<Longrightarrow> flock_ok n (s\<lparr>holder := None, at := (at s)(p := q)\<rparr>)"
  by (auto simp: flock_ok_def)

lemma flock_main_ok:
  assumes ok: "flock_ok n s" and p: "p < n" and r: "flock_main p s = Some r"
  shows "\<exists>q h. r = Inr (s\<lparr>holder := h, at := (at s)(p := q)\<rparr>) \<and> flock_ok n (s\<lparr>holder := h, at := (at s)(p := q)\<rparr>) \<and>
    calls_left q + 1 = calls_left (at s p)"
proof (cases "at s p")
  case Attempting
  then have "holder s = None" "r = Inr (s\<lparr>holder := Some p, at := (at s)(p := Unlocking 0)\<rparr>)"
    using r by (auto simp: flock_main_def flock_lock_def split: if_splits)
  then show ?thesis using Attempting flock_lock_ok [OF ok p, of "Unlocking 0"]
    by (intro exI [of _ "Unlocking 0"] exI [of _ "Some p"]) (simp add: has_lock_def turn_ok_def calls_left_def)
next
  case (Unlocking i)
  let ?q = "if i < loopsize then Locking i else Leaving"
  have "has_lock (at s p) \<longleftrightarrow> holder s = Some p" "turn_ok (at s p)" using ok p by (simp_all add: flock_ok_def)
  then have h: "holder s = Some p" "i \<le> loopsize" by (simp_all add: Unlocking has_lock_def turn_ok_def)
  then have "r = Inr (s\<lparr>holder := None, at := (at s)(p := ?q)\<rparr>)" using Unlocking r by (simp add: flock_main_def flock_unlock_def)
  then show ?thesis using Unlocking h flock_unlock_ok [OF ok p h(1), of ?q]
    by (intro exI [of _ ?q] exI [of _ None]) (simp add: has_lock_def turn_ok_def calls_left_def)
next
  case (Locking i)
  have "turn_ok (at s p)" using ok p by (simp add: flock_ok_def)
  then have i: "i < loopsize" by (simp add: Locking turn_ok_def)
  have "holder s = None" "r = Inr (s\<lparr>holder := Some p, at := (at s)(p := Unlocking (i + 1))\<rparr>)"
    using Locking r by (auto simp: flock_main_def flock_lock_def split: if_splits)
  then show ?thesis using Locking i flock_lock_ok [OF ok p, of "Unlocking (i + 1)"]
    by (intro exI [of _ "Unlocking (i + 1)"] exI [of _ "Some p"]) (simp add: has_lock_def turn_ok_def calls_left_def)
qed (use r in \<open>simp add: flock_main_def\<close>)

lemma flock_runs:
  "(flock_step n ^^ k) new_flock s \<Longrightarrow> flock_ok n s \<and> k + (\<Sum>p < n. calls_left (at s p)) = n * (2 * loopsize + 2)"
proof (induction k arbitrary: s)
  case 0
  then show ?case by (auto simp: new_flock_def flock_ok_def has_lock_def turn_ok_def calls_left_def)
next
  case (Suc k)
  then obtain t where t: "(flock_step n ^^ k) new_flock t" "flock_step n t s" by auto
  from t(2) obtain p where p: "p < n" "flock_main p t = Some (Inr s)" by (auto elim: flock_step.cases)
  from Suc.IH [OF t(1)] have ok: "flock_ok n t" by simp
  from flock_main_ok [OF ok p] obtain q h where q: "s = t\<lparr>holder := h, at := (at t)(p := q)\<rparr>" "flock_ok n s"
    "calls_left q + 1 = calls_left (at t p)" by auto
  have "(\<Sum>j < n. calls_left (at s j)) + calls_left (at t p) = (\<Sum>j < n. calls_left (at t j)) + calls_left q"
    using sum_update [OF p(1), of calls_left "at t" q] q(1) by simp
  then show ?case using Suc.IH [OF t(1)] q(2,3) by simp
qed

section \<open>Properties\<close>

text \<open>
  Any number of processes take turns: only the process that has the lock unlocks it, some process can go on
  until all have ended, which they have after 2 * loopsize + 2 calls each, and then nobody has the lock.
\<close>

theorem file_lock_turns:
  assumes "(flock_step n ^^ k) new_flock s"
  shows "(\<forall>p < n. \<forall>e. flock_main p s \<noteq> Some (Inl e)) \<and> k \<le> n * (2 * loopsize + 2) \<and>
    ((\<exists>s'. flock_step n s s') \<longleftrightarrow> k < n * (2 * loopsize + 2)) \<and> (k = n * (2 * loopsize + 2) \<longrightarrow> holder s = None)"
proof -
  have ok: "flock_ok n s" and w: "k + (\<Sum>p < n. calls_left (at s p)) = n * (2 * loopsize + 2)" using flock_runs [OF assms] by auto
  have no_fault: "\<forall>p < n. \<forall>e. flock_main p s \<noteq> Some (Inl e)" using flock_main_ok [OF ok] by blast
  have left: "calls_left (at s p) = 0 \<longleftrightarrow> at s p = Leaving" if "p < n" for p
    using ok that by (cases "at s p") (auto simp: calls_left_def flock_ok_def turn_ok_def)
  have "(\<Sum>p < n. calls_left (at s p)) = 0 \<longleftrightarrow> (\<forall>p < n. at s p = Leaving)" using left by (simp add: Ball_def)
  then have ended: "k = n * (2 * loopsize + 2) \<longleftrightarrow> (\<forall>p < n. at s p = Leaving)" using w by (metis add_cancel_right_right)
  have "\<exists>p < n. flock_main p s \<noteq> None" if p: "p < n" "at s p \<noteq> Leaving" for p
  proof (cases "holder s")
    case None
    then show ?thesis using p by (intro exI [of _ p]) (simp add: flock_main_def flock_lock_def flock_unlock_def split: flock_pc.splits)
  next
    case (Some h)
    then have "h < n" "has_lock (at s h)" using ok by (auto simp: flock_ok_def)
    then show ?thesis by (intro exI [of _ h]) (auto simp: flock_main_def flock_unlock_def has_lock_def split: flock_pc.splits)
  qed
  then have "\<exists>s'. flock_step n s s'" if "\<not> (\<forall>p < n. at s p = Leaving)"
    using that flock_main_ok [OF ok] by (metis flock_calls option.exhaust)
  moreover have "\<not> flock_step n s s'" if "\<forall>p < n. at s p = Leaving" for s' using that by (auto simp: flock_main_def elim: flock_step.cases)
  moreover have "holder s = None" if "\<forall>p < n. at s p = Leaving" using that ok by (cases "holder s") (auto simp: flock_ok_def has_lock_def)
  moreover have "k \<le> n * (2 * loopsize + 2)" using w by simp
  ultimately show ?thesis using no_fault ended by (metis le_neq_implies_less less_irrefl)
qed

end
