(* ===== verification/Main_Loop.thy ===== *)
theory Main_Loop
  imports Prelude
begin

text \<open>
  Programs that start a task and run the engine's main loop until the task's call-back was called:
  \<^verbatim>\<open>src/resolver_getnameinfo.cxx\<close> and \<^verbatim>\<open>src/minimal.cxx\<close>. The task and the engine (submodules) are
  parameters: which call-backs, with which value of \<^verbatim>\<open>success\<close>, each call of \<^verbatim>\<open>engine.mainloop()\<close> makes, and
  what the task answers. An exception of type \<^verbatim>\<open>AIAlert::Error\<close> is a \<^const>\<open>None\<close> of the operation that throws
  it. Debug output is left out.
\<close>

section \<open>The loop\<close>

text \<open>
  \<^verbatim>\<open>while (!finished) engine.mainloop()\<close>, from the \<^verbatim>\<open>i\<close>th call on; \<^const>\<open>None\<close> when the fuel does not suffice.
\<close>

primrec main_loop :: "('s \<Rightarrow> bool) \<Rightarrow> (bool \<Rightarrow> 's \<Rightarrow> 's) \<Rightarrow> (nat \<Rightarrow> bool list) \<Rightarrow> nat \<Rightarrow> nat \<Rightarrow> 's \<Rightarrow> 's option" where
  "main_loop finished callback calls 0 i s = (if finished s then Some s else None)"
| "main_loop finished callback calls (Suc fuel) i s =
     (if finished s then Some s else main_loop finished callback calls fuel (i + 1) (fold callback (calls i) s))"

section \<open>resolver_getnameinfo.cxx\<close>

record resolver =
  test_finished :: int
  std_out :: string
  std_err :: string

definition endl :: string where
  "endl = [CHR 0x0A]"

text \<open>The answer of the task: the result, or an error.\<close>

definition callback :: "string + string \<Rightarrow> bool \<Rightarrow> resolver \<Rightarrow> resolver" where
  "callback answer success s =
     (let s1 =
        (if success then
           let s2 = s\<lparr>std_out := std_out s @ ''Call back is called.'' @ endl\<rparr> in
           (case answer of
              Inr name \<Rightarrow> s2\<lparr>std_out := std_out s2 @ ''Result: \"'' @ name @ ''\".'' @ endl\<rparr>
            | Inl e \<Rightarrow> s2\<lparr>std_out := std_out s2 @ ''There was an error: '' @ e @ endl\<rparr>)
         else s)
      in s1\<lparr>test_finished := test_finished s1 + 1\<rparr>)"

text \<open>
  \<^verbatim>\<open>main\<close>: the exit status and the output. \<^verbatim>\<open>address\<close> is the constructor of \<^verbatim>\<open>SocketAddress\<close> followed by its
  output operator.
\<close>

definition resolver_main ::
  "(string \<Rightarrow> string option) \<Rightarrow> (string \<Rightarrow> string + string) \<Rightarrow> (nat \<Rightarrow> bool list) \<Rightarrow> nat \<Rightarrow> string list \<Rightarrow> (int \<times> resolver) option result"
where
  "resolver_main address answer calls fuel argv =
     (let s = \<lparr>test_finished = 0, std_out = [], std_err = []\<rparr> in
      if length argv \<noteq> 2 then
        bindE (get_at argv 0) (\<lambda>name. Inr (Some (1, s\<lparr>std_err := ''Usage: '' @ name @ '' <IP address>'' @ endl\<rparr>)))
      else
        bindE (get_at argv 1) (\<lambda>arg.
          case address arg of
            None \<Rightarrow> Inr (Some (0, s))
          | Some socket_address \<Rightarrow>
              let s1 = s\<lparr>std_out := ''socket_address = '' @ socket_address @ endl\<rparr> in
              Inr (case main_loop (\<lambda>s. test_finished s \<ge> 1) (callback (answer socket_address)) calls fuel 0 s1 of
                     None \<Rightarrow> None
                   | Some s2 \<Rightarrow> Some (0, s2))))"

section \<open>minimal.cxx\<close>

text \<open>\<^verbatim>\<open>test_finished\<close> after the loop; the call-back sets it whatever the outcome of the task.\<close>

definition minimal_main :: "(nat \<Rightarrow> bool list) \<Rightarrow> nat \<Rightarrow> bool option" where
  "minimal_main calls fuel = main_loop (\<lambda>finished. finished) (\<lambda>success finished. True) calls fuel 0 False"

section \<open>The loop ends with the first call-backs\<close>

text \<open>What the call-back prints for an outcome of the task.\<close>

definition report :: "string + string \<Rightarrow> bool \<Rightarrow> string" where
  "report answer success =
     (if success then ''Call back is called.'' @ endl @
        (case answer of Inr name \<Rightarrow> ''Result: \"'' @ name @ ''\".'' | Inl e \<Rightarrow> ''There was an error: '' @ e) @ endl
      else [])"

lemma main_loop_ends:
  assumes "\<And>k. k < n \<Longrightarrow> calls (i + k) = []" "\<not> finished s" "finished (fold cb (calls (i + n)) s)" "n < fuel"
  shows "main_loop finished cb calls fuel i s = Some (fold cb (calls (i + n)) s)"
  using assms
proof (induction n arbitrary: i fuel)
  case 0
  then obtain f where "fuel = Suc f" by (cases fuel) auto
  then show ?case using 0 by (cases f) auto
next
  case (Suc n)
  then obtain f where f: "fuel = Suc f" by (cases fuel) auto
  have "calls i = []" using Suc.prems(1) [of 0] by simp
  moreover have "main_loop finished cb calls f (i + 1) s = Some (fold cb (calls (i + 1 + n)) s)"
    using Suc.prems Suc.prems(1) [of "Suc k" for k] f by (intro Suc.IH) auto
  ultimately show ?case using f Suc.prems(2) by simp
qed

lemma main_loop_waits:
  assumes "\<And>k. calls k = []" "\<not> finished s"
  shows "main_loop finished cb calls fuel i s = None"
  using assms by (induction fuel arbitrary: i) auto

text \<open>
  When the task calls back once, in whatever turn of the main loop, main ends with the exit status and
  the output of its four cases: a wrong number of arguments, an address that throws (caught, and not
  reported in the exit status), an aborted task and a task that ended with a result or an error.
\<close>

theorem resolver_main_result:
  assumes "\<And>k. k < n \<Longrightarrow> calls k = []" "calls n = [success]" "n < fuel" "argv \<noteq> []"
  shows "resolver_main address answer calls fuel argv =
    Inr (Some (if length argv \<noteq> 2 then (1, \<lparr>test_finished = 0, std_out = [], std_err = ''Usage: '' @ hd argv @ '' <IP address>'' @ endl\<rparr>)
      else case address (argv ! 1) of
          None \<Rightarrow> (0, \<lparr>test_finished = 0, std_out = [], std_err = []\<rparr>)
        | Some a \<Rightarrow> (0, \<lparr>test_finished = 1, std_out = ''socket_address = '' @ a @ endl @ report (answer a) success, std_err = []\<rparr>)))"
proof (cases "length argv = 2 \<and> address (argv ! 1) \<noteq> None")
  case True
  then obtain a where a: "address (argv ! 1) = Some a" by auto
  let ?s = "\<lparr>test_finished = 0, std_out = ''socket_address = '' @ a @ endl, std_err = []\<rparr>"
  have c: "fold (callback (answer a)) (calls (0 + n)) ?s =
      \<lparr>test_finished = 1, std_out = ''socket_address = '' @ a @ endl @ report (answer a) success, std_err = []\<rparr>"
    using assms(2) by (simp add: callback_def report_def Let_def split: sum.splits)
  have "main_loop (\<lambda>s. test_finished s \<ge> 1) (callback (answer a)) calls fuel 0 ?s = Some (fold (callback (answer a)) (calls (0 + n)) ?s)"
    using assms(1,3) c by (intro main_loop_ends) auto
  then show ?thesis using True a c by (simp add: resolver_main_def get_at_def Let_def)
qed (use assms(4) in \<open>auto simp: resolver_main_def get_at_def Let_def hd_conv_nth split: option.splits\<close>)

text \<open>
  A lookup that is answered in the third turn of the main loop.
\<close>

theorem resolver_main_result_witness:
  "resolver_main (\<lambda>a. Some a) (\<lambda>a. Inr ''localhost'') (\<lambda>k. if k = 2 then [True] else []) 5 [''resolver'', ''127.0.0.1''] =
     Inr (Some (0, \<lparr>test_finished = 1, std_out = ''socket_address = 127.0.0.1'' @ endl @ report (Inr ''localhost'') True, std_err = []\<rparr>))"
  using resolver_main_result [of 2 "\<lambda>k. if k = 2 then [True] else []" True 5 "[''resolver'', ''127.0.0.1'']" "\<lambda>a. Some a" "\<lambda>a. Inr ''localhost''"]
  by simp

text \<open>
  The loop of \<^verbatim>\<open>minimal.cxx\<close> ends exactly when the task's call-back is called.
\<close>

theorem minimal_main_ends:
  "(\<exists>fuel. minimal_main calls fuel = Some True) \<longleftrightarrow> (\<exists>n. calls n \<noteq> [])"
proof
  assume "\<exists>n. calls n \<noteq> []"
  then obtain n where n: "calls n \<noteq> []" "\<And>k. k < n \<Longrightarrow> calls k = []" by (meson exists_least_iff)
  have "fold (\<lambda>success finished. True) (calls (0 + n)) False" using n(1) by (cases "calls n" rule: rev_cases) auto
  then have "minimal_main calls (Suc n) = Some True"
    unfolding minimal_main_def using n by (subst main_loop_ends [where n = n]) auto
  then show "\<exists>fuel. minimal_main calls fuel = Some True" ..
next
  assume "\<exists>fuel. minimal_main calls fuel = Some True"
  then show "\<exists>n. calls n \<noteq> []" using main_loop_waits [of calls "\<lambda>finished. finished" False] by (force simp: minimal_main_def)
qed

end
