(* ===== verification/Network_Tests.thy ===== *)
theory Network_Tests
  imports Main_Loop
begin

text \<open>
  The own code of the programs that use tasks of the submodules for the network: \<^verbatim>\<open>src/AILookupTask_test.cxx\<close> (a look-up whose call-back runs
  the task again), \<^verbatim>\<open>src/AIResolver_test.cxx\<close> (three requests), \<^verbatim>\<open>src/AITimer_test.cxx\<close>, \<^verbatim>\<open>src/socket_task_test.cxx\<close> (the decoder) and
  \<^verbatim>\<open>src/proxy_test.cxx\<close> (the accepted socket). When the tasks call back, and what they answer, are inputs.
\<close>

section \<open>The loop\<close>

lemma main_loop_skip:
  assumes "\<And>k. k < n \<Longrightarrow> calls (i + k) = []" "\<not> finished s"
  shows "main_loop finished cb calls (n + fuel) i s = main_loop finished cb calls fuel (i + n) s"
  using assms
proof (induction n arbitrary: i)
  case (Suc n)
  have "calls i = []" using Suc.prems(1) [of 0] by simp
  moreover have "main_loop finished cb calls (n + fuel) (i + 1) s = main_loop finished cb calls fuel (i + 1 + n) s"
    using Suc.prems(1) [of "Suc k" for k] Suc.prems(2) by (intro Suc.IH) auto
  ultimately show ?case using Suc.prems(2) by simp
qed simp

lemma main_loop_never:
  assumes "\<And>s k. I s \<Longrightarrow> \<not> finished s \<and> I (fold cb (calls k) s)" "I s"
  shows "main_loop finished cb calls fuel i s = None"
  using assms(2) by (induction fuel arbitrary: i s) (use assms(1) in auto)

section \<open>AILookupTask_test.cxx\<close>

text \<open>\<^verbatim>\<open>lookups\<close> is the number of times that the task was run; it calls back only while it is running.\<close>

record lookup =
  test_finished :: int
  lookup_out :: string
  lookup_running :: bool
  lookups :: nat

text \<open>The call-back; \<^verbatim>\<open>answer k\<close> is the result, or the error, of the \<^verbatim>\<open>k\<close>th run of the task.\<close>

definition lookup_callback :: "(nat \<Rightarrow> string + string) \<Rightarrow> bool \<Rightarrow> lookup \<Rightarrow> lookup" where
  "lookup_callback answer success s =
     (if \<not> lookup_running s then s
      else
        let s1 = s\<lparr>lookup_running := False\<rparr>;
            s2 = (if success then
                let s3 = s1\<lparr>lookup_out := lookup_out s1 @ ''Call back is called.'' @ endl @
                      (case answer (lookups s1) of Inr r \<Rightarrow> r | Inl e \<Rightarrow> ''There was an error: '' @ e) @ endl\<rparr> in
                if test_finished s3 = 0 then s3\<lparr>lookup_running := True, lookups := lookups s3 + 1\<rparr> else s3
              else s1) in
        s2\<lparr>test_finished := test_finished s2 + 1\<rparr>)"

definition lookup_start :: lookup where
  "lookup_start = \<lparr>test_finished = 0, lookup_out = [], lookup_running = True, lookups = 1\<rparr>"

definition lookup_main :: "(nat \<Rightarrow> string + string) \<Rightarrow> (nat \<Rightarrow> bool list) \<Rightarrow> nat \<Rightarrow> lookup option" where
  "lookup_main answer calls fuel = main_loop (\<lambda>s. test_finished s \<ge> 2) (lookup_callback answer) calls fuel 0 lookup_start"

section \<open>AIResolver_test.cxx\<close>

text \<open>The loop that waits for the third request: the number of the turn in which it is ready.\<close>

primrec wait_ready :: "(nat \<Rightarrow> bool) \<Rightarrow> nat \<Rightarrow> nat \<Rightarrow> nat option" where
  "wait_ready ready 0 i = (if ready i then Some i else None)"
| "wait_ready ready (Suc fuel) i = (if ready i then Some i else wait_ready ready fuel (i + 1))"

text \<open>The error of a request, or its port and addresses.\<close>

type_synonym answered = "string + int \<times> string"

text \<open>What is printed for a request: its port and addresses on the standard output, or its error on the error output.\<close>

definition print_request :: "string \<Rightarrow> answered \<Rightarrow> string \<times> string \<Rightarrow> string \<times> string" where
  "print_request nr r out =
     (case r of
        Inr (port, addresses) \<Rightarrow> (fst out @ ''Result'' @ nr @ '': port = '' @ show_int port @ ''; IP#'s = '' @ addresses @ endl, snd out)
      | Inl e \<Rightarrow> (fst out, snd out @ ''Failure'' @ nr @ '': '' @ e @ ''.'' @ endl))"

definition requests_main ::
  "(nat \<Rightarrow> bool) \<Rightarrow> (nat \<Rightarrow> bool) \<Rightarrow> (nat \<Rightarrow> bool) \<Rightarrow> answered \<Rightarrow> answered \<Rightarrow> answered \<Rightarrow> nat \<Rightarrow>
    (string \<times> string) option result"
where
  "requests_main ready ready2 ready3 r r2 r3 fuel =
     (case wait_ready ready3 fuel 0 of
        None \<Rightarrow> Inr None
      | Some i \<Rightarrow>
          bindE (assertE (ready i \<and> ready2 i)) (\<lambda>_.
            Inr (Some (print_request ''3'' r3 (print_request ''2'' r2 (print_request '''' r ([], [])))))))"

section \<open>AITimer_test.cxx\<close>

text \<open>The call-back stores the time that is printed, in tenths of a millisecond; \<^verbatim>\<open>us\<close> is the measured number of microseconds.\<close>

record timer_test =
  timer_finished :: bool
  timed_out_after :: "int option"

definition timer_callback :: "int \<Rightarrow> bool \<Rightarrow> timer_test \<Rightarrow> timer_test" where
  "timer_callback us success s =
     (let s1 = (if success then s\<lparr>timed_out_after := Some (c_div us 100)\<rparr> else s) in s1\<lparr>timer_finished := True\<rparr>)"

definition timer_main :: "int \<Rightarrow> (nat \<Rightarrow> bool list) \<Rightarrow> nat \<Rightarrow> timer_test option" where
  "timer_main us calls fuel = main_loop timer_finished (timer_callback us) calls fuel 0 \<lparr>timer_finished = False, timed_out_after = None\<rparr>"

section \<open>socket_task_test.cxx\<close>

definition end_of_page :: string where
  "end_of_page = ''#5</body></html>'' @ endl"

text \<open>Whether the decoder stops the input device: the comparison of the last 17 characters.\<close>

definition stops_input :: "string \<Rightarrow> bool" where
  "stops_input msg \<longleftrightarrow> length msg \<ge> 17 \<and> take 17 (drop (length msg - 17) msg) = end_of_page"

section \<open>proxy_test.cxx\<close>

record ProxyAcceptedSocket =
  dbus_socket :: bool
  m_connected :: bool
  closed :: bool
  forwarded :: string

definition proxy_init :: "ProxyAcceptedSocket \<Rightarrow> ProxyAcceptedSocket" where
  "proxy_init s = s\<lparr>dbus_socket := True, m_connected := False\<rparr>"

definition connected :: "bool \<Rightarrow> ProxyAcceptedSocket \<Rightarrow> ProxyAcceptedSocket" where
  "connected success s = (if success then s\<lparr>m_connected := True\<rparr> else s\<lparr>closed := True\<rparr>)"

text \<open>\<^verbatim>\<open>data_received\<close>: \<^const>\<open>None\<close> for a turn of the loop that waits for the connection.\<close>

definition data_received :: "string \<Rightarrow> ProxyAcceptedSocket \<Rightarrow> ProxyAcceptedSocket option" where
  "data_received new_data s = (if m_connected s then Some (s\<lparr>forwarded := forwarded s @ new_data\<rparr>) else None)"

section \<open>Properties\<close>

lemma lookup_once:
  "lookup_callback answer True lookup_start =
     \<lparr>test_finished = 1, lookup_out = ''Call back is called.'' @ endl @ (case answer 1 of Inr r \<Rightarrow> r | Inl e \<Rightarrow> ''There was an error: '' @ e) @ endl,
      lookup_running = True, lookups = 2\<rparr>"
  by (simp add: lookup_callback_def lookup_start_def Let_def)

text \<open>When the first run of the task succeeds, the loop ends with the call-back of the second run, whatever its outcome.\<close>

theorem lookup_main_ends:
  assumes "\<And>k. k < n \<Longrightarrow> calls k = []" "calls n = [True]" "\<And>k. n < k \<Longrightarrow> k < n + d \<Longrightarrow> calls k = []" "calls (n + d) = [success]" "0 < d"
  shows "\<exists>s. lookup_main answer calls (n + d + 1) = Some s \<and> test_finished s = 2 \<and> lookups s = 2"
proof -
  let ?s = "lookup_callback answer True lookup_start" and ?f = "\<lambda>s. test_finished s \<ge> 2"
  have "lookup_main answer calls (n + d + 1) = main_loop ?f (lookup_callback answer) calls (Suc d) n lookup_start"
    unfolding lookup_main_def using main_loop_skip [of n calls 0 ?f lookup_start "lookup_callback answer" "Suc d"] assms(1)
    by (simp add: lookup_start_def)
  also have "\<dots> = main_loop ?f (lookup_callback answer) calls d (n + 1) ?s"
    using assms(2) by (simp add: lookup_start_def)
  also have "\<dots> = main_loop ?f (lookup_callback answer) calls 1 (n + 1 + (d - 1)) ?s"
    using main_loop_skip [of "d - 1" calls "n + 1" ?f ?s "lookup_callback answer" 1] assms(3,5) by (simp add: lookup_once)
  also have "\<dots> = Some (lookup_callback answer success ?s)"
    using assms(4,5) by (simp add: lookup_once) (simp add: lookup_callback_def Let_def)
  finally show ?thesis unfolding lookup_once by (auto simp: lookup_callback_def Let_def)
qed

text \<open>
  When the first run of the task is aborted, the call-back does not run it again but counts it: the loop, which waits for two call-backs, never
  ends.
\<close>

theorem aborted_lookup_never_ends:
  assumes "\<And>k. k < n \<Longrightarrow> calls k = []" "calls n = False # cs"
  shows "lookup_main answer calls fuel = None"
proof -
  let ?f = "\<lambda>s. test_finished s \<ge> 2" and ?I = "\<lambda>s. \<not> lookup_running s \<and> test_finished s = 1"
  have keep: "fold (lookup_callback answer) bs s = s" if "\<not> lookup_running s" for bs s
    using that by (induction bs) (simp_all add: lookup_callback_def)
  have never: "main_loop ?f (lookup_callback answer) calls k j s = None" if "?I s" for s k j
    by (rule main_loop_never [where I = ?I]) (use that keep in auto)
  have first: "?I (fold (lookup_callback answer) (calls n) lookup_start)"
    using assms(2) keep by (simp add: lookup_callback_def lookup_start_def Let_def)
  have empty: "fold (lookup_callback answer) (calls j) lookup_start = lookup_start" if "j < n" for j using assms(1) that by simp
  have "main_loop ?f (lookup_callback answer) calls fuel j lookup_start = None" if "j \<le> n" for j
    using that
  proof (induction fuel arbitrary: j)
    case (Suc fuel)
    then show ?case using never [OF first] empty [of j] by (cases "j = n") (auto simp: lookup_start_def)
  qed (simp add: lookup_start_def)
  then show ?thesis by (simp add: lookup_main_def)
qed

lemma wait_ready_eq: "ready (i + n) \<Longrightarrow> (\<And>k. k < n \<Longrightarrow> \<not> ready (i + k)) \<Longrightarrow> n \<le> fuel \<Longrightarrow> wait_ready ready fuel i = Some (i + n)"
proof (induction n arbitrary: i fuel)
  case 0
  then show ?case by (cases fuel) auto
next
  case (Suc n)
  then obtain f where f: "fuel = Suc f" "n \<le> f" by (cases fuel) auto
  have "\<not> ready i" using Suc.prems(2) [of 0] by simp
  moreover have "wait_ready ready f (i + 1) = Some (i + 1 + n)"
    using Suc.prems(1) Suc.prems(2) [of "Suc k" for k] f by (intro Suc.IH) auto
  ultimately show ?case using f by simp
qed

text \<open>
  \<^verbatim>\<open>main\<close> waits for its second request only: it prints the three results when the other two are ready in the turn in which that one is, and ends in
  a failing assertion otherwise.
\<close>

theorem requests_main_result:
  assumes "ready3 n" "\<And>k. k < n \<Longrightarrow> \<not> ready3 k" "n \<le> fuel"
  shows "requests_main ready ready2 ready3 r r2 r3 fuel =
    (if ready n \<and> ready2 n then Inr (Some (print_request ''3'' r3 (print_request ''2'' r2 (print_request '''' r ([], []))))) else Inl Assertion_failed)"
  using wait_ready_eq [of ready3 0 n fuel] assms by (simp add: requests_main_def assertE_def)

text \<open>The loop of the timer program ends with the call-back, and prints the time exactly when the timer was not aborted.\<close>

theorem timer_main_result:
  assumes "\<And>k. k < n \<Longrightarrow> calls k = []" "calls n = [success]" "n < fuel"
  shows "timer_main us calls fuel = Some \<lparr>timer_finished = True, timed_out_after = (if success then Some (c_div us 100) else None)\<rparr>"
  unfolding timer_main_def using assms
  by (subst main_loop_ends [where n = n]) (auto simp: timer_callback_def Let_def)

text \<open>The decoder stops exactly at the end of a page, in the last characters of a message.\<close>

theorem stops_input_iff: "stops_input msg \<longleftrightarrow> (\<exists>text. msg = text @ end_of_page)"
proof
  assume "stops_input msg"
  then have "msg = take (length msg - 17) msg @ end_of_page" by (simp add: stops_input_def) (metis append_take_drop_id)
  then show "\<exists>text. msg = text @ end_of_page" ..
qed (auto simp: stops_input_def end_of_page_def endl_def)

text \<open>After a failed connection the accepted socket never forwards data: whoever delivers them waits for ever.\<close>

theorem failed_connection_blocks: "data_received new_data (connected False (proxy_init s)) = None"
  by (simp add: data_received_def connected_def proxy_init_def)

end
