(* ===== verification/Delayed_Function.thy ===== *)
theory Delayed_Function
  imports Prelude
begin

text \<open>
  \<^verbatim>\<open>src/function.cxx\<close>: functions whose call is separated from their execution. \<^verbatim>\<open>AIDelayedFunction\<close> (a
  submodule) is a parameter; the program's own functions give their result and what they print.
\<close>

section \<open>The delayed functions\<close>

type_synonym callable = "int list \<Rightarrow> (int \<times> string) result"

record 'f delayed_ops =
  construct :: "callable \<Rightarrow> 'f"
  call_op :: "int list \<Rightarrow> 'f \<Rightarrow> 'f"
  invoke_op :: "'f \<Rightarrow> ('f \<times> string) result"
  get_op :: "'f \<Rightarrow> int"

text \<open>
  What the program relies on: a call keeps the arguments and executes nothing, \<^verbatim>\<open>invoke\<close> executes the
  function with them, \<^verbatim>\<open>get\<close> returns its result.
\<close>

definition delayed_contract :: "'f delayed_ops \<Rightarrow> bool" where
  "delayed_contract D \<longleftrightarrow>
     (\<forall>c args. case c args of
        Inl e \<Rightarrow> invoke_op D (call_op D args (construct D c)) = Inl e
      | Inr (v, printed) \<Rightarrow> (\<exists>f. invoke_op D (call_op D args (construct D c)) = Inr (f, printed) \<and> get_op D f = v))"

section \<open>The program\<close>

definition newline :: string where
  "newline = [CHR 0x0A]"

fun arg_text :: "int list \<Rightarrow> string" where
  "arg_text [] = ''''"
| "arg_text [x] = show_int x"
| "arg_text (x # xs) = show_int x @ '', '' @ arg_text xs"

definition g :: callable where
  "g args = Inr (0, ''Calling g('' @ arg_text args @ '')'' @ newline)"

definition A_g :: callable where
  "A_g args = Inr (0, ''Calling A::g('' @ arg_text args @ '')'' @ newline)"

definition h :: callable where
  "h args = Inr (0, ''Calling h()'' @ newline)"

definition lambda_print :: callable where
  "lambda_print args = Inr (0, ''Calling lambda('' @ arg_text args @ '')'' @ newline)"

definition lambda_sum :: callable where
  "lambda_sum args = (case args of [x, y] \<Rightarrow> bindE (to_int (x + y)) (\<lambda>v. Inr (v, '''')) | _ \<Rightarrow> Inl Out_of_range)"

definition function_main :: "'f delayed_ops \<Rightarrow> string result" where
  "function_main D =
     (let f1 = call_op D [1, 2] (construct D A_g);
          f2 = call_op D [3, 4] (construct D g);
          f3 = call_op D [5, 6] (construct D lambda_print);
          f4 = call_op D [] (construct D h);
          sum_f = call_op D [21, 21] (construct D lambda_sum);
          out0 = ''Before calling invoke().'' @ newline
      in bindE (invoke_op D sum_f) (\<lambda>(sum_f, o1).
         bindE (invoke_op D f4) (\<lambda>(f4, o2).
         bindE (invoke_op D f3) (\<lambda>(f3, o3).
         bindE (invoke_op D f2) (\<lambda>(f2, o4).
         bindE (invoke_op D f1) (\<lambda>(f1, o5).
           Inr (out0 @ o1 @ o2 @ o3 @ o4 @ o5 @ show_int (get_op D sum_f) @ newline)))))))"

text \<open>The output that the comment at the end of \<^verbatim>\<open>main\<close> announces.\<close>

definition documented_output :: string where
  "documented_output =
     ''Before calling f.invoke().'' @ newline @ ''Calling lambda(5, 6)'' @ newline @ ''Calling g(3, 4)'' @ newline @
     ''Calling A::g(1, 2)'' @ newline @ ''42'' @ newline"

section \<open>The output\<close>

text \<open>Functions that keep the callable, the arguments and the result.\<close>

definition simple_delayed :: "(callable \<times> int list \<times> int) delayed_ops" where
  "simple_delayed =
     \<lparr>construct = (\<lambda>c. (c, [], 0)), call_op = (\<lambda>args (c, _, v). (c, args, v)),
      invoke_op = (\<lambda>(c, args, v). bindE (c args) (\<lambda>(v', printed). Inr ((c, args, v'), printed))),
      get_op = (\<lambda>(c, args, v). v)\<rparr>"

lemma invoke_delayed:
  assumes "delayed_contract D" "c args = Inr (v, printed)"
  obtains f where "invoke_op D (call_op D args (construct D c)) = Inr (f, printed)" "get_op D f = v"
proof -
  have "case c args of Inl e \<Rightarrow> invoke_op D (call_op D args (construct D c)) = Inl e
    | Inr (v, printed) \<Rightarrow> (\<exists>f. invoke_op D (call_op D args (construct D c)) = Inr (f, printed) \<and> get_op D f = v)"
    using assms(1) unfolding delayed_contract_def by blast
  then show thesis using assms(2) that by auto
qed

lemma show_numbers [simp]: "show_int 1 = ''1''" "show_int 2 = ''2''" "show_int 3 = ''3''" "show_int 4 = ''4''" "show_int 5 = ''5''"
  "show_int 6 = ''6''" "show_int 42 = ''42''"
  by (simp_all add: show_int_def show_nat.simps char_of_def bit_iff_odd)

text \<open>
  With every delayed function that keeps its contract, nothing is executed before invoke, the functions
  are executed in the order of the calls of invoke with the arguments of their calls, and the result is
  printed last; the line of h() is part of the output.
\<close>

theorem function_main_output:
  assumes "delayed_contract D"
  shows "function_main D = Inr (''Before calling invoke().'' @ newline @ ''Calling h()'' @ newline @ ''Calling lambda(5, 6)'' @ newline @
    ''Calling g(3, 4)'' @ newline @ ''Calling A::g(1, 2)'' @ newline @ ''42'' @ newline)"
proof -
  obtain s where s: "invoke_op D (call_op D [21, 21] (construct D lambda_sum)) = Inr (s, '''')" "get_op D s = 42"
    by (rule invoke_delayed [OF assms, of lambda_sum "[21, 21]" 42 "''''"]) (simp add: lambda_sum_def)
  obtain f4 where f4: "invoke_op D (call_op D [] (construct D h)) = Inr (f4, ''Calling h()'' @ newline)"
    by (rule invoke_delayed [OF assms, of h "[]"]) (auto simp: h_def)
  obtain f3 where f3: "invoke_op D (call_op D [5, 6] (construct D lambda_print)) = Inr (f3, ''Calling lambda(5, 6)'' @ newline)"
    by (rule invoke_delayed [OF assms, of lambda_print "[5, 6]"]) (auto simp: lambda_print_def)
  obtain f2 where f2: "invoke_op D (call_op D [3, 4] (construct D g)) = Inr (f2, ''Calling g(3, 4)'' @ newline)"
    by (rule invoke_delayed [OF assms, of g "[3, 4]"]) (auto simp: g_def)
  obtain f1 where f1: "invoke_op D (call_op D [1, 2] (construct D A_g)) = Inr (f1, ''Calling A::g(1, 2)'' @ newline)"
    by (rule invoke_delayed [OF assms, of A_g "[1, 2]"]) (auto simp: A_g_def)
  show ?thesis using s f1 f2 f3 f4 by (simp add: function_main_def Let_def)
qed

text \<open>
  A delayed function with the contract; the output is not the one that the comment in main announces.
\<close>

theorem function_main_output_witness:
  "\<exists>out. function_main simple_delayed = Inr out \<and> out \<noteq> documented_output"
proof -
  have "delayed_contract simple_delayed" by (auto simp: delayed_contract_def simple_delayed_def split: sum.splits)
  from function_main_output [OF this] show ?thesis by (simp add: documented_output_def)
qed

end
