(* ===== verification/Yield_Test.thy ===== *)
theory Yield_Test
  imports Prelude
begin

text \<open>
  The task of \<^verbatim>\<open>src/threadpool_yield_test.cxx\<close>, which yields from each handler to each other one: immediate, the engine and two
  queues of the thread pool. The base class \<^verbatim>\<open>AIStatefulTask\<close> (a submodule) is the parameter \<^verbatim>\<open>T\<close> of the definitions; what the test
  relies on is \<^verbatim>\<open>yield_contract\<close>. The timer that aborts the task can expire between any two runs of the task.
\<close>

unbundle bit_operations_syntax

section \<open>The base class\<close>

datatype Handler = Immediate | Idle | Engine | Queue nat

text \<open>
  \<^verbatim>\<open>start_op\<close> is the base class after \<^verbatim>\<open>run\<close>, \<^verbatim>\<open>current_op\<close> the handler that runs the task, \<^verbatim>\<open>active_op\<close> tells that the task has not ended
  and \<^verbatim>\<open>success_op\<close> is the argument of the call-back.
\<close>

record 'b yield_ops =
  start_op :: "Handler \<Rightarrow> 'b"
  current_op :: "'b \<Rightarrow> Handler"
  active_op :: "'b \<Rightarrow> bool"
  success_op :: "'b \<Rightarrow> bool"
  yield_op :: "'b \<Rightarrow> 'b"
  yield_to_op :: "Handler \<Rightarrow> 'b \<Rightarrow> 'b"
  yield_if_not_op :: "Handler \<Rightarrow> 'b \<Rightarrow> 'b \<times> bool"
  abort_op :: "'b \<Rightarrow> 'b"
  finish_op :: "'b \<Rightarrow> 'b"

text \<open>
  A task starts with the handler passed to \<^verbatim>\<open>run\<close>; \<^verbatim>\<open>yield\<close> without an argument stays with the current handler, which must not be the
  immediate one; with an argument the task goes on under that handler; \<^verbatim>\<open>yield_if_not\<close> does nothing when the handler is the current one.
\<close>

definition yield_contract :: "'b yield_ops \<Rightarrow> bool" where
  "yield_contract T \<longleftrightarrow>
     (\<forall>h. current_op T (start_op T h) = h \<and> active_op T (start_op T h)) \<and>
     (\<forall>b. active_op T b \<and> current_op T b \<noteq> Immediate \<longrightarrow>
        active_op T (yield_op T b) \<and> current_op T (yield_op T b) = current_op T b) \<and>
     (\<forall>h b. active_op T b \<and> h \<noteq> Immediate \<longrightarrow> active_op T (yield_to_op T h b) \<and> current_op T (yield_to_op T h b) = h) \<and>
     (\<forall>h b. active_op T b \<and> current_op T b = h \<longrightarrow> yield_if_not_op T h b = (b, False)) \<and>
     (\<forall>b. active_op T b \<longrightarrow> \<not> active_op T (abort_op T b) \<and> \<not> success_op T (abort_op T b)) \<and>
     (\<forall>b. active_op T b \<longrightarrow> \<not> active_op T (finish_op T b) \<and> success_op T (finish_op T b))"

section \<open>The task\<close>

datatype H = H_immediate | H_engine | H_low | H_high

definition H_of :: "int \<Rightarrow> H" where
  "H_of i = (if i = 0 then H_immediate else if i = 1 then H_engine else if i = 2 then H_low else H_high)"

definition H_index :: "H \<Rightarrow> int" where
  "H_index h = (case h of H_immediate \<Rightarrow> 0 | H_engine \<Rightarrow> 1 | H_low \<Rightarrow> 2 | H_high \<Rightarrow> 3)"

datatype yield_state = ThreadPoolYieldTest_start | ThreadPoolYieldTest_print | ThreadPoolYieldTest_done

record 'b ThreadPoolYieldTest =
  m_yield_code :: int
  m_timer :: bool
  handler :: "Handler list"
  run_state :: yield_state
  base :: 'b

definition new_ThreadPoolYieldTest :: "'b \<Rightarrow> 'b ThreadPoolYieldTest" where
  "new_ThreadPoolYieldTest b =
     \<lparr>m_yield_code = 0, m_timer = False, handler = [Immediate, Idle, Idle, Idle], run_state = ThreadPoolYieldTest_start, base = b\<rparr>"

definition initialize_handler_array ::
  "Handler \<Rightarrow> Handler \<Rightarrow> Handler \<Rightarrow> 'b ThreadPoolYieldTest \<Rightarrow> 'b ThreadPoolYieldTest result"
where
  "initialize_handler_array engine_ptr low_priority_queue high_priority_queue s =
     bindE (set_at (handler s) 1 engine_ptr) (\<lambda>h1. bindE (set_at h1 2 low_priority_queue) (\<lambda>h2.
       bindE (set_at h2 3 high_priority_queue) (\<lambda>h3. Inr (s\<lparr>handler := h3\<rparr>))))"

definition set_yield_code :: "int \<Rightarrow> 'b ThreadPoolYieldTest \<Rightarrow> 'b ThreadPoolYieldTest" where
  "set_yield_code yield_code s = s\<lparr>m_yield_code := yield_code\<rparr>"

definition run_handler :: "'b ThreadPoolYieldTest \<Rightarrow> H" where
  "run_handler s = H_of (m_yield_code s AND 3)"

definition start_handler :: "'b ThreadPoolYieldTest \<Rightarrow> H" where
  "start_handler s = (let code = H_of (drop_bit 2 (m_yield_code s) AND 3) in if code = H_immediate then run_handler s else code)"

definition print_handler :: "'b ThreadPoolYieldTest \<Rightarrow> H" where
  "print_handler s = (let code = H_of (drop_bit 4 (m_yield_code s) AND 3) in if code = H_immediate then start_handler s else code)"

definition get_handler :: "H \<Rightarrow> 'b ThreadPoolYieldTest \<Rightarrow> Handler result" where
  "get_handler which s = get_at (handler s) (H_index which)"

definition start_call_yield ::
  "'b yield_ops \<Rightarrow> Handler \<Rightarrow> 'b ThreadPoolYieldTest \<Rightarrow> 'b ThreadPoolYieldTest result"
where
  "start_call_yield T current_handler s =
     (let code = H_of (drop_bit 2 (m_yield_code s) AND 3) in
      if code = H_immediate then
        if current_handler = Immediate then Inr (s\<lparr>base := abort_op T (base s)\<rparr>)
        else Inr (s\<lparr>base := yield_op T (base s)\<rparr>)
      else bindE (get_handler code s) (\<lambda>h. Inr (s\<lparr>base := yield_to_op T h (base s)\<rparr>)))"

definition print_call_yield ::
  "'b yield_ops \<Rightarrow> Handler \<Rightarrow> 'b ThreadPoolYieldTest \<Rightarrow> 'b ThreadPoolYieldTest result"
where
  "print_call_yield T current_handler s =
     (let code = H_of (drop_bit 4 (m_yield_code s) AND 3) in
      if code = H_immediate then Inr (s\<lparr>base := yield_op T (base s)\<rparr>)
      else bindE (get_handler code s) (\<lambda>h. Inr (s\<lparr>base := yield_to_op T h (base s)\<rparr>)))"

text \<open>\<^verbatim>\<open>idle\<close> is a bit of the base class that \<^verbatim>\<open>abort\<close> looks at when the task waits; here the task is between two runs.\<close>

definition timed_out :: "'b yield_ops \<Rightarrow> 'b ThreadPoolYieldTest \<Rightarrow> 'b ThreadPoolYieldTest" where
  "timed_out T s = s\<lparr>base := abort_op T (base s)\<rparr>"

definition initialize_impl :: "'b ThreadPoolYieldTest \<Rightarrow> 'b ThreadPoolYieldTest" where
  "initialize_impl s = s\<lparr>m_timer := True, run_state := ThreadPoolYieldTest_start\<rparr>"

text \<open>\<^verbatim>\<open>ASSERT(!yield_if_not(get_handler(h)))\<close>.\<close>

definition assert_handler :: "'b yield_ops \<Rightarrow> H \<Rightarrow> 'b ThreadPoolYieldTest \<Rightarrow> 'b ThreadPoolYieldTest result" where
  "assert_handler T h s =
     bindE (get_handler h s) (\<lambda>hd. case yield_if_not_op T hd (base s) of (b, yields) \<Rightarrow>
       bindE (assertE (\<not> yields)) (\<lambda>_. Inr (s\<lparr>base := b\<rparr>)))"

definition yield_multiplex_impl :: "'b yield_ops \<Rightarrow> 'b ThreadPoolYieldTest \<Rightarrow> 'b ThreadPoolYieldTest result" where
  "yield_multiplex_impl T s =
     (case run_state s of
        ThreadPoolYieldTest_start \<Rightarrow>
          bindE (assert_handler T (run_handler s) s) (\<lambda>s1.
          bindE (get_handler (run_handler s1) s1) (\<lambda>current_handler.
            start_call_yield T current_handler (s1\<lparr>run_state := ThreadPoolYieldTest_print\<rparr>)))
      | ThreadPoolYieldTest_print \<Rightarrow>
          bindE (assert_handler T (start_handler s) s) (\<lambda>s1.
          bindE (get_handler (start_handler s1) s1) (\<lambda>current_handler.
            print_call_yield T current_handler (s1\<lparr>run_state := ThreadPoolYieldTest_done\<rparr>)))
      | ThreadPoolYieldTest_done \<Rightarrow>
          bindE (assert_handler T (print_handler s) s) (\<lambda>s1. Inr (s1\<lparr>base := finish_op T (base s1)\<rparr>)))"

section \<open>The program\<close>

text \<open>
  The runs of a task, from the \<^verbatim>\<open>i\<close>th on, until it has ended; \<^const>\<open>None\<close> when the fuel does not suffice. \<^verbatim>\<open>expires i\<close> tells whether the timer
  expires before the \<^verbatim>\<open>i\<close>th run.
\<close>

primrec task_runs ::
  "'b yield_ops \<Rightarrow> (nat \<Rightarrow> bool) \<Rightarrow> nat \<Rightarrow> nat \<Rightarrow> 'b ThreadPoolYieldTest \<Rightarrow> 'b ThreadPoolYieldTest option result"
where
  "task_runs T expires 0 i s = Inr (if active_op T (base s) then None else Some s)"
| "task_runs T expires (Suc fuel) i s =
     (if \<not> active_op T (base s) then Inr (Some s)
      else if m_timer s \<and> expires i then task_runs T expires fuel (i + 1) (timed_out T s)
      else bindE (yield_multiplex_impl T s) (task_runs T expires fuel (i + 1)))"

text \<open>
  One turn of the loop of \<^verbatim>\<open>main\<close>: a task is created and run, with the immediate handler if no other one was chosen, until the call-back is
  called; the value is the argument of the call-back.
\<close>

definition yield_turn ::
  "'b yield_ops \<Rightarrow> Handler \<Rightarrow> Handler \<Rightarrow> Handler \<Rightarrow> (nat \<Rightarrow> bool) \<Rightarrow> nat \<Rightarrow> int \<Rightarrow> bool option result"
where
  "yield_turn T engine low_priority_queue high_priority_queue expires fuel yield_code =
     (let task = new_ThreadPoolYieldTest (start_op T Immediate) in
      bindE (initialize_handler_array engine low_priority_queue high_priority_queue task) (\<lambda>task1.
        let task2 = set_yield_code yield_code task1 in
        bindE (if run_handler task2 = H_immediate then Inr Immediate else get_handler (run_handler task2) task2) (\<lambda>h.
        bindE (task_runs T expires fuel 0 (initialize_impl (task2\<lparr>base := start_op T h\<rparr>))) (\<lambda>r.
          Inr (map_option (\<lambda>s. success_op T (base s)) r)))))"

primrec yield_turns ::
  "'b yield_ops \<Rightarrow> Handler \<Rightarrow> Handler \<Rightarrow> Handler \<Rightarrow> (int \<Rightarrow> nat \<Rightarrow> bool) \<Rightarrow> nat \<Rightarrow> int list \<Rightarrow> bool option list result"
where
  "yield_turns T engine low_priority_queue high_priority_queue expires fuel [] = Inr []"
| "yield_turns T engine low_priority_queue high_priority_queue expires fuel (c # cs) =
     bindE (yield_turn T engine low_priority_queue high_priority_queue (expires c) fuel c) (\<lambda>r.
     bindE (yield_turns T engine low_priority_queue high_priority_queue expires fuel cs) (\<lambda>rs. Inr (r # rs)))"

definition yield_main ::
  "'b yield_ops \<Rightarrow> Handler \<Rightarrow> Handler \<Rightarrow> Handler \<Rightarrow> (int \<Rightarrow> nat \<Rightarrow> bool) \<Rightarrow> nat \<Rightarrow> bool option list result"
where
  "yield_main T engine low_priority_queue high_priority_queue expires fuel =
     yield_turns T engine low_priority_queue high_priority_queue expires fuel (for_values 0 63 1)"

section \<open>The runs of a task\<close>

text \<open>The handlers that \<^verbatim>\<open>initialize_handler_array\<close> puts into the array.\<close>

definition handlers_ok :: "'b ThreadPoolYieldTest \<Rightarrow> bool" where
  "handlers_ok s \<longleftrightarrow> (\<exists>e l h. handler s = [Immediate, e, l, h] \<and> e \<noteq> Immediate \<and> l \<noteq> Immediate \<and> h \<noteq> Immediate)"

definition handler_of :: "'b ThreadPoolYieldTest \<Rightarrow> H \<Rightarrow> Handler" where
  "handler_of s h = handler s ! nat (H_index h)"

lemma get_handler_ok: "handlers_ok s \<Longrightarrow> get_handler h s = Inr (handler_of s h)"
  by (cases h) (auto simp: handlers_ok_def get_handler_def handler_of_def get_at_def H_index_def)

lemma handler_of_Immediate: "handlers_ok s \<Longrightarrow> handler_of s h = Immediate \<longleftrightarrow> h = H_immediate"
  by (cases h) (auto simp: handlers_ok_def handler_of_def H_index_def)

text \<open>The handler with which a task is to be run in each of its states, given the two codes that \<^verbatim>\<open>yield\<close> looks at.\<close>

definition expected :: "'b ThreadPoolYieldTest \<Rightarrow> H" where
  "expected s = (case run_state s of
     ThreadPoolYieldTest_start \<Rightarrow> run_handler s | ThreadPoolYieldTest_print \<Rightarrow> start_handler s | ThreadPoolYieldTest_done \<Rightarrow> print_handler s)"

text \<open>An active task is run by the handler that its state expects, which after the first state is not the immediate one.\<close>

definition task_ok :: "'b yield_ops \<Rightarrow> 'b ThreadPoolYieldTest \<Rightarrow> bool" where
  "task_ok T s \<longleftrightarrow> handlers_ok s \<and> active_op T (base s) \<and> current_op T (base s) = handler_of s (expected s) \<and>
     (run_state s \<noteq> ThreadPoolYieldTest_start \<longrightarrow> start_handler s \<noteq> H_immediate)"

definition runs_left :: "yield_state \<Rightarrow> nat" where
  "runs_left r = (case r of ThreadPoolYieldTest_start \<Rightarrow> 3 | ThreadPoolYieldTest_print \<Rightarrow> 2 | ThreadPoolYieldTest_done \<Rightarrow> 1)"

lemma contractD:
  assumes "yield_contract T"
  shows "current_op T (start_op T h) = h" "active_op T (start_op T h)"
    "active_op T b \<Longrightarrow> current_op T b \<noteq> Immediate \<Longrightarrow> active_op T (yield_op T b)"
    "active_op T b \<Longrightarrow> current_op T b \<noteq> Immediate \<Longrightarrow> current_op T (yield_op T b) = current_op T b"
    "active_op T b \<Longrightarrow> h \<noteq> Immediate \<Longrightarrow> active_op T (yield_to_op T h b)"
    "active_op T b \<Longrightarrow> h \<noteq> Immediate \<Longrightarrow> current_op T (yield_to_op T h b) = h"
    "active_op T b \<Longrightarrow> yield_if_not_op T (current_op T b) b = (b, False)"
    "active_op T b \<Longrightarrow> \<not> active_op T (abort_op T b)" "active_op T b \<Longrightarrow> \<not> success_op T (abort_op T b)"
    "active_op T b \<Longrightarrow> \<not> active_op T (finish_op T b)" "active_op T b \<Longrightarrow> success_op T (finish_op T b)"
  using assms by (auto simp: yield_contract_def)

lemma handlers_frame [simp]:
  "run_handler (s\<lparr>run_state := r\<rparr>) = run_handler s" "run_handler (s\<lparr>base := b\<rparr>) = run_handler s"
  "start_handler (s\<lparr>run_state := r\<rparr>) = start_handler s" "start_handler (s\<lparr>base := b\<rparr>) = start_handler s"
  "print_handler (s\<lparr>run_state := r\<rparr>) = print_handler s" "print_handler (s\<lparr>base := b\<rparr>) = print_handler s"
  "handlers_ok (s\<lparr>run_state := r\<rparr>) = handlers_ok s" "handlers_ok (s\<lparr>base := b\<rparr>) = handlers_ok s"
  "handler_of (s\<lparr>run_state := r\<rparr>) = handler_of s" "handler_of (s\<lparr>base := b\<rparr>) = handler_of s"
  by (simp_all add: run_handler_def start_handler_def print_handler_def handlers_ok_def handler_of_def fun_eq_iff Let_def)

lemma assert_handler_ok: "yield_contract T \<Longrightarrow> task_ok T s \<Longrightarrow> assert_handler T (expected s) s = Inr s"
  using contractD(7) [of T "base s"] by (simp add: assert_handler_def get_handler_ok task_ok_def)

text \<open>Yielding when the current handler is known: the task goes on under the handler of the code, or under the current one.\<close>

lemma yield_step:
  assumes T: "yield_contract T" and s: "handlers_ok s" "active_op T (base s)" "current_op T (base s) = handler_of s h" "h \<noteq> H_immediate \<or> code \<noteq> H_immediate"
  shows "\<exists>b. (if code = H_immediate then Inr (s\<lparr>base := yield_op T (base s)\<rparr>)
      else bindE (get_handler code s) (\<lambda>h. Inr (s\<lparr>base := yield_to_op T h (base s)\<rparr>))) = Inr (s\<lparr>base := b\<rparr>) \<and>
    active_op T b \<and> current_op T b = handler_of s (if code = H_immediate then h else code)"
  using s contractD(3-6) [OF T, of "base s"] by (auto simp: get_handler_ok handler_of_Immediate)

text \<open>A run either ends the task or brings it to its next state, under the handler that is expected there.\<close>

lemma multiplex_step:
  assumes T: "yield_contract T" and s: "task_ok T s"
  shows "\<exists>r b. yield_multiplex_impl T s = Inr (s\<lparr>run_state := r, base := b\<rparr>) \<and>
    (if active_op T b then task_ok T (s\<lparr>run_state := r, base := b\<rparr>) \<and> runs_left r + 1 = runs_left (run_state s)
     else (success_op T b \<longleftrightarrow> start_handler s \<noteq> H_immediate))"
proof (cases "run_state s")
  case ThreadPoolYieldTest_start
  let ?code = "H_of (drop_bit 2 (m_yield_code s) AND 3)"
  have e: "expected s = run_handler s" and c: "handlers_ok s" "active_op T (base s)" "current_op T (base s) = handler_of s (run_handler s)"
    using s ThreadPoolYieldTest_start by (auto simp: task_ok_def expected_def)
  note run = assert_handler_ok [OF T s, unfolded e] ThreadPoolYieldTest_start
  note simps = yield_multiplex_impl_def start_call_yield_def start_handler_def Let_def get_handler_ok [OF c(1)] handler_of_Immediate [OF c(1)]
  show ?thesis
  proof (cases "run_handler s = H_immediate \<and> ?code = H_immediate")
    case True
    then show ?thesis using run contractD(8,9) [OF T c(2)]
      by (intro exI [of _ ThreadPoolYieldTest_print] exI [of _ "abort_op T (base s)"]) (simp add: simps)
  next
    case False
    then obtain b where "start_call_yield T (handler_of s (run_handler s)) (s\<lparr>run_state := ThreadPoolYieldTest_print\<rparr>) =
        Inr (s\<lparr>run_state := ThreadPoolYieldTest_print, base := b\<rparr>)" "active_op T b" "current_op T b = handler_of s (start_handler s)"
      using yield_step [OF T, of "s\<lparr>run_state := ThreadPoolYieldTest_print\<rparr>" "run_handler s" ?code] c
      by (auto simp: start_call_yield_def Let_def start_handler_def handler_of_Immediate [OF c(1)] split: if_splits)
    moreover have "start_handler s \<noteq> H_immediate" using False by (auto simp: start_handler_def Let_def)
    ultimately show ?thesis using run c
      by (intro exI [of _ ThreadPoolYieldTest_print] exI [of _ b])
        (auto simp: yield_multiplex_impl_def get_handler_ok task_ok_def expected_def runs_left_def)
  qed
next
  case ThreadPoolYieldTest_print
  let ?code = "H_of (drop_bit 4 (m_yield_code s) AND 3)"
  have e: "expected s = start_handler s" and c: "handlers_ok s" "active_op T (base s)" "current_op T (base s) = handler_of s (start_handler s)"
    and n: "start_handler s \<noteq> H_immediate"
    using s ThreadPoolYieldTest_print by (auto simp: task_ok_def expected_def)
  obtain b where "print_call_yield T (handler_of s (start_handler s)) (s\<lparr>run_state := ThreadPoolYieldTest_done\<rparr>) =
      Inr (s\<lparr>run_state := ThreadPoolYieldTest_done, base := b\<rparr>)" "active_op T b" "current_op T b = handler_of s (print_handler s)"
    using yield_step [OF T, of "s\<lparr>run_state := ThreadPoolYieldTest_done\<rparr>" "start_handler s" ?code] c n
    by (auto simp: print_call_yield_def Let_def print_handler_def)
  then show ?thesis using assert_handler_ok [OF T s] ThreadPoolYieldTest_print e c n
    by (intro exI [of _ ThreadPoolYieldTest_done] exI [of _ b])
      (auto simp: yield_multiplex_impl_def get_handler_ok task_ok_def expected_def runs_left_def)
next
  case ThreadPoolYieldTest_done
  then have "expected s = print_handler s" "active_op T (base s)" "start_handler s \<noteq> H_immediate" using s by (auto simp: task_ok_def expected_def)
  then show ?thesis using assert_handler_ok [OF T s] ThreadPoolYieldTest_done contractD(10,11) [OF T, of "base s"]
    by (intro exI [of _ ThreadPoolYieldTest_done] exI [of _ "finish_op T (base s)"]) (auto simp: yield_multiplex_impl_def)
qed

text \<open>
  So after at most three runs the task has ended; without a timeout it is a success exactly when the start handler is not the immediate one,
  and with a timeout it is a success only then.
\<close>

lemma task_runs_end:
  assumes "yield_contract T" "task_ok T s" "runs_left (run_state s) \<le> fuel"
  shows "\<exists>s'. task_runs T expires fuel i s = Inr (Some s') \<and> (success_op T (base s') \<longrightarrow> start_handler s \<noteq> H_immediate) \<and>
    ((\<forall>j. \<not> expires j) \<and> start_handler s \<noteq> H_immediate \<longrightarrow> success_op T (base s'))"
  using assms
proof (induction fuel arbitrary: i s)
  case 0
  then show ?case by (simp add: runs_left_def split: yield_state.splits)
next
  case (Suc fuel)
  have act: "active_op T (base s)" using Suc.prems(2) by (simp add: task_ok_def)
  show ?case
  proof (cases "m_timer s \<and> expires i")
    case True
    then show ?thesis using act contractD(8,9) [OF Suc.prems(1) act] by (cases fuel) (auto simp: timed_out_def)
  next
    case False
    obtain r b where m: "yield_multiplex_impl T s = Inr (s\<lparr>run_state := r, base := b\<rparr>)"
      "if active_op T b then task_ok T (s\<lparr>run_state := r, base := b\<rparr>) \<and> runs_left r + 1 = runs_left (run_state s)
       else (success_op T b \<longleftrightarrow> start_handler s \<noteq> H_immediate)"
      using multiplex_step [OF Suc.prems(1,2)] by blast
    show ?thesis
    proof (cases "active_op T b")
      case True
      with Suc.IH [OF Suc.prems(1), of "s\<lparr>run_state := r, base := b\<rparr>" "i + 1"] m Suc.prems(3) act False show ?thesis by auto
    next
      case ended: False
      then show ?thesis using m act False by (cases fuel) auto
    qed
  qed
qed

section \<open>Properties\<close>

text \<open>The start handler is the immediate one exactly when the four lower bits of the code are zero.\<close>

lemma and_3: "i AND 3 = i mod (4 :: int)"
  using take_bit_eq_mask [of 2 i] by (simp add: take_bit_eq_mod mask_eq_exp_minus_1)

lemma H_of_immediate: "H_of i = H_immediate \<longleftrightarrow> i = 0"
  by (simp add: H_of_def)

lemma start_handler_immediate: "start_handler s = H_immediate \<longleftrightarrow> m_yield_code s mod 16 = 0"
proof -
  have "m_yield_code s mod 16 = 4 * (m_yield_code s div 4 mod 4) + m_yield_code s mod 4"
    using mod_mult2_eq' [of "m_yield_code s" 4 4] by simp
  moreover have "0 \<le> m_yield_code s mod 4" "0 \<le> m_yield_code s div 4 mod 4" by simp_all
  ultimately show ?thesis
    by (auto simp: start_handler_def run_handler_def Let_def H_of_immediate and_3 drop_bit_eq_div)
qed

lemma yield_turn_result:
  assumes T: "yield_contract T" and h: "e \<noteq> Immediate" "l \<noteq> Immediate" "h \<noteq> Immediate" and fuel: "3 \<le> fuel"
  shows "\<exists>success. yield_turn T e l h expires fuel c = Inr (Some success) \<and> (success \<longrightarrow> c mod 16 \<noteq> 0) \<and>
    ((\<forall>j. \<not> expires j) \<and> c mod 16 \<noteq> 0 \<longrightarrow> success)"
proof -
  let ?t = "\<lambda>b. \<lparr>m_yield_code = c, m_timer = True, handler = [Immediate, e, l, h], run_state = ThreadPoolYieldTest_start, base = b\<rparr>"
  let ?h = "handler_of (?t (start_op T Immediate)) (run_handler (?t (start_op T Immediate)))"
  have ok: "task_ok T (?t (start_op T ?h))"
    using T h by (simp add: task_ok_def handlers_ok_def contractD expected_def run_handler_def handler_of_def)
  have "yield_turn T e l h expires fuel c =
      bindE (task_runs T expires fuel 0 (?t (start_op T ?h))) (\<lambda>r. Inr (map_option (\<lambda>s. success_op T (base s)) r))"
    by (cases "H_of (c AND 3)") (simp_all add: yield_turn_def new_ThreadPoolYieldTest_def initialize_handler_array_def set_yield_code_def initialize_impl_def
        run_handler_def set_at_def get_handler_def get_at_def handler_of_def H_index_def)
  then show ?thesis
    using task_runs_end [OF T ok, of fuel expires 0] fuel by (auto simp: start_handler_immediate runs_left_def)
qed

text \<open>
  C39. For every base class that keeps the contract, whenever the timers expire, the program tests all 64 codes without a failing assertion, each task
  in at most three runs. A task is a success at most when the lower four bits of its code are not zero (else it aborts, since it would have to yield
  under the immediate handler), and exactly then if no timer expires.
\<close>

theorem yield_main_result:
  assumes "yield_contract T" "e \<noteq> Immediate" "l \<noteq> Immediate" "h \<noteq> Immediate" "3 \<le> fuel"
  shows "\<exists>results. yield_main T e l h expires fuel = Inr results \<and> length results = 64 \<and>
    (\<forall>c < 64. \<exists>success. results ! c = Some success \<and> (success \<longrightarrow> c mod 16 \<noteq> 0) \<and>
      ((\<forall>j. \<not> expires (int c) j) \<and> c mod 16 \<noteq> 0 \<longrightarrow> success))"
proof -
  have t: "\<exists>results. yield_turns T e l h expires fuel cs = Inr results \<and> length results = length cs \<and>
      (\<forall>i < length cs. \<exists>success. results ! i = Some success \<and> (success \<longrightarrow> cs ! i mod 16 \<noteq> 0) \<and>
        ((\<forall>j. \<not> expires (cs ! i) j) \<and> cs ! i mod 16 \<noteq> 0 \<longrightarrow> success))" for cs
  proof (induction cs)
    case (Cons c cs)
    then obtain rs where rs: "yield_turns T e l h expires fuel cs = Inr rs" "length rs = length cs"
      "\<forall>i < length cs. \<exists>success. rs ! i = Some success \<and> (success \<longrightarrow> cs ! i mod 16 \<noteq> 0) \<and>
        ((\<forall>j. \<not> expires (cs ! i) j) \<and> cs ! i mod 16 \<noteq> 0 \<longrightarrow> success)" by blast
    obtain r where r: "yield_turn T e l h (expires c) fuel c = Inr (Some r)" "r \<longrightarrow> c mod 16 \<noteq> 0"
      "(\<forall>j. \<not> expires c j) \<and> c mod 16 \<noteq> 0 \<longrightarrow> r" using yield_turn_result [OF assms] by blast
    show ?case using rs r by (intro exI [of _ "Some r # rs"]) (auto simp: nth_Cons split: nat.splits)
  qed simp
  have n: "[0..63] ! c = int c" if "c < 64" for c using that by (simp add: nth_upto)
  have "int c mod 16 \<noteq> 0 \<longleftrightarrow> c mod 16 \<noteq> 0" for c by presburger
  then show ?thesis using t [of "[0..63]"] n by (simp add: yield_main_def for_values_upto)
qed

text \<open>A base class that keeps the contract: the handler and how the task has ended.\<close>

definition simple_task :: "(Handler \<times> bool option) yield_ops" where
  "simple_task = \<lparr>start_op = (\<lambda>h. (h, None)), current_op = fst, active_op = (\<lambda>b. snd b = None), success_op = (\<lambda>b. snd b = Some True),
     yield_op = (\<lambda>b. b), yield_to_op = (\<lambda>h b. (h, snd b)), yield_if_not_op = (\<lambda>h b. if fst b = h then (b, False) else ((h, snd b), True)),
     abort_op = (\<lambda>b. (fst b, Some False)), finish_op = (\<lambda>b. (fst b, Some True))\<rparr>"

lemma simple_task_contract: "yield_contract simple_task"
  by (simp add: yield_contract_def simple_task_def)

text \<open>The program where the timer of code 5 expires before the second run.\<close>

theorem yield_main_result_witness:
  "\<exists>results. yield_main simple_task Engine (Queue 0) (Queue 1) (\<lambda>c j. c = 5 \<and> j = 1) 3 = Inr results \<and> length results = 64 \<and>
    results ! 16 = Some False \<and> results ! 1 = Some True"
proof -
  obtain rs where rs: "yield_main simple_task Engine (Queue 0) (Queue 1) (\<lambda>c j. c = 5 \<and> j = 1) 3 = Inr rs" "length rs = 64"
    "\<forall>c < 64. \<exists>success. rs ! c = Some success \<and> (success \<longrightarrow> c mod 16 \<noteq> 0) \<and>
      ((\<forall>j. \<not> (int c = 5 \<and> j = (1 :: nat))) \<and> c mod 16 \<noteq> 0 \<longrightarrow> success)"
    using yield_main_result [OF simple_task_contract, of Engine "Queue 0" "Queue 1" 3 "\<lambda>c j. c = 5 \<and> j = 1"] by auto
  have "rs ! 16 = Some False" using rs(3) [rule_format, of 16] by auto
  moreover have "rs ! 1 = Some True" using rs(3) [rule_format, of 1] by auto
  ultimately show ?thesis using rs by blast
qed

end
