(* ===== verification/Mutex_Timing.thy ===== *)
theory Mutex_Timing
  imports Prelude
begin

text \<open>
  The two threads of \<^verbatim>\<open>src/mutex_test.cxx\<close>, which measure how long it takes to lock a mutex: the counters with which they start each
  measurement together, under every interleaving. What they do with a measurement is in \<^verbatim>\<open>Mutex_Results\<close>.
\<close>

section \<open>The threads\<close>

definition num_threads :: nat where
  "num_threads = 2"

text \<open>
  The control points of \<^verbatim>\<open>run\<close> and \<^verbatim>\<open>benchmark\<close>: before the condition of the loop over \<^verbatim>\<open>loop_count\<close>; before the two increments and loops on
  \<^verbatim>\<open>benchmarking1\<close> and \<^verbatim>\<open>benchmarking2\<close>, and before their resets, with the measurement in between; the end of the loop over \<^verbatim>\<open>j\<close>; before the
  increment of \<^verbatim>\<open>count\<close> and the loop on it.
\<close>

datatype timing_pc =
    Run_loop | Add1 | Wait1 | Add2 | Wait2 | Reset1 | Measure | Reset2 | Next_round | Add_count | Wait_count | Run_left

record timing_thread =
  at :: timing_pc
  loop_count :: int
  test_nr :: int
  j :: int

record timing =
  benchmarking1 :: int
  benchmarking2 :: int
  count_tests :: int
  thread :: "nat \<Rightarrow> timing_thread"

definition timing_start :: timing where
  "timing_start =
     \<lparr>benchmarking1 = 0, benchmarking2 = 0, count_tests = 0,
      thread = (\<lambda>_. \<lparr>at = Run_loop, loop_count = 1000, test_nr = 0, j = 0\<rparr>)\<rparr>"

text \<open>An action of thread \<^verbatim>\<open>t\<close>; \<^const>\<open>None\<close> while it waits and after it has left.\<close>

definition timing_act :: "nat \<Rightarrow> timing \<Rightarrow> timing option" where
  "timing_act t s =
     (let th = thread s t; go = (\<lambda>th' s. Some (s\<lparr>thread := (thread s)(t := th')\<rparr>)) in
      case at th of
        Run_loop \<Rightarrow>
          if loop_count th \<ge> 30 then go (th\<lparr>at := Add1, test_nr := test_nr th + 1, j := 1\<rparr>) s else go (th\<lparr>at := Run_left\<rparr>) s
      | Add1 \<Rightarrow> go (th\<lparr>at := Wait1\<rparr>) (s\<lparr>benchmarking1 := benchmarking1 s + 1\<rparr>)
      | Wait1 \<Rightarrow> if benchmarking1 s < int num_threads then None else go (th\<lparr>at := Add2\<rparr>) s
      | Add2 \<Rightarrow> go (th\<lparr>at := Wait2\<rparr>) (s\<lparr>benchmarking2 := benchmarking2 s + 1\<rparr>)
      | Wait2 \<Rightarrow> if benchmarking2 s < int num_threads then None else go (th\<lparr>at := Reset1\<rparr>) s
      | Reset1 \<Rightarrow> go (th\<lparr>at := Measure\<rparr>) (s\<lparr>benchmarking1 := 0\<rparr>)
      | Measure \<Rightarrow> go (th\<lparr>at := Reset2\<rparr>) s
      | Reset2 \<Rightarrow> go (th\<lparr>at := Next_round\<rparr>) (s\<lparr>benchmarking2 := 0\<rparr>)
      | Next_round \<Rightarrow> if j th + 1 \<le> 21 then go (th\<lparr>at := Add1, j := j th + 1\<rparr>) s else go (th\<lparr>at := Add_count\<rparr>) s
      | Add_count \<Rightarrow> go (th\<lparr>at := Wait_count\<rparr>) (s\<lparr>count_tests := count_tests s + 1\<rparr>)
      | Wait_count \<Rightarrow>
          if count_tests s < test_nr th * int num_threads then None else go (th\<lparr>at := Run_loop, loop_count := loop_count th - 2\<rparr>) s
      | Run_left \<Rightarrow> None)"

inductive timing_step :: "timing \<Rightarrow> timing \<Rightarrow> bool" where
  acts: "t < num_threads \<Longrightarrow> timing_act t s = Some s' \<Longrightarrow> timing_step s s'"

section \<open>The threads measure in step\<close>

text \<open>The rounds of a thread are numbered through all tests; in a round, its position tells how far it has come.\<close>

definition round_of :: "timing_thread \<Rightarrow> int" where
  "round_of th = (if at th = Run_loop \<or> at th = Run_left then 21 * test_nr th else 21 * (test_nr th - 1) + j th)"

definition phase :: "timing_pc \<Rightarrow> int" where
  "phase p = (case p of Add1 \<Rightarrow> 0 | Wait1 \<Rightarrow> 1 | Add2 \<Rightarrow> 2 | Wait2 \<Rightarrow> 3 | Reset1 \<Rightarrow> 4 | Measure \<Rightarrow> 5 | Reset2 \<Rightarrow> 6 | _ \<Rightarrow> 7)"

definition position :: "timing_thread \<Rightarrow> int" where
  "position th = 8 * round_of th + phase (at th)"

definition thread_ok :: "timing_thread \<Rightarrow> bool" where
  "thread_ok th \<longleftrightarrow> 0 \<le> test_nr th \<and>
     (case at th of Run_loop \<Rightarrow> True | Run_left \<Rightarrow> True | Add_count \<Rightarrow> j th = 21 | Wait_count \<Rightarrow> j th = 21 | _ \<Rightarrow> 1 \<le> j th \<and> j th \<le> 21)"

text \<open>
  What holds between a thread in round \<^verbatim>\<open>r\<close> at phase \<^verbatim>\<open>p\<close> and another one at position \<^verbatim>\<open>q\<close>: the other one has arrived where the thread has
  waited for it, and where it has not arrived the counters are too small for the thread to go on.
\<close>

definition in_step :: "int \<Rightarrow> int \<Rightarrow> int \<Rightarrow> int \<Rightarrow> int \<Rightarrow> bool" where
  "in_step b1 b2 r p q \<longleftrightarrow>
     q \<ge> 8 * (r - 1) + 3 \<and> (p \<ge> 2 \<longrightarrow> q \<ge> 8 * r + 1) \<and> (p \<ge> 4 \<longrightarrow> q \<ge> 8 * r + 3) \<and>
     (p = 0 \<and> q \<le> 8 * r \<longrightarrow> b1 \<le> 0) \<and> (p = 1 \<and> q \<le> 8 * r \<longrightarrow> b1 \<le> 1) \<and> (p \<ge> 5 \<and> q \<le> 8 * (r + 1) \<longrightarrow> b1 \<le> 0) \<and>
     (p \<le> 2 \<and> q \<le> 8 * r + 2 \<longrightarrow> b2 \<le> 0) \<and> (p = 3 \<and> q \<le> 8 * r + 2 \<longrightarrow> b2 \<le> 1) \<and> (p = 7 \<and> q \<le> 8 * (r + 1) + 2 \<longrightarrow> b2 \<le> 0)"

definition thread_in_step :: "timing \<Rightarrow> nat \<Rightarrow> nat \<Rightarrow> bool" where
  "thread_in_step s t u \<longleftrightarrow>
     in_step (benchmarking1 s) (benchmarking2 s) (round_of (thread s t)) (phase (at (thread s t))) (position (thread s u))"

definition timing_ok :: "timing \<Rightarrow> bool" where
  "timing_ok s \<longleftrightarrow> thread_ok (thread s 0) \<and> thread_ok (thread s 1) \<and> thread_in_step s 0 1 \<and> thread_in_step s 1 0"

text \<open>What an action does to the position of its thread and to the counters.\<close>

inductive moves :: "int \<times> int \<times> int \<times> int \<Rightarrow> int \<times> int \<times> int \<times> int \<Rightarrow> bool" where
  stays: "moves x x"
| adds1: "moves (r, 0, b1, b2) (r, 1, b1 + 1, b2)"
| passes1: "b1 \<ge> 2 \<Longrightarrow> moves (r, 1, b1, b2) (r, 2, b1, b2)"
| adds2: "moves (r, 2, b1, b2) (r, 3, b1, b2 + 1)"
| passes2: "b2 \<ge> 2 \<Longrightarrow> moves (r, 3, b1, b2) (r, 4, b1, b2)"
| resets1: "moves (r, 4, b1, b2) (r, 5, 0, b2)"
| measures: "moves (r, 5, b1, b2) (r, 6, b1, b2)"
| resets2: "moves (r, 6, b1, b2) (r, 7, b1, 0)"
| next_round: "moves (r, 7, b1, b2) (r + 1, 0, b1, b2)"

lemma moves_in_step:
  assumes "moves (r, p, b1, b2) (r', p', b1', b2')" "in_step b1 b2 r p (8 * r2 + p2)" "in_step b1 b2 r2 p2 (8 * r + p)" "0 \<le> p2" "p2 \<le> 7"
  shows "in_step b1' b2' r' p' (8 * r2 + p2) \<and> in_step b1' b2' r2 p2 (8 * r' + p')"
proof -
  have p2: "p2 = 0 \<or> p2 = 1 \<or> p2 = 2 \<or> p2 = 3 \<or> p2 = 4 \<or> p2 = 5 \<or> p2 = 6 \<or> p2 = 7" using assms(4,5) by arith
  from assms(1) show ?thesis using assms(2,3) p2 by cases (elim disjE; simp add: in_step_def; arith)+
qed

lemma phase_range [simp]: "0 \<le> phase p" "phase p \<le> 7"
  by (cases p; simp add: phase_def)+

lemma act_moves:
  assumes "timing_act t s = Some s'" "thread_ok (thread s t)"
  shows "moves (round_of (thread s t), phase (at (thread s t)), benchmarking1 s, benchmarking2 s)
      (round_of (thread s' t), phase (at (thread s' t)), benchmarking1 s', benchmarking2 s') \<and>
    thread_ok (thread s' t) \<and> (\<forall>u. u \<noteq> t \<longrightarrow> thread s' u = thread s u)"
  using assms
  by (cases "at (thread s t)")
    (auto simp: timing_act_def Let_def round_of_def phase_def thread_ok_def num_threads_def moves.simps split: if_splits)

interpretation timing: inductive_invariant "\<lambda>s. s = timing_start" timing_step timing_ok
proof
  show "timing_ok s" if "s = timing_start" for s
    using that by (simp add: timing_ok_def timing_start_def thread_ok_def thread_in_step_def in_step_def round_of_def phase_def position_def)
  fix s s' assume ok: "timing_ok s" and "timing_step s s'"
  from this(2) obtain t where t: "t < 2" "timing_act t s = Some s'" by (auto simp: num_threads_def elim: timing_step.cases)
  have "t = 0 \<and> 1 - t = 1 \<or> t = 1 \<and> 1 - t = 0" using t(1) by auto
  then have sides: "timing_ok x \<longleftrightarrow> thread_ok (thread x t) \<and> thread_ok (thread x (1 - t)) \<and> thread_in_step x t (1 - t) \<and> thread_in_step x (1 - t) t" for x
    by (auto simp: timing_ok_def)
  have other: "thread s' (1 - t) = thread s (1 - t)" and m: "thread_ok (thread s' t)"
    "moves (round_of (thread s t), phase (at (thread s t)), benchmarking1 s, benchmarking2 s)
       (round_of (thread s' t), phase (at (thread s' t)), benchmarking1 s', benchmarking2 s')"
    using act_moves [OF t(2)] ok t(1) by (simp_all add: sides less_2_cases_iff) auto
  show "timing_ok s'"
    using moves_in_step [OF m(2), of "round_of (thread s (1 - t))" "phase (at (thread s (1 - t)))"] ok m(1) other
    by (simp add: sides thread_in_step_def position_def)
qed

section \<open>Properties\<close>

text \<open>
  C40. Under every interleaving the two threads are never more than one round apart, and when both measure they measure the same round of the
  same test.
\<close>

theorem threads_measure_in_step:
  assumes "reach (\<lambda>s. s = timing_start) timing_step s"
  shows "\<bar>round_of (thread s 0) - round_of (thread s 1)\<bar> \<le> 1 \<and>
    (at (thread s 0) = Measure \<and> at (thread s 1) = Measure \<longrightarrow>
      test_nr (thread s 0) = test_nr (thread s 1) \<and> j (thread s 0) = j (thread s 1))"
proof -
  have ok: "timing_ok s" by (rule timing.inv_reach [OF assms])
  let ?r = "\<lambda>t. round_of (thread s t)" and ?p = "\<lambda>t. phase (at (thread s t))"
  have "8 * ?r 1 + ?p 1 \<ge> 8 * (?r 0 - 1) + 3" "8 * ?r 0 + ?p 0 \<ge> 8 * (?r 1 - 1) + 3"
    using ok by (simp_all add: timing_ok_def thread_in_step_def in_step_def position_def)
  then have "\<bar>?r 0 - ?r 1\<bar> \<le> 1" using phase_range(2) [of "at (thread s 0)"] phase_range(2) [of "at (thread s 1)"] by arith
  moreover have "test_nr (thread s 0) = test_nr (thread s 1) \<and> j (thread s 0) = j (thread s 1)"
    if m: "at (thread s 0) = Measure" "at (thread s 1) = Measure"
  proof -
    have "8 * ?r 1 + 5 \<ge> 8 * ?r 0 + 3" "8 * ?r 0 + 5 \<ge> 8 * ?r 1 + 3"
      using ok m by (simp_all add: timing_ok_def thread_in_step_def in_step_def position_def phase_def)
    then have "?r 0 = ?r 1" by arith
    moreover have "1 \<le> j (thread s 0) \<and> j (thread s 0) \<le> 21" "1 \<le> j (thread s 1) \<and> j (thread s 1) \<le> 21"
      using ok m by (auto simp: timing_ok_def thread_ok_def)
    ultimately show ?thesis using m by (simp add: round_of_def) presburger
  qed
  ultimately show ?thesis by blast
qed

text \<open>The runs of a given sequence of threads, to give examples.\<close>

primrec timing_run :: "nat list \<Rightarrow> timing \<Rightarrow> timing option" where
  "timing_run [] s = Some s"
| "timing_run (t # ts) s = (if t < num_threads then (case timing_act t s of None \<Rightarrow> None | Some s' \<Rightarrow> timing_run ts s') else None)"

lemma timing_run_reach: "timing_run ts s = Some s' \<Longrightarrow> reach (\<lambda>s. s = timing_start) timing_step s \<Longrightarrow> reach (\<lambda>s. s = timing_start) timing_step s'"
proof (induction ts arbitrary: s)
  case (Cons t ts)
  then obtain s1 where "t < num_threads" "timing_act t s = Some s1" "timing_run ts s1 = Some s'" by (auto split: if_splits option.splits)
  with Cons.IH [of s1] reach_step [OF Cons.prems(2) acts] show ?case by blast
qed simp

lemmas timing_eval = timing_act_def timing_start_def num_threads_def Let_def

text \<open>The threads when both have begun the first measurement.\<close>

theorem threads_measure_in_step_witness:
  "\<exists>s. reach (\<lambda>s. s = timing_start) timing_step s \<and> at (thread s 0) = Measure \<and> at (thread s 1) = Measure \<and>
     test_nr (thread s 0) = test_nr (thread s 1) \<and> j (thread s 0) = j (thread s 1)"
proof -
  obtain s where s: "timing_run [0, 1, 0, 1, 0, 1, 0, 1, 0, 1, 0, 1] timing_start = Some s" "at (thread s 0) = Measure" "at (thread s 1) = Measure"
    by (simp add: timing_eval)
  have r: "reach (\<lambda>s. s = timing_start) timing_step s" by (rule timing_run_reach [OF s(1)]) (simp add: reach_init)
  show ?thesis using threads_measure_in_step [OF r] r s by blast
qed

text \<open>
  The counters are no barrier: a thread that is fast enough to reset \<^verbatim>\<open>benchmarking2\<close> before the other one has seen that it is 2 leaves the other
  one waiting, and then waits for it in the next round. No thread can go on.
\<close>

theorem threads_can_hang:
  "\<exists>s. reach (\<lambda>s. s = timing_start) timing_step s \<and> at (thread s 0) = Wait1 \<and> at (thread s 1) = Wait2 \<and> \<not> (\<exists>s'. timing_step s s')"
proof -
  obtain s where s: "timing_run [0, 1, 0, 1, 0, 1, 0, 1, 0, 0, 0, 0, 0, 0] timing_start = Some s" "at (thread s 0) = Wait1" "at (thread s 1) = Wait2"
    "benchmarking1 s = 1" "benchmarking2 s = 0"
    by (simp add: timing_eval)
  have "reach (\<lambda>s. s = timing_start) timing_step s" by (rule timing_run_reach [OF s(1)]) (simp add: reach_init)
  moreover have "timing_act t s = None" if "t < num_threads" for t
    using that s(2-) by (cases "t = 0") (auto simp: timing_act_def Let_def num_threads_def less_2_cases_iff)
  then have "\<not> (\<exists>s'. timing_step s s')" by (auto elim: timing_step.cases)
  ultimately show ?thesis using s(2,3) by blast
qed

end
