(* ===== verification/Mutex_Results.thy ===== *)
theory Mutex_Results
  imports Prelude
begin

text \<open>
  What the threads of \<^verbatim>\<open>src/mutex_test.cxx\<close> do with their measurements: the evaluation of a measurement, and the results of all tests in two
  arrays. The measured cycles are inputs. The statistics of doubles, the output and the plot are left out.
\<close>

section \<open>The evaluation of a measurement\<close>

text \<open>\<^verbatim>\<open>map\<close> has the number of times that each number of cycles was measured; a number that is not in the map is inserted with 0.\<close>

record clk_counts =
  clk_map :: "int \<rightharpoonup> int"
  max_cnt :: int
  max_clks :: int
  min_clks :: int

definition clk_of :: "64 word \<Rightarrow> int" where
  "clk_of w = sint (ucast w :: 32 word)"

definition count_of :: "(int \<rightharpoonup> int) \<Rightarrow> int \<Rightarrow> int" where
  "count_of m k = (case m k of None \<Rightarrow> 0 | Some v \<Rightarrow> v)"

definition new_clk_counts :: clk_counts where
  "new_clk_counts = \<lparr>clk_map = Map.empty, max_cnt = 0, max_clks = 0, min_clks = 1000000\<rparr>"

definition count_clk :: "64 word \<Rightarrow> clk_counts \<Rightarrow> clk_counts" where
  "count_clk w h =
     (let v = count_of (clk_map h) (clk_of w) + 1;
          h1 = h\<lparr>clk_map := (clk_map h)(clk_of w \<mapsto> v)\<rparr>;
          h2 = (if v > max_cnt h1 then h1\<lparr>max_cnt := v, max_clks := clk_of w\<rparr> else h1) in
      if w < word_of_int (min_clks h2) then h2\<lparr>min_clks := clk_of w\<rparr> else h2)"

text \<open>The loop that looks for the largest number of cycles that is not an outlier.\<close>

primrec find_max :: "int \<Rightarrow> int list \<Rightarrow> (int \<rightharpoonup> int) \<times> int \<Rightarrow> (int \<rightharpoonup> int) \<times> int" where
  "find_max threshold [] r = r"
| "find_max threshold (i # is) r =
     (case r of (m, mx) \<Rightarrow>
        let m' = m(i \<mapsto> count_of m i) in find_max threshold is (m', if count_of m' i \<ge> threshold then i else mx))"

text \<open>The loop over the map, in the order of its keys, of which those that are not in the range are skipped.\<close>

definition keys_between :: "int \<Rightarrow> int \<Rightarrow> (int \<rightharpoonup> int) \<Rightarrow> int list" where
  "keys_between lo hi m = filter (\<lambda>k. m k \<noteq> None) [lo..hi]"

primrec sum_clks :: "(int \<rightharpoonup> int) \<Rightarrow> int list \<Rightarrow> 64 word \<times> 64 word \<Rightarrow> (64 word \<times> 64 word) result" where
  "sum_clks m [] r = Inr r"
| "sum_clks m (k # ks) r =
     bindE (to_int (k * count_of m k)) (\<lambda>p. sum_clks m ks (fst r + word_of_int p, snd r + word_of_int (count_of m k)))"

text \<open>A measurement: \<^verbatim>\<open>min_clks\<close>, \<^verbatim>\<open>max_clks\<close>, \<^verbatim>\<open>sum\<close> and \<^verbatim>\<open>size\<close>; the quotient of the last two is the average.\<close>

record clk_result =
  res_min :: int
  res_max :: int
  res_sum :: "64 word"
  res_size :: "64 word"

definition evaluate :: "64 word list \<Rightarrow> clk_result result" where
  "evaluate dt =
     (let h = fold count_clk dt new_clk_counts in
      bindE (to_int (5 * max_clks h)) (\<lambda>five.
        let mc = min 1000 five;
            (m, mx) = find_max (c_div (max_cnt h) 100) (for_values (min_clks h) (mc - 1) 1) (clk_map h, 0) in
        bindE (sum_clks m (keys_between (min_clks h) mx m) (0, 0)) (\<lambda>(sum, size).
          Inr \<lparr>res_min = min_clks h, res_max = mx, res_sum = sum, res_size = size\<rparr>)))"

section \<open>The results of all tests\<close>

type_synonym clks_all = "int list \<times> int list"

text \<open>The arrays of the largest and smallest numbers of cycles, as \<^verbatim>\<open>main\<close> sets them up.\<close>

definition new_clks_all :: clks_all where
  "new_clks_all = (replicate 300 0, replicate 300 1000000)"

definition record_clks :: "int \<Rightarrow> clk_result \<Rightarrow> clks_all \<Rightarrow> clks_all result" where
  "record_clks nr r all =
     (case all of (max_clks_all, min_clks_all) \<Rightarrow>
        bindE (get_at max_clks_all nr) (\<lambda>a. bindE (set_at max_clks_all nr (max a (res_max r))) (\<lambda>maxs.
        bindE (get_at min_clks_all nr) (\<lambda>b. bindE (set_at min_clks_all nr (min b (res_min r))) (\<lambda>mins. Inr (maxs, mins))))))"

text \<open>The rounds of \<^verbatim>\<open>benchmark\<close> on the measurements of one thread: the results and the arrays. The first round is not recorded.\<close>

primrec benchmark_rounds :: "int \<Rightarrow> int \<Rightarrow> 64 word list list \<Rightarrow> clks_all \<Rightarrow> (clk_result list \<times> clks_all) result" where
  "benchmark_rounds nr i [] all = Inr ([], all)"
| "benchmark_rounds nr i (dt # dts) all =
     bindE (evaluate dt) (\<lambda>r.
     bindE (if i > 1 then record_clks nr r all else Inr all) (\<lambda>all1.
     bindE (benchmark_rounds nr (i + 1) dts all1) (\<lambda>(rs, all2). Inr (r # rs, all2))))"

text \<open>\<^verbatim>\<open>benchmark\<close> with the measurements \<^verbatim>\<open>func j\<close> of its rounds; the first result is erased.\<close>

definition benchmark :: "int \<Rightarrow> (int \<Rightarrow> 64 word list) \<Rightarrow> clks_all \<Rightarrow> (clk_result list \<times> clks_all) result" where
  "benchmark nr func all =
     bindE (benchmark_rounds nr 1 (map func (for_values 1 21 1)) all) (\<lambda>(clocks, all1).
     bindE (assertE (length clocks \<ge> 21)) (\<lambda>_. Inr (take 20 (tl clocks), all1)))"

function loop_counts :: "int \<Rightarrow> int list" where
  "loop_counts n = (if n \<ge> 30 then n # loop_counts (n - 2) else [])"
  by pat_completeness auto
termination
  by (relation "measure (\<lambda>n. nat (n - 28))") auto

declare loop_counts.simps [simp del]

text \<open>\<^verbatim>\<open>run\<close> on the measurements of one thread, from test \<^verbatim>\<open>nr + 1\<close> on.\<close>

primrec run_tests :: "(int \<Rightarrow> int \<Rightarrow> 64 word list) \<Rightarrow> int \<Rightarrow> int list \<Rightarrow> clks_all \<Rightarrow> clks_all result" where
  "run_tests func nr [] all = Inr all"
| "run_tests func nr (c # cs) all =
     bindE (benchmark (nr + 1) (func (nr + 1)) all) (\<lambda>(_, all1). run_tests func (nr + 1) cs all1)"

section \<open>The evaluation counts\<close>

text \<open>The counts after the measurements \<^verbatim>\<open>ks\<close>.\<close>

definition counted_clks :: "int list \<Rightarrow> clk_counts \<Rightarrow> bool" where
  "counted_clks ks h \<longleftrightarrow> (\<forall>k. count_of (clk_map h) k = int (count_list ks k)) \<and> (\<forall>k. int (count_list ks k) \<le> max_cnt h) \<and>
     min_clks h = Min (insert 1000000 (set ks)) \<and> (if ks = [] then max_cnt h = 0 else max_cnt h = int (count_list ks (max_clks h)) \<and> max_clks h \<in> set ks)"

lemma clk_of_small: "uint w < 2147483648 \<Longrightarrow> clk_of w = uint w"
  using signed_take_bit_int_eq_self [of 31 "uint w"] order.trans [OF _ uint_ge_0, of "- 2147483648" w]
  by (simp add: clk_of_def sint_uint unsigned_ucast_eq take_bit_int_eq_self)

lemma count_clk_counts:
  assumes h: "counted_clks ks h" and ks: "\<forall>k \<in> set ks. 0 \<le> k" and w: "uint w < 2147483648"
  shows "counted_clks (ks @ [uint w]) (count_clk w h)"
proof -
  have m: "0 \<le> min_clks h" "min_clks h \<le> 1000000" using h ks by (auto simp: counted_clks_def)
  then have "uint (word_of_int (min_clks h) :: 64 word) = min_clks h" by (simp add: uint_word_of_int)
  then have "min_clks (count_clk w h) = min (uint w) (min_clks h)"
    using w by (auto simp: count_clk_def Let_def clk_of_small word_less_def)
  then have mn: "min_clks (count_clk w h) = Min (insert 1000000 (set (ks @ [uint w])))"
    using h by (simp add: counted_clks_def insert_commute [of 1000000])
  have e: "clk_map (count_clk w h) = (clk_map h)(uint w \<mapsto> count_of (clk_map h) (uint w) + 1)"
    "max_cnt (count_clk w h) = max (max_cnt h) (count_of (clk_map h) (uint w) + 1)"
    "max_clks (count_clk w h) = (if count_of (clk_map h) (uint w) + 1 > max_cnt h then uint w else max_clks h)"
    using w by (auto simp: count_clk_def Let_def clk_of_small)
  have c: "count_of (clk_map h) k = int (count_list ks k)" "int (count_list ks k) \<le> max_cnt h" for k
    using h by (auto simp: counted_clks_def)
  have f1: "int (count_list (ks @ [uint w]) k) \<le> max_cnt (count_clk w h)" for k
    using c [of k] by (auto simp: e(2) c(1) count_list_snoc)
  have f2: "count_of (clk_map (count_clk w h)) k = int (count_list (ks @ [uint w]) k)" for k
    using c(1) by (simp add: e(1) count_of_def count_list_snoc split: option.splits)
  have f3: "max_cnt (count_clk w h) = int (count_list (ks @ [uint w]) (max_clks (count_clk w h))) \<and> max_clks (count_clk w h) \<in> set (ks @ [uint w])"
    using h c by (auto simp: e counted_clks_def count_list_snoc split: if_splits)
  show ?thesis unfolding counted_clks_def using f1 f2 f3 mn by auto
qed

lemma counted_all:
  assumes "\<forall>w \<in> set dt. uint w < 2147483648"
  shows "counted_clks (map uint dt) (fold count_clk dt new_clk_counts)"
  using assms
proof (induction dt rule: rev_induct)
  case Nil
  then show ?case by (simp add: counted_clks_def new_clk_counts_def count_of_def)
next
  case (snoc w dt)
  then show ?case using count_clk_counts [of "map uint dt" "fold count_clk dt new_clk_counts" w] by simp
qed

text \<open>The loop over the candidates keeps the counts and finds the last one above the threshold.\<close>

lemma find_max_eq:
  "\<exists>m'. find_max thr is (m, mx) = (m', fold (\<lambda>i mx. if count_of m i \<ge> thr then i else mx) is mx) \<and> (\<forall>k. count_of m' k = count_of m k) \<and>
     dom m' = dom m \<union> set is"
proof (induction "is" arbitrary: m mx)
  case (Cons i "is")
  have c: "count_of (m(i \<mapsto> count_of m i)) = count_of m" by (auto simp: count_of_def fun_eq_iff)
  obtain m' where "find_max thr is (m(i \<mapsto> count_of m i), if count_of m i \<ge> thr then i else mx) =
      (m', fold (\<lambda>i mx. if count_of m i \<ge> thr then i else mx) is (if count_of m i \<ge> thr then i else mx))"
    "\<forall>k. count_of m' k = count_of m k" "dom m' = dom (m(i \<mapsto> count_of m i)) \<union> set is"
    using Cons.IH [of "m(i \<mapsto> count_of m i)"] unfolding c by blast
  then show ?case by (auto simp: Let_def c simp del: fun_upd_apply)
qed simp

lemma last_above:
  assumes "sorted is" "v \<in> set is" "P v"
  shows "v \<le> fold (\<lambda>i mx. if P i then i else mx) is mx \<and> fold (\<lambda>i mx. if P i then i else mx) is mx \<in> set is"
  using assms
proof (induction "is" arbitrary: mx rule: rev_induct)
  case (snoc i "is")
  then show ?case by (cases "v = i"; cases "P i") (auto simp: sorted_append)
qed simp

lemma sum_counts: "(\<Sum>k \<in> {lo..hi}. f k * int (count_list xs k)) = sum_list (map f (filter (\<lambda>k. lo \<le> k \<and> k \<le> hi) (xs :: int list)))"
proof (induction xs)
  case (Cons x xs)
  have "(\<Sum>k \<in> {lo..hi}. f k * int (count_list (x # xs) k)) =
      (\<Sum>k \<in> {lo..hi}. f k * int (count_list xs k)) + (\<Sum>k \<in> {lo..hi}. if k = x then f x else 0)"
    unfolding sum.distrib [symmetric] by (intro sum.cong) (auto simp: algebra_simps)
  then show ?case using Cons.IH by simp
qed simp

lemma sum_clks_eq:
  assumes "distinct ks" "\<forall>k \<in> set ks. 0 \<le> k \<and> k < 1000 \<and> 0 \<le> count_of m k \<and> count_of m k \<le> 100000"
  shows "sum_clks m ks (a, b) = Inr (a + word_of_int (\<Sum>k \<in> set ks. k * count_of m k), b + word_of_int (\<Sum>k \<in> set ks. count_of m k))"
  using assms
proof (induction ks arbitrary: a b)
  case (Cons k ks)
  then have "k * count_of m k \<le> 1000 * 100000" by (intro mult_mono) auto
  then have "to_int (k * count_of m k) = Inr (k * count_of m k)" using Cons.prems(2) by (intro to_int_in_range) (auto intro: order.trans [of _ 0])
  then show ?case using Cons by (simp add: add.assoc)
qed simp

lemma count_list_length: "count_list xs x \<le> length xs"
  by (induction xs) auto

text \<open>The measurements in a range.\<close>

definition between :: "int \<Rightarrow> int \<Rightarrow> 64 word list \<Rightarrow> int list" where
  "between lo hi dt = filter (\<lambda>k. lo \<le> k \<and> k \<le> hi) (map uint dt)"

lemma between_bounds:
  assumes "length dt \<le> 100000" "hi < 1000"
  shows "0 \<le> sum_list (between lo hi dt)" "sum_list (between lo hi dt) \<le> 100000000" "length (between lo hi dt) \<le> 100000"
proof -
  show l: "length (between lo hi dt) \<le> 100000"
    using assms(1) length_filter_le [of _ "map uint dt"] unfolding between_def by (metis (no_types) length_map order.trans)
  show "0 \<le> sum_list (between lo hi dt)" by (intro sum_list_nonneg) (auto simp: between_def)
  have "sum_list (between lo hi dt) \<le> sum_list (map (\<lambda>_. 1000) (between lo hi dt))"
    using assms(2) by (intro sum_list_mono [of _ "\<lambda>k. k", simplified]) (auto simp: between_def)
  then show "sum_list (between lo hi dt) \<le> 100000000" using l by (simp add: sum_list_triv)
qed

lemma sum_keys_between:
  assumes m: "\<And>k. count_of m k = int (count_list (map uint dt) k)" and dt: "length dt \<le> 100000" and r: "0 \<le> lo" "hi < 1000"
  shows "sum_clks m (keys_between lo hi m) (0, 0) =
    Inr (word_of_int (sum_list (between lo hi dt)), word_of_int (int (length (between lo hi dt))))"
proof -
  let ?ks = "keys_between lo hi m"
  have keys: "distinct ?ks" "set ?ks \<subseteq> {lo..hi}" by (auto simp: keys_between_def)
  have le: "count_list (map uint dt) k \<le> 100000" for k using count_list_length [of "map uint dt" k] dt by simp
  have "sum_clks m ?ks (0, 0) = Inr (0 + word_of_int (\<Sum>k \<in> set ?ks. k * count_of m k), 0 + word_of_int (\<Sum>k \<in> set ?ks. count_of m k))"
    using keys(2) r le by (intro sum_clks_eq [OF keys(1)]) (auto simp: m)
  moreover have sums: "(\<Sum>k \<in> set ?ks. f k * count_of m k) = sum_list (map f (between lo hi dt))" for f
  proof -
    have "(\<Sum>k \<in> set ?ks. f k * count_of m k) = (\<Sum>k \<in> {lo..hi}. f k * count_of m k)"
      by (rule sum.mono_neutral_left) (use keys(2) in \<open>auto simp: keys_between_def count_of_def split: option.splits\<close>)
    then show ?thesis by (simp add: m sum_counts between_def)
  qed
  have "(\<Sum>k \<in> set ?ks. k * count_of m k) = sum_list (between lo hi dt)" "(\<Sum>k \<in> set ?ks. count_of m k) = int (length (between lo hi dt))"
    using sums [of "\<lambda>k. k"] sums [of "\<lambda>k. 1"] by (simp_all add: sum_list_triv)
  ultimately show ?thesis by (simp only: add_0)
qed

text \<open>The evaluation in terms of the counts: the range begins with the smallest measurement and includes the most frequent one.\<close>

lemma evaluate_counts:
  fixes dt :: "64 word list"
  defines "ks \<equiv> map uint dt" and "h \<equiv> fold count_clk dt new_clk_counts"
  assumes dt: "length dt \<le> 100000" "dt \<noteq> []" and c: "counted_clks ks h" and top: "1 \<le> max_clks h" "max_clks h < 1000"
  shows "\<exists>mx. max_clks h \<le> mx \<and> mx < 1000 \<and> evaluate dt = Inr \<lparr>res_min = Min (set ks), res_max = mx,
    res_sum = word_of_int (sum_list (between (Min (set ks)) mx dt)), res_size = word_of_int (int (length (between (Min (set ks)) mx dt)))\<rparr>"
proof -
  let ?thr = "c_div (max_cnt h) 100" and ?is = "[Min (set ks)..min 1000 (5 * max_clks h) - 1]"
  have t: "max_clks h \<in> set ks" "max_cnt h = int (count_list ks (max_clks h))" and ne: "set ks \<noteq> {}"
    using c dt(2) by (auto simp: counted_clks_def ks_def)
  have lo: "0 \<le> Min (set ks)" "Min (set ks) \<le> max_clks h" using t(1) ne by (auto simp: ks_def intro: Min.boundedI)
  then have "Min (set ks) \<le> 1000000" using top(2) by linarith
  then have mn: "min_clks h = Min (set ks)" using c ne by (simp add: counted_clks_def)
  define mx where "mx = fold (\<lambda>i mx. if count_of (clk_map h) i \<ge> ?thr then i else mx) ?is 0"
  obtain m where m: "find_max ?thr ?is (clk_map h, 0) = (m, mx)" "\<And>k. count_of m k = count_of (clk_map h) k"
    using find_max_eq [of ?thr ?is "clk_map h" 0] unfolding mx_def by auto
  have "max_clks h \<in> set ?is" "count_of (clk_map h) (max_clks h) \<ge> ?thr"
    using top lo t(2) c by (auto simp: counted_clks_def)
  then have mx: "max_clks h \<le> mx" "mx < 1000"
    unfolding mx_def using last_above [of ?is "max_clks h" "\<lambda>i. count_of (clk_map h) i \<ge> ?thr" 0] by auto
  have "sum_clks m (keys_between (Min (set ks)) mx m) (0, 0) =
      Inr (word_of_int (sum_list (between (Min (set ks)) mx dt)), word_of_int (int (length (between (Min (set ks)) mx dt))))"
    using m(2) c by (intro sum_keys_between dt(1) lo(1) mx(2)) (simp add: counted_clks_def ks_def)
  then have "evaluate dt = Inr \<lparr>res_min = Min (set ks), res_max = mx,
      res_sum = word_of_int (sum_list (between (Min (set ks)) mx dt)), res_size = word_of_int (int (length (between (Min (set ks)) mx dt)))\<rparr>"
    using top m(1) by (simp add: evaluate_def Let_def mn for_values_upto flip: h_def)
  then show ?thesis using mx by blast
qed

section \<open>Properties\<close>

text \<open>
  C1. The evaluation of a measurement whose most frequent numbers of cycles are from 1 to 999 gives the exact sum and the number of the
  measurements in its range, which begins with the smallest one and includes the most frequent one; so the average is not that of no
  measurement, and it lies in the range.
\<close>

theorem evaluation_exact:
  assumes dt: "length dt \<le> 100000" "\<forall>w \<in> set dt. uint w < 400000000" and v: "v \<in> set dt" "1 \<le> uint v" "uint v < 1000"
    and rare: "\<forall>w \<in> set dt. \<not> (1 \<le> uint w \<and> uint w < 1000) \<longrightarrow> count_list dt w < count_list dt v"
  shows "\<exists>r. evaluate dt = Inr r \<and> res_min r = Min (uint ` set dt) \<and>
    uint (res_sum r) = sum_list (between (res_min r) (res_max r) dt) \<and> uint (res_size r) = int (length (between (res_min r) (res_max r) dt)) \<and>
    0 < uint (res_size r) \<and> res_min r * uint (res_size r) \<le> uint (res_sum r) \<and> uint (res_sum r) \<le> res_max r * uint (res_size r)"
proof -
  let ?h = "fold count_clk dt new_clk_counts"
  have ne: "dt \<noteq> []" using v(1) by auto
  have c: "counted_clks (map uint dt) ?h" using dt(2) by (intro counted_all) auto
  have u: "count_list (map uint dt) (uint w) = count_list dt w" for w by (induction dt) (auto simp: word_uint_eq_iff)
  obtain w where w: "w \<in> set dt" "max_clks ?h = uint w" "count_list dt v \<le> count_list dt w"
  proof -
    have "max_clks ?h \<in> set (map uint dt)" "int (count_list (map uint dt) (uint v)) \<le> int (count_list (map uint dt) (max_clks ?h))"
      using c ne by (auto simp: counted_clks_def split: if_splits)
    then show ?thesis using that u by fastforce
  qed
  then have "1 \<le> max_clks ?h" "max_clks ?h < 1000" using rare by (metis leD)+
  from evaluate_counts [OF dt(1) ne c this] obtain mx where mx: "max_clks ?h \<le> mx" "mx < 1000"
    "evaluate dt = Inr \<lparr>res_min = Min (uint ` set dt), res_max = mx,
      res_sum = word_of_int (sum_list (between (Min (uint ` set dt)) mx dt)), res_size = word_of_int (int (length (between (Min (uint ` set dt)) mx dt)))\<rparr>"
    by auto
  let ?b = "between (Min (uint ` set dt)) mx dt"
  have "uint w \<in> set ?b" using w mx(1) by (auto simp: between_def)
  then have "0 < length ?b" by (cases ?b) auto
  moreover have "Min (uint ` set dt) * int (length ?b) \<le> sum_list ?b" "sum_list ?b \<le> mx * int (length ?b)"
    using sum_list_mono [of ?b "\<lambda>_. Min (uint ` set dt)" "\<lambda>k. k"] sum_list_mono [of ?b "\<lambda>k. k" "\<lambda>_. mx"]
    by (auto simp: between_def sum_list_triv mult.commute)
  ultimately show ?thesis using mx between_bounds [OF dt(1) mx(2), of "Min (uint ` set dt)"]
    by (simp add: uint_word_of_int unsigned_of_nat take_bit_nat_eq_self)
qed

text \<open>A measurement with an outlier.\<close>

theorem evaluation_exact_witness:
  "\<exists>r. evaluate [100, 120, 100, 5000] = Inr r \<and> res_min r = 100 \<and> 0 < uint (res_size r) \<and> 100 * uint (res_size r) \<le> uint (res_sum r)"
  using evaluation_exact [of "[100, 120, 100, 5000]" 100] by auto

text \<open>When all measurements are 1000 or more, none is in the range and the average is that of no measurement.\<close>

theorem slow_measurement_has_no_average:
  assumes "dt \<noteq> []" "\<forall>w \<in> set dt. 1000 \<le> uint w \<and> uint w < 400000000"
  shows "\<exists>r. evaluate dt = Inr r \<and> res_size r = 0"
proof -
  let ?h = "fold count_clk dt new_clk_counts"
  have c: "counted_clks (map uint dt) ?h" using assms(2) by (intro counted_all) auto
  then have "max_clks ?h \<in> uint ` set dt" "1000 \<le> min_clks ?h" using assms by (auto simp: counted_clks_def split: if_splits)
  then have "5 * max_clks ?h \<le> 2147483647" "1000 \<le> max_clks ?h" "min 1000 (5 * max_clks ?h) - 1 < min_clks ?h" "keys_between (min_clks ?h) 0 m = []" for m
    using assms(2) by (auto simp: keys_between_def)
  then show ?thesis by (simp add: evaluate_def Let_def)
qed

lemma record_clks_ok:
  assumes "0 \<le> nr" "nr < 300" "length (fst all) = 300" "length (snd all) = 300"
  shows "\<exists>all'. record_clks nr r all = Inr all' \<and> length (fst all') = 300 \<and> length (snd all') = 300"
  using assms by (cases all) (simp add: record_clks_def get_at_def set_at_def)

lemma benchmark_rounds_ok:
  assumes "0 \<le> nr" "nr < 300" "\<forall>dt \<in> set dts. succeeds (evaluate dt)" "length (fst all) = 300" "length (snd all) = 300"
  shows "\<exists>rs all'. benchmark_rounds nr i dts all = Inr (rs, all') \<and> length rs = length dts \<and> length (fst all') = 300 \<and> length (snd all') = 300"
  using assms(3-)
proof (induction dts arbitrary: i all)
  case (Cons dt dts)
  obtain r where r: "evaluate dt = Inr r" using Cons.prems(1) by (auto simp: succeeds_iff)
  obtain all1 where a: "(if i > 1 then record_clks nr r all else Inr all) = Inr all1" "length (fst all1) = 300" "length (snd all1) = 300"
    using record_clks_ok [OF assms(1,2) Cons.prems(2,3), of r] Cons.prems by (cases "i > 1") auto
  show ?case using Cons.IH [of all1 "i + 1"] Cons.prems(1) r a by auto
qed simp

lemma loop_counts_length: "28 \<le> n \<Longrightarrow> length (loop_counts n) = nat ((n - 28) div 2)"
proof (induction n rule: loop_counts.induct)
  case (1 n)
  then show ?case by (subst loop_counts.simps) (auto simp: nat_add_distrib [symmetric])
qed

text \<open>
  The arrays have 300 elements, and there are 486 tests: the tests up to number 299 are recorded, the next one writes outside the arrays.
\<close>

theorem run_out_of_range:
  assumes ok: "\<And>nr i. succeeds (evaluate (func nr i))"
  shows "(\<exists>all. run_tests func 0 (take 299 (loop_counts 1000)) new_clks_all = Inr all) \<and>
    run_tests func 0 (loop_counts 1000) new_clks_all = Inl Out_of_range"
proof -
  have b: "\<exists>rs all'. benchmark nr (func nr) all = Inr (rs, all') \<and> length (fst all') = 300 \<and> length (snd all') = 300"
    if "0 \<le> nr" "nr < 300" "length (fst all) = 300" "length (snd all) = 300" for nr all
    using benchmark_rounds_ok [OF that(1,2) _ that(3,4), of "map (func nr) (for_values 1 21 1)" 1] ok
    by (auto simp: benchmark_def for_values_upto)
  have out: "benchmark nr (func nr) all = Inl Out_of_range" if "300 \<le> nr" "length (fst all) = 300" for nr all
  proof -
    have "\<exists>r. evaluate (func nr i) = Inr r" for i using ok by (simp add: succeeds_iff)
    then obtain r where "\<And>i. evaluate (func nr i) = Inr (r i)" by metis
    then show ?thesis using that by (cases all) (simp add: benchmark_def for_values_Cons record_clks_def get_at_def)
  qed
  have t: "if nr + int (length cs) < 300 then \<exists>all'. run_tests func nr cs all = Inr all' else run_tests func nr cs all = Inl Out_of_range"
    if "0 \<le> nr" "nr < 300" "length (fst all) = 300" "length (snd all) = 300" for nr cs all
    using that
  proof (induction cs arbitrary: nr all)
    case (Cons c cs)
    show ?case
    proof (cases "nr + 1 < 300")
      case True
      then obtain rs all' where "benchmark (nr + 1) (func (nr + 1)) all = Inr (rs, all')" "length (fst all') = 300" "length (snd all') = 300"
        using b [of "nr + 1" all] Cons.prems by auto
      then show ?thesis using Cons.IH [of "nr + 1" all'] Cons.prems(1) True by (auto simp: algebra_simps)
    next
      case False
      then show ?thesis using out [of "nr + 1" all] Cons.prems by simp
    qed
  qed simp
  have "length (loop_counts 1000) = 486" by (simp add: loop_counts_length)
  then show ?thesis
    using t [of 0 new_clks_all "take 299 (loop_counts 1000)"] t [of 0 new_clks_all "loop_counts 1000"] by (simp add: new_clks_all_def)
qed

end
