(* ===== verification/Semaphore_Test.thy ===== *)
theory Semaphore_Test
  imports Prelude
begin

text \<open>
  The four threads of \<^verbatim>\<open>src/semaphore_test.cxx\<close> and the \<^verbatim>\<open>main\<close> that joins them, under every interleaving. The semaphore (a submodule) is
  represented by its tokens: \<^verbatim>\<open>wait\<close> takes a token when there is one, \<^verbatim>\<open>post\<close> adds tokens.
\<close>

section \<open>The program\<close>

text \<open>A thread has not yet called \<^verbatim>\<open>wait\<close> or \<^verbatim>\<open>post\<close>, or it has returned. Threads 0 and 1 are waiters, 2 and 3 are wakers.\<close>

datatype sem_thread = Entering | Left

record sem_test =
  tokens :: nat
  threads :: "nat \<Rightarrow> sem_thread"
  joined :: nat

definition sem_start :: sem_test where
  "sem_start = \<lparr>tokens = 0, threads = (\<lambda>_. Entering), joined = 0\<rparr>"

definition waiter :: "nat \<Rightarrow> sem_test \<Rightarrow> sem_test option" where
  "waiter i s = (if 0 < tokens s then Some (s\<lparr>tokens := tokens s - 1, threads := (threads s)(i := Left)\<rparr>) else None)"

definition waker :: "nat \<Rightarrow> sem_test \<Rightarrow> sem_test option" where
  "waker i s = Some (s\<lparr>tokens := tokens s + 3, threads := (threads s)(i := Left)\<rparr>)"

text \<open>\<^verbatim>\<open>main\<close> joins the threads in their order.\<close>

inductive sem_step :: "sem_test \<Rightarrow> sem_test \<Rightarrow> bool" where
  waits: "i < 2 \<Longrightarrow> threads s i = Entering \<Longrightarrow> waiter i s = Some s' \<Longrightarrow> sem_step s s'"
| posts: "2 \<le> i \<Longrightarrow> i < 4 \<Longrightarrow> threads s i = Entering \<Longrightarrow> waker i s = Some s' \<Longrightarrow> sem_step s s'"
| joins: "joined s < 4 \<Longrightarrow> threads s (joined s) = Left \<Longrightarrow> sem_step s (s\<lparr>joined := joined s + 1\<rparr>)"

section \<open>The invariant\<close>

definition entering :: "sem_thread \<Rightarrow> bool" where
  "entering t \<longleftrightarrow> t = Entering"

text \<open>The tokens are those that were posted and not taken; a joined thread has returned.\<close>

definition sem_ok :: "sem_test \<Rightarrow> bool" where
  "sem_ok s \<longleftrightarrow> int (tokens s) = 4 + of_bool (entering (threads s 0)) + of_bool (entering (threads s 1))
       - 3 * of_bool (entering (threads s 2)) - 3 * of_bool (entering (threads s 3)) \<and>
     joined s \<le> 4 \<and> (\<forall>i < joined s. threads s i = Left)"

definition sem_work :: "sem_test \<Rightarrow> nat" where
  "sem_work s = nat (number_at entering 4 (threads s)) + (4 - joined s)"

lemma enter_less: "i < 4 \<Longrightarrow> threads s i = Entering \<Longrightarrow> nat (number_at entering 4 ((threads s)(i := Left))) < nat (number_at entering 4 (threads s))"
  using number_at_update [of i 4 entering "threads s" Left] number_at_nonneg [of entering 4 "(threads s)(i := Left)"]
  by (simp add: entering_def)

lemma less_4: "i < (4 :: nat) \<longleftrightarrow> i = 0 \<or> i = 1 \<or> i = 2 \<or> i = 3"
  by auto

interpretation sem: terminating "\<lambda>s. s = sem_start" sem_step sem_ok sem_work
proof
  show "sem_ok s" if "s = sem_start" for s using that by (simp add: sem_ok_def sem_start_def entering_def)
  fix s t assume ok: "sem_ok s" and step: "sem_step s t"
  from step show "sem_ok t"
  proof cases
    case (waits i)
    then show ?thesis using ok by (auto simp: waiter_def sem_ok_def entering_def less_2_cases_iff split: if_splits)
  next
    case (posts i)
    then show ?thesis using ok by (auto simp: waker_def sem_ok_def entering_def less_4)
  next
    case joins
    then show ?thesis using ok by (auto simp: sem_ok_def less_Suc_eq)
  qed
  from step show "sem_work t < sem_work s"
  proof cases
    case (waits i)
    then show ?thesis using enter_less [of i s] by (auto simp: waiter_def sem_work_def split: if_splits)
  next
    case (posts i)
    then show ?thesis using enter_less [of i s] by (auto simp: waker_def sem_work_def)
  next
    case joins
    then show ?thesis by (simp add: sem_work_def)
  qed
qed

section \<open>The program ends\<close>

text \<open>The wakers never wait, and after they have posted there are enough tokens for the waiters.\<close>

lemma sem_progress:
  assumes ok: "sem_ok s" and "joined s < 4"
  shows "\<exists>s'. sem_step s s'"
proof (cases "\<exists>i. 2 \<le> i \<and> i < 4 \<and> threads s i = Entering")
  case True
  then show ?thesis using posts by (auto simp: waker_def)
next
  case False
  then have "threads s 2 \<noteq> Entering" "threads s 3 \<noteq> Entering" by auto
  then have t: "0 < tokens s" using ok by (cases "tokens s") (auto simp: sem_ok_def entering_def of_bool_def split: if_splits)
  show ?thesis
  proof (cases "threads s (joined s) = Left")
    case True
    then show ?thesis using joins assms(2) by blast
  next
    case join: False
    then have "threads s (joined s) = Entering" by (cases "threads s (joined s)") auto
    moreover have "joined s < 2" using False calculation assms(2) by (meson not_less)
    ultimately show ?thesis using waits [of "joined s" s] t by (auto simp: waiter_def)
  qed
qed

text \<open>
  Under every interleaving the program ends after eight actions at most, four calls and four joins; no thread waits for ever, and four of the
  six tokens are left.
\<close>

theorem semaphore_test_ends:
  assumes "(sem_step ^^ n) sem_start s"
  shows "n \<le> 8 \<and> ((\<exists>s'. sem_step s s') \<or> joined s = 4 \<and> tokens s = 4)"
proof -
  have "sem_work sem_start = 8" by (simp add: sem_work_def sem_start_def number_at_def entering_def)
  then have ok: "sem_ok s" "n \<le> 8" using sem.run_from_start [OF assms] by auto
  have "tokens s = 4" if "joined s = 4"
  proof -
    have "\<forall>i < 4. threads s i = Left" using ok(1) that by (simp add: sem_ok_def)
    then show ?thesis using ok(1) by (simp add: sem_ok_def entering_def)
  qed
  moreover have "joined s = 4 \<or> joined s < 4" using ok(1) by (auto simp: sem_ok_def)
  ultimately show ?thesis using sem_progress [OF ok(1)] ok(2) by blast
qed

end
