(* ===== verification/Slow_Down.thy ===== *)
theory Slow_Down
  imports Prelude
begin

text \<open>
  The call-backs of \<^verbatim>\<open>src/slow_down_test.cxx\<close>: each of the tasks calls back once, and the last call-back opens the gate on which \<^verbatim>\<open>main\<close> waits.
  The tasks (submodule) run under every interleaving; a task ends with success or failure, which makes no difference to the call-back.
\<close>

section \<open>The program\<close>

definition number_of_tasks :: int where
  "number_of_tasks = 30"

text \<open>A task runs; its call-back has incremented the counter and found this old value; the call-back has returned.\<close>

datatype slow_task = Running | Counted int | Returned

record slow =
  finished_counter :: int
  gate_opened :: nat
  tasks :: "nat \<Rightarrow> slow_task"
  main_done :: bool

definition new_slow :: slow where
  "new_slow = \<lparr>finished_counter = 0, gate_opened = 0, tasks = (\<lambda>_. Running), main_done = False\<rparr>"

definition slow_callback :: "nat \<Rightarrow> slow \<Rightarrow> slow option" where
  "slow_callback i s =
     (case tasks s i of
        Running \<Rightarrow> Some (s\<lparr>tasks := (tasks s)(i := Counted (finished_counter s)), finished_counter := finished_counter s + 1\<rparr>)
      | Counted c \<Rightarrow>
          Some (if c = number_of_tasks - 1 then s\<lparr>tasks := (tasks s)(i := Returned), gate_opened := gate_opened s + 1\<rparr>
            else s\<lparr>tasks := (tasks s)(i := Returned)\<rparr>)
      | Returned \<Rightarrow> None)"

inductive slow_step :: "slow \<Rightarrow> slow \<Rightarrow> bool" where
  calls_back: "i < nat number_of_tasks \<Longrightarrow> slow_callback i s = Some s' \<Longrightarrow> slow_step s s'"
| gate_wait_returns: "0 < gate_opened s \<Longrightarrow> \<not> main_done s \<Longrightarrow> slow_step s (s\<lparr>main_done := True\<rparr>)"

section \<open>The invariant\<close>

definition running :: "slow_task \<Rightarrow> bool" where
  "running t \<longleftrightarrow> t = Running"

definition is_last :: "slow_task \<Rightarrow> bool" where
  "is_last t \<longleftrightarrow> t = Counted 29"

definition slow_ok :: "slow \<Rightarrow> bool" where
  "slow_ok s \<longleftrightarrow> finished_counter s = 30 - number_at running 30 (tasks s) \<and>
     int (gate_opened s) + number_at is_last 30 (tasks s) = of_bool (finished_counter s = 30) \<and> (main_done s \<longrightarrow> 0 < gate_opened s)"

primrec task_work :: "slow_task \<Rightarrow> nat" where
  "task_work Running = 2"
| "task_work (Counted c) = 1"
| "task_work Returned = 0"

definition slow_work :: "slow \<Rightarrow> nat" where
  "slow_work s = (\<Sum>i < 30. task_work (tasks s i)) + of_bool (\<not> main_done s)"

lemma work_update: "i < 30 \<Longrightarrow> (\<Sum>j < (30 :: nat). task_work (((tasks s)(i := t)) j)) + task_work (tasks s i) = (\<Sum>j < 30. task_work (tasks s j)) + task_work t"
  by (rule sum_update)

lemma slow_callback_ok:
  assumes ok: "slow_ok s" and i: "i < 30" and a: "slow_callback i s = Some s'"
  shows "slow_ok s'"
proof (cases "tasks s i")
  case Running
  have "0 < number_at running 30 (tasks s)"
    using none_at [of running 30 "tasks s"] number_at_nonneg [of running 30 "tasks s"] Running i by (force simp: running_def)
  moreover note number_at_update [OF i, of running "tasks s"] number_at_update [OF i, of is_last "tasks s"] number_at_nonneg [of is_last 30 "tasks s"]
  ultimately show ?thesis using ok a Running by (auto simp: slow_ok_def slow_callback_def running_def is_last_def)
next
  case (Counted c)
  note number_at_update [OF i, of running "tasks s"] number_at_update [OF i, of is_last "tasks s"]
  then show ?thesis using ok a Counted by (auto simp: slow_ok_def slow_callback_def running_def is_last_def number_of_tasks_def split: if_splits)
qed (use a in \<open>simp add: slow_callback_def\<close>)

interpretation slow: terminating "\<lambda>s. s = new_slow" slow_step slow_ok slow_work
proof
  show "slow_ok s" if "s = new_slow" for s
    using that by (simp add: slow_ok_def new_slow_def number_at_def running_def is_last_def)
  fix s t assume ok: "slow_ok s" and step: "slow_step s t"
  from step show "slow_ok t"
    by cases (use ok slow_callback_ok [OF ok] in \<open>auto simp: number_of_tasks_def slow_ok_def\<close>)
  from step show "slow_work t < slow_work s"
  proof cases
    case (calls_back i)
    then have i: "i < 30" by (simp add: number_of_tasks_def)
    show ?thesis using calls_back(2) work_update [OF i, of s "Counted (finished_counter s)"] work_update [OF i, of s Returned]
      by (cases "tasks s i") (auto simp: slow_callback_def slow_work_def simp del: fun_upd_apply split: if_splits)
  next
    case gate_wait_returns
    then show ?thesis by (simp add: slow_work_def)
  qed
qed

section \<open>The program ends\<close>

text \<open>
  Under every interleaving of the call-backs the program ends: while \<^verbatim>\<open>main\<close> waits, some call-back or \<^verbatim>\<open>main\<close> can go on, 61 actions at most. The
  gate is opened at most once, and when \<^verbatim>\<open>main\<close> goes on every task has called back.
\<close>

theorem slow_down_ends:
  assumes "(slow_step ^^ n) new_slow s"
  shows "n \<le> 61 \<and> gate_opened s \<le> 1 \<and> (main_done s \<longrightarrow> (\<forall>i < 30. tasks s i \<noteq> Running)) \<and> ((\<exists>s'. slow_step s s') \<or> main_done s)"
proof -
  have "slow_work new_slow = 61" by (simp add: slow_work_def new_slow_def)
  then have ok: "slow_ok s" "n \<le> 61" using slow.run_from_start [OF assms] by auto
  have g: "gate_opened s \<le> 1" using ok(1) number_at_nonneg [of is_last 30 "tasks s"] by (auto simp: slow_ok_def of_bool_def split: if_splits)
  have all: "\<forall>i < 30. tasks s i \<noteq> Running" if "0 < gate_opened s"
  proof -
    have "number_at running 30 (tasks s) = 0"
      using that ok(1) number_at_nonneg [of is_last 30 "tasks s"] by (auto simp: slow_ok_def of_bool_def split: if_splits)
    then show ?thesis by (simp add: none_at running_def)
  qed
  have "\<exists>s'. slow_step s s'" if m: "\<not> main_done s"
  proof (cases "\<exists>i < 30. tasks s i \<noteq> Returned")
    case True
    then obtain i where i: "i < 30" "tasks s i \<noteq> Returned" by blast
    then obtain s' where "slow_callback i s = Some s'" by (cases "tasks s i") (auto simp: slow_callback_def)
    then show ?thesis using i(1) calls_back [of i s s'] by (auto simp: number_of_tasks_def)
  next
    case False
    then have "number_at running 30 (tasks s) = 0" "number_at is_last 30 (tasks s) = 0"
      by (auto simp: none_at running_def is_last_def)
    then have "0 < gate_opened s" using ok(1) by (auto simp: slow_ok_def)
    then show ?thesis using m gate_wait_returns by blast
  qed
  then show ?thesis using ok g all by (auto simp: slow_ok_def)
qed

end
