(* ===== verification/Spec2Isabelle.thy ===== *)
theory Spec2Isabelle
  imports Tournament_Tree Wait_Signal_Counters Wait_Signal_Script RW_Spinlock Fibonacci_Main Hello_Main
    Run_Thread_Main Rewrite_Tool Timers Tsc_Kmod Tsc_Offset Object_Queue Pool_Close Mutex_Benchmark CV_Wait Benchmark_Loops
    Futex_Model Task_Mutex Mutex_Task Pointer_Storage Signal_Test Timer_Safety Spin_Wakeup File_Lock Network_Tests Delayed_Function
    Yield_Test Mutex_Timing Mutex_Results Semaphore_Test Slow_Down
begin

text \<open>
  A verification library for the programs of the \<^emph>\<open>ai-statefultask\<close> test suite. The suite is a
  collection of programs under \<^verbatim>\<open>src/\<close> that exercise a library of stateful tasks, a thread pool,
  timers and locks. That library is in git submodules; the programs themselves hold reference
  implementations, state machines, tools and tests, and these are modelled here.

  \<^bold>\<open>The parts of the suite and their theories.\<close>

  The programs share no code but the submodules, so a theory belongs to one program, or to a few that
  use the same interface; \<^verbatim>\<open>Prelude\<close> holds what they have in common. A name of a definition is the
  name of the C++ function, class or variable where Isabelle allows it.

  Data structures and state machines of the suite itself:
  \<^item> \<^verbatim>\<open>Tournament_Tree\<close>: \<^verbatim>\<open>src/tree_prop.cc\<close>. The tree of indices and the cached values are lists, the two
  update loops are functions with a termination proof, \<^verbatim>\<open>main\<close> runs all cases. The updates keep the winners
  right for all integers (C1, C2), and the program's own test prints success; \<^verbatim>\<open>is_sane\<close> complains exactly
  about wrong trees.
  \<^item> \<^verbatim>\<open>Wait_Signal_Counters\<close>: \<^verbatim>\<open>src/wait_signal_test2.cxx\<close>. Counters, task, transition table and the runs of a sequence of
  operations. The table is the encoding of the operations (C3), states and numbers correspond one to one (C4),
  no sequence leaves the table (C5), and a wait and a signal commute.
  \<^item> \<^verbatim>\<open>Wait_Signal_Script\<close>: \<^verbatim>\<open>src/wait_signal_test.cxx\<close>. The scripts of the unit test as data and their execution on a
  task class that is a parameter; all pass for every class with the documented behaviour (C6).
  \<^item> \<^verbatim>\<open>RW_Spinlock\<close>: \<^verbatim>\<open>src/rwspinlock_test.cxx\<close>. States, transitions with their follow-up and the generation of the
  graph. Operations are safe (C7), writers exclude readers (C8), the generation does not end (C9).
  \<^item> \<^verbatim>\<open>Timers\<close>: \<^verbatim>\<open>src/timer_test.cxx\<close>. With \<^verbatim>\<open>TEST_ALL_THREE\<close>: the multimap and the priority queue of running timers
  and the loop that runs them side by side. Both refine the set of running timers (C18, C19), so they agree (C17).
  \<^item> \<^verbatim>\<open>Task_Mutex\<close>: \<^verbatim>\<open>src/FileLock_test.cxx\<close>. The mutex refines a contract of writers and readers (C32).
  \<^item> \<^verbatim>\<open>Futex_Model\<close>: \<^verbatim>\<open>src/genmc_spinsemaphore_test.c\<close>. The futex under every interleaving (C31).

  Tasks:
  \<^item> \<^verbatim>\<open>Fibonacci\<close> and \<^verbatim>\<open>Fibonacci_Main\<close>: \<^verbatim>\<open>src/fiboquick.cxx\<close> and \<^verbatim>\<open>src/fibonacci.cxx\<close>. The table is right modulo 2^64 (C10); the tree of tasks
  computes the number under every scheduling, without a fault up to index 45 (C11), and \<^verbatim>\<open>main\<close> prints it (C12).
  \<^item> \<^verbatim>\<open>Hello_World\<close> and \<^verbatim>\<open>Hello_Main\<close>: \<^verbatim>\<open>src/helloworld.cxx\<close>. Two tasks that bump each other, and \<^verbatim>\<open>main\<close>, which polls their
  number: no wake-up is lost and the program ends (C13); a signal can reach a destroyed task, and the loop of \<^verbatim>\<open>main\<close> can
  give up early.
  \<^item> \<^verbatim>\<open>Mutex_Task\<close>: \<^verbatim>\<open>src/AIStatefulTaskMutex_test.cxx\<close>. Tasks that take turns in a critical area: well-formed states are
  kept and never stuck (C34).
  \<^item> \<^verbatim>\<open>Run_Thread\<close> and \<^verbatim>\<open>Run_Thread_Main\<close>: \<^verbatim>\<open>src/runthread.cxx\<close>. A task that dispatches two functions to a queue that may be full, and
  the whole program with its worker threads and the gate between the functions (C38).
  \<^item> \<^verbatim>\<open>Yield_Test\<close>: \<^verbatim>\<open>src/threadpool_yield_test.cxx\<close>. A task that yields from each handler to each other one, for all codes (C39).
  \<^item> \<^verbatim>\<open>Slow_Down\<close>: \<^verbatim>\<open>src/slow_down_test.cxx\<close>. The call-backs of thirty tasks, of which the last one opens a gate.
  \<^item> \<^verbatim>\<open>Main_Loop\<close>: \<^verbatim>\<open>src/resolver_getnameinfo.cxx\<close> and \<^verbatim>\<open>src/minimal.cxx\<close>. The main loop around a task, with the exit status and the
  output in all cases.
  \<^item> \<^verbatim>\<open>Network_Tests\<close>: \<^verbatim>\<open>src/AILookupTask_test.cxx\<close>, \<^verbatim>\<open>src/AIResolver_test.cxx\<close>, \<^verbatim>\<open>src/AITimer_test.cxx\<close>, \<^verbatim>\<open>src/socket_task_test.cxx\<close> and
  \<^verbatim>\<open>src/proxy_test.cxx\<close>. The call-backs and loops of these programs, and when they do not end.
  \<^item> \<^verbatim>\<open>Delayed_Function\<close>: \<^verbatim>\<open>src/function.cxx\<close>. The order and the output of delayed calls.

  Threads and queues:
  \<^item> \<^verbatim>\<open>Object_Queue\<close>: \<^verbatim>\<open>src/objectqueue.cxx\<close> and \<^verbatim>\<open>src/timer_thread.cxx\<close>. Users of the queue of the thread pool (C27).
  \<^item> \<^verbatim>\<open>Pool_Load\<close> and \<^verbatim>\<open>Pool_Close\<close>: \<^verbatim>\<open>src/threadpool.cxx\<close>. The number of executions under every interleaving, and what is pending
  when the gate opens (C26).
  \<^item> \<^verbatim>\<open>Mutex_Benchmark\<close>: \<^verbatim>\<open>src/mutex_benchmark.cxx\<close>. Four threads behind a spin lock, of which only one passes (C24), and the
  evaluation of their results.
  \<^item> \<^verbatim>\<open>CV_Wait\<close>: \<^verbatim>\<open>src/cv_wait.cxx\<close>. A condition variable with spurious wake-ups (C25).
  \<^item> \<^verbatim>\<open>Pointer_Storage\<close>: \<^verbatim>\<open>src/pointer_storage_test.cxx\<close>. Threads that share a storage of pointers (C33).
  \<^item> \<^verbatim>\<open>Signal_Test\<close>: \<^verbatim>\<open>src/signal_test.cxx\<close>. Signal handlers that count and wake up threads (C35).
  \<^item> \<^verbatim>\<open>Timer_Safety\<close>: \<^verbatim>\<open>src/timer_threadsafety_test.cxx\<close>. Stopping a timer while its call-back may run (C36).
  \<^item> \<^verbatim>\<open>Spin_Wakeup\<close>: \<^verbatim>\<open>src/spin_wakeup_test.cxx\<close>. Threads that sleep on a semaphore and threads that post: how many tokens there are,
  and that all are taken (C37); the buckets of the measured points.
  \<^item> \<^verbatim>\<open>Mutex_Timing\<close> and \<^verbatim>\<open>Mutex_Results\<close>: \<^verbatim>\<open>src/mutex_test.cxx\<close>. Two threads that measure in step (C40), but can hang; the exact
  evaluation of a measurement, and the arrays that are too small for all tests.
  \<^item> \<^verbatim>\<open>Semaphore_Test\<close>: \<^verbatim>\<open>src/semaphore_test.cxx\<close>. Two threads that wait and two that post.
  \<^item> \<^verbatim>\<open>File_Lock\<close>: \<^verbatim>\<open>src/filelock.cxx\<close>. Processes that take turns with a lock file.

  Measurements:
  \<^item> \<^verbatim>\<open>Tsc_Kmod\<close>: \<^verbatim>\<open>src/kmod/tsc_kmod.c\<close>. Memory (C20) and statistics in 64-bit words (C21).
  \<^item> \<^verbatim>\<open>Tsc_Offset\<close>: \<^verbatim>\<open>src/core.cc\<close>. Two threads that exchange time stamps: bounds and the number of samples (C22), the result (C23),
  the rounds of \<^verbatim>\<open>main\<close>.
  \<^item> \<^verbatim>\<open>Benchmark_Calibration\<close> and \<^verbatim>\<open>Benchmark_Loops\<close>: \<^verbatim>\<open>src/benchmark.cxx\<close>. The rounds of the calibrations (C28, C29), their loops and the
  constructor on a steady machine (C30), the threads of \<^verbatim>\<open>main\<close>.

  A tool:
  \<^item> \<^verbatim>\<open>Regex\<close>, \<^verbatim>\<open>Rewrite_Header\<close> and \<^verbatim>\<open>Rewrite_Tool\<close>: \<^verbatim>\<open>src/rewrite_header.cxx\<close>. The regular expressions that the tool uses, with the
  order of \<^verbatim>\<open>std::regex\<close>; the class \<^verbatim>\<open>Header\<close> and the state machine \<^verbatim>\<open>process\<close>; the files and \<^verbatim>\<open>main\<close>, with every failure of
  the disk. No code is lost (C14, C16), the years are printed as runs (C15).

  \<^bold>\<open>How the programs are modelled.\<close>

  A class or a group of variables is a record, an enumeration a datatype, unsigned integers and
  \<^verbatim>\<open>uint64_t\<close> are words. A signed \<^verbatim>\<open>int\<close> is an integer; where it can overflow, \<^verbatim>\<open>to_int\<close> makes that the
  fault \<^verbatim>\<open>Arithmetic_overflow\<close>. A function that can fail has a sum as its result: \<^verbatim>\<open>Inl\<close> of a \<^verbatim>\<open>fault\<close> (a
  failing assertion, an access outside an array, a null pointer, a division by zero, an overflow, an
  exception, a fatal error) or \<^verbatim>\<open>Inr\<close> of the value. Loops are recursive functions, threads are
  an inductive step relation whose steps are the atomic actions of the source; a section that
  holds a mutex is one step when it accesses what others share once.

  Code of the submodules (task base class, engine, thread pool, object queue, pointer storage,
  delayed function, \<^verbatim>\<open>MinAvgMax\<close>), time stamps, random numbers and the outcome of allocations are
  parameters. What a program relies on is a named predicate or a locale (\<^verbatim>\<open>wait_signal_contract\<close>,
  \<^verbatim>\<open>object_queue\<close>, \<^verbatim>\<open>storage_contract\<close>, \<^verbatim>\<open>delayed_contract\<close>, \<^verbatim>\<open>yield_contract\<close>), and a witness shows an instance of it.

  \<^bold>\<open>Interfaces.\<close>

  \<^verbatim>\<open>Prelude\<close> has four locales. \<^verbatim>\<open>inductive_invariant\<close> is the interface between a step relation and its
  properties, interpreted for the tree, the counters, the spin lock, the pool and its end, the benchmarks, the
  condition variable, the futex, the pointer storage, the signals, the timer test, the timer pool, the
  wake-ups of the spin semaphore and the two threads of the mutex test.
  \<^verbatim>\<open>bounded_effort\<close> extends it with a potential and is interpreted for the threads of \<^verbatim>\<open>core.cc\<close>; \<^verbatim>\<open>terminating\<close>
  extends it with work that every step reduces and is interpreted for the tasks of \<^verbatim>\<open>helloworld.cxx\<close>, for the
  whole of that program, for the tasks with a mutex, for the program of \<^verbatim>\<open>runthread.cxx\<close>, for the semaphore test and for the
  call-backs of the slow down test. \<^verbatim>\<open>codec\<close> is a pair of conversions,
  interpreted for the state numbers. \<^verbatim>\<open>Timers\<close> has \<^verbatim>\<open>running_timers\<close>, the contract of both implementations
  of running timers, of which the comparison of the two is a consequence. \<^verbatim>\<open>Object_Queue\<close> has
  \<^verbatim>\<open>object_queue\<close> and the locales of its users, function queues, task queues and the timer pool.

  \<^bold>\<open>Bounds and fuel.\<close>

  Loops that the source bounds are structural or have a measure; the matcher of regular expressions
  terminates because an iteration of a star must consume something. Fuel occurs in five places, always
  with a theorem that enough of it gives the result or that none is enough: the expiring of timers (the
  length of the container is enough, C18, C19), the graph of the spin lock (no fuel is enough, C9), the
  main loops around a task (one more than the turn in which the task calls back, or a request is ready, is enough), the
  runs of the task that yields (three are enough, C39) and the loop of the Fibonacci program (enough exactly when the root task was run after its subtasks had finished, C12). The
  calibrations take their measurements from a list; C30 says how many are enough on a steady machine. Theorems
  name the range in which a machine integer does not overflow: index 92 for \<^verbatim>\<open>fibo\<close>, 45 for the tasks, fewer than
  2^31 threads, readers and measurements, a delay of at least 100000 turns (C36).

  \<^bold>\<open>Not modelled.\<close>

  The submodules and what is generated by the build; debug output and plots; programs without state and decisions of
  their own (\<^verbatim>\<open>proto_test\<close> and \<^verbatim>\<open>serv_test\<close>, which assert what look-ups of a submodule answer; \<^verbatim>\<open>delay_loop_test\<close>,
  \<^verbatim>\<open>test_frequency_counter\<close> and \<^verbatim>\<open>hash_test\<close>, which construct or time objects of submodules); \<^verbatim>\<open>main\<close> of the two socket programs, which
  only sets up tasks. Of the modelled programs: the third implementation of timers, which
  derives from a submodule; the table of interrupted lines of \<^verbatim>\<open>signal_test.cxx\<close>; the file lock of \<^verbatim>\<open>FileLock_test.cxx\<close>;
  the debug tracking of \<^verbatim>\<open>objectqueue.cxx\<close>; the averages and histograms of \<^verbatim>\<open>core.cc\<close>; the rounding of the doubles of
  \<^verbatim>\<open>benchmark.cxx\<close>.
\<close>

end
